(* ===== verification/DDoS_Prelude.thy ===== *)
theory DDoS_Prelude
  imports Main "HOL-Library.Word"
begin

text \<open>
  Prelude of the development: names of the C integer types, the faults a C program can run
  into (as values of a sum type), reads from a byte buffer that fail outside it, byte order,
  and the generic lemmas the components share.

  Integers of the code are kept at their width (\<open>uint32_t\<close> is \<open>32 word\<close>, whose arithmetic
  wraps around as the C arithmetic does). \<open>time_t\<close> is an unbounded \<open>int\<close>: the code only adds
  and subtracts realistic clock values, and signed overflow would be undefined in C anyway.
  The target is little-endian x86-64, the only architecture the repository supports.
\<close>

unbundle bit_operations_syntax

section \<open>Integer types and faults\<close>

type_synonym u8 = "8 word"
type_synonym u16 = "16 word"
type_synonym u32 = "32 word"
type_synonym u64 = "64 word"
type_synonym time_t = int

text \<open>
  A run of the code that C leaves undefined (or that aborts) ends in a fault:
  a read outside a buffer, a use or a second release of a freed object, a null dereference,
  a division by zero, an object read at a type it does not have.
\<close>

datatype fault = OutOfBounds | UseAfterFree | DoubleFree | NullDeref | DivByZero | BadType

type_synonym 'a result = "fault + 'a"

text \<open>Sequencing of computations that may fault.\<close>

definition bindR :: "'a result \<Rightarrow> ('a \<Rightarrow> 'b result) \<Rightarrow> 'b result" where
  "bindR m k = (case m of Inl f \<Rightarrow> Inl f | Inr x \<Rightarrow> k x)"

lemma bindR_simps [simp]:
  "bindR (Inl f) k = Inl f"
  "bindR (Inr x) k = k x"
  by (simp_all add: bindR_def)

lemma bindR_Inr_iff: "bindR m k = Inr y \<longleftrightarrow> (\<exists>x. m = Inr x \<and> k x = Inr y)"
  by (cases m) simp_all

lemma bindR_Inl_iff: "bindR m k = Inl f \<longleftrightarrow> m = Inl f \<or> (\<exists>x. m = Inr x \<and> k x = Inl f)"
  by (cases m) simp_all

lemma bindR_cong [fundef_cong]:
  "m = m' \<Longrightarrow> (\<And>x. m' = Inr x \<Longrightarrow> k x = k' x) \<Longrightarrow> bindR m k = bindR m' k'"
  by (cases m') simp_all

text \<open>
  Loops over linked objects need not end when the links form a cycle. Such a computation is
  an \<open>option\<close> of a result: \<open>None\<close> is divergence.
\<close>

type_synonym 'a run = "'a result option"

definition bindM :: "'a run \<Rightarrow> ('a \<Rightarrow> 'b run) \<Rightarrow> 'b run" where
  "bindM m k = (case m of None \<Rightarrow> None | Some (Inl f) \<Rightarrow> Some (Inl f) | Some (Inr x) \<Rightarrow> k x)"

lemma bindM_simps [simp]:
  "bindM None k = None"
  "bindM (Some (Inl f)) k = Some (Inl f)"
  "bindM (Some (Inr x)) k = k x"
  by (simp_all add: bindM_def)

lemma bindM_ret: "bindM m k = Some (Inr y) \<longleftrightarrow> (\<exists>x. m = Some (Inr x) \<and> k x = Some (Inr y))"
  by (auto simp: bindM_def split: option.splits sum.splits)

text \<open>Recursive calls under \<open>bindM\<close> are monotone, so \<open>partial_function\<close> accepts them.\<close>

lemma bindM_option_bind:
  "bindM m k = Option.bind m (\<lambda>r. case r of Inl f \<Rightarrow> Some (Inl f) | Inr x \<Rightarrow> k x)"
  by (simp add: bindM_def split: option.splits sum.splits)

lemma bindM_mono [partial_function_mono]:
  assumes "mono_option B" and "\<And>y. mono_option (\<lambda>f. C y f)"
  shows "mono_option (\<lambda>f. bindM (B f) (\<lambda>y. C y f))"
proof -
  have "mono_option (\<lambda>f. case r of Inl x \<Rightarrow> Some (Inl x) | Inr x \<Rightarrow> C x f)" for r
    using assms(2) by (cases r) (simp_all add: option.const_mono)
  with assms(1) show ?thesis unfolding bindM_option_bind by (rule bind_mono)
qed

abbreviation ret :: "'a \<Rightarrow> 'a run" where "ret x \<equiv> Some (Inr x)"
abbreviation fail :: "fault \<Rightarrow> 'a run" where "fail f \<equiv> Some (Inl f)"

section \<open>Collections of facts\<close>

text \<open>
  \<open>wf\<close>: preservation of the components' invariants.
  \<open>frame\<close>: which fields an operation leaves alone.
\<close>

named_theorems wf_rules "preservation of invariants"
named_theorems frame_rules "fields left unchanged"

section \<open>Buffers\<close>

definition rd8 :: "u8 list \<Rightarrow> nat \<Rightarrow> u8 result" where
  "rd8 buf i = (if i < length buf then Inr (buf ! i) else Inl OutOfBounds)"

text \<open>\<open>ntohs\<close>/\<open>ntohl\<close> of a 2- or 4-byte field: the bytes read as a big-endian number.\<close>

definition be16 :: "u8 \<Rightarrow> u8 \<Rightarrow> u16" where
  "be16 a b = push_bit 8 (ucast a) OR ucast b"

definition be32 :: "u8 \<Rightarrow> u8 \<Rightarrow> u8 \<Rightarrow> u8 \<Rightarrow> u32" where
  "be32 a b c d = push_bit 24 (ucast a) OR push_bit 16 (ucast b) OR push_bit 8 (ucast c) OR ucast d"

definition rd16 :: "u8 list \<Rightarrow> nat \<Rightarrow> u16 result" where
  "rd16 buf i = bindR (rd8 buf i) (\<lambda>a. bindR (rd8 buf (i + 1)) (\<lambda>b. Inr (be16 a b)))"

definition rd32 :: "u8 list \<Rightarrow> nat \<Rightarrow> u32 result" where
  "rd32 buf i = bindR (rd8 buf i) (\<lambda>a. bindR (rd8 buf (i + 1)) (\<lambda>b.
     bindR (rd8 buf (i + 2)) (\<lambda>c. bindR (rd8 buf (i + 3)) (\<lambda>d. Inr (be32 a b c d)))))"

lemma rd8_in [simp]: "i < length buf \<Longrightarrow> rd8 buf i = Inr (buf ! i)"
  by (simp add: rd8_def)

lemma rd8_out [simp]: "length buf \<le> i \<Longrightarrow> rd8 buf i = Inl OutOfBounds"
  by (simp add: rd8_def)

lemma rd16_in [simp]: "i + 1 < length buf \<Longrightarrow> rd16 buf i = Inr (be16 (buf ! i) (buf ! (i + 1)))"
  by (simp add: rd16_def)

lemma rd32_in [simp]: "i + 3 < length buf \<Longrightarrow>
    rd32 buf i = Inr (be32 (buf ! i) (buf ! (i + 1)) (buf ! (i + 2)) (buf ! (i + 3)))"
  by (simp add: rd32_def)

lemma rd16_out: "length buf \<le> i + 1 \<Longrightarrow> rd16 buf i = Inl OutOfBounds"
  by (cases "i < length buf") (simp_all add: rd16_def)

lemma rd32_out: "length buf \<le> i + 3 \<Longrightarrow> rd32 buf i = Inl OutOfBounds"
  by (auto simp: rd32_def bindR_def rd8_def)

text \<open>The bytes of a 16- or 32-bit number in network order.\<close>

definition bytes16 :: "u16 \<Rightarrow> u8 list" where
  "bytes16 w = [ucast (drop_bit 8 w), ucast w]"

definition bytes32 :: "u32 \<Rightarrow> u8 list" where
  "bytes32 w = [ucast (drop_bit 24 w), ucast (drop_bit 16 w), ucast (drop_bit 8 w), ucast w]"

lemma be16_bytes16 [simp]: "be16 (ucast (drop_bit 8 w)) (ucast w) = w"
  by (rule bit_word_eqI) (auto simp: be16_def bit_simps)

lemma be32_bytes32 [simp]:
  "be32 (ucast (drop_bit 24 w)) (ucast (drop_bit 16 w)) (ucast (drop_bit 8 w)) (ucast w) = w"
proof (rule bit_word_eqI)
  fix n assume "n < LENGTH(32)"
  then have n: "n < 32" by simp
  consider "n < 8" | "8 \<le> n" "n < 16" | "16 \<le> n" "n < 24" | "24 \<le> n" by linarith
  then show "bit (be32 (ucast (drop_bit 24 w)) (ucast (drop_bit 16 w)) (ucast (drop_bit 8 w))
      (ucast w)) n \<longleftrightarrow> bit w n"
    using n by cases (auto simp: be32_def bit_simps)
qed

lemma length_bytes16 [simp]: "length (bytes16 w) = 2"
  by (simp add: bytes16_def)

lemma length_bytes32 [simp]: "length (bytes32 w) = 4"
  by (simp add: bytes32_def)

text \<open>Byte swap of a 32-bit word (\<open>htonl\<close> and \<open>ntohl\<close> on a little-endian machine).\<close>

definition bswap32 :: "u32 \<Rightarrow> u32" where
  "bswap32 w = be32 (ucast w) (ucast (drop_bit 8 w)) (ucast (drop_bit 16 w)) (ucast (drop_bit 24 w))"

lemma bit_bswap32:
  "bit (bswap32 w) n \<longleftrightarrow>
     (if n < 8 then bit w (n + 24) else if n < 16 then bit w (n + 8)
      else if n < 24 then bit w (n - 8) else n < 32 \<and> bit w (n - 24))"
proof -
  consider "n < 8" | "8 \<le> n" "n < 16" | "16 \<le> n" "n < 24" | "24 \<le> n" by linarith
  then show ?thesis
    by cases (auto simp: bswap32_def be32_def bit_simps add.commute)
qed

lemma bswap32_bswap32 [simp]: "bswap32 (bswap32 w) = w"
  by (rule bit_word_eqI) (auto simp: bit_bswap32)

lemma bswap32_and: "bswap32 (a AND b) = bswap32 a AND bswap32 b"
  by (rule bit_word_eqI) (auto simp: bit_bswap32 bit_simps)

lemma bswap32_eq_iff [simp]: "bswap32 a = bswap32 b \<longleftrightarrow> a = b"
  by (metis bswap32_bswap32)

section \<open>Generic lemmas\<close>

lemma uint_eq_uint [simp]: "uint x = uint y \<longleftrightarrow> x = y"
  by (simp add: word_uint_eq_iff)

lemma unat_inc: "unat w < 2 ^ LENGTH('a) - 1 \<Longrightarrow> unat (w + 1 :: 'a::len word) = unat w + 1"
  by (simp add: unat_word_ariths(1) mod_less)

lemma unat_inc_less:
  assumes "a < (b :: 'a::len word)"
  shows "unat (a + 1) = unat a + 1"
proof -
  have "unat a < unat b" using assms by (simp add: word_less_nat_alt)
  moreover have "unat b < 2 ^ LENGTH('a)" by (rule unsigned_less)
  ultimately have "unat a < 2 ^ LENGTH('a) - 1" by linarith
  then show ?thesis by (rule unat_inc)
qed

lemma unat_dec: "w \<noteq> 0 \<Longrightarrow> unat (w - 1 :: 'a::len word) = unat w - 1"
  by (simp add: unat_minus_one)

lemma word_mod_less_of_nat: "0 < n \<Longrightarrow> unat (w :: 'a::len word) mod n < n"
  by simp

end
