(* ===== verification/DDoS_Types.thy ===== *)
theory DDoS_Types
  imports DDoS_Prelude
begin

text \<open>
  The data of \<open>include/common.h\<close>: enumerations, addresses, connection tuples, per-address
  and global statistics, the configuration and the parsed packet, with the address functions
  that \<open>src/core/logger.c\<close> implements. Locks are left out of the records: every operation is
  modelled as the atomic step its lock makes it.
\<close>

section \<open>Enumerations\<close>

datatype attack_type =
    ATTACK_NONE
  | ATTACK_UDP_FLOOD
  | ATTACK_UDP_FRAGMENTATION
  | ATTACK_DNS_AMPLIFICATION
  | ATTACK_NTP_AMPLIFICATION
  | ATTACK_SSDP_REFLECTION
  | ATTACK_MEMCACHED_AMPLIFICATION
  | ATTACK_TCP_SYN_FLOOD
  | ATTACK_TCP_ACK_FLOOD
  | ATTACK_TCP_RST_FLOOD
  | ATTACK_TCP_FIN_FLOOD
  | ATTACK_TCP_PSH_ACK_FLOOD
  | ATTACK_SLOWLORIS
  | ATTACK_SOCKSTRESS
  | ATTACK_ICMP_FLOOD
  | ATTACK_ICMP_FRAGMENTATION
  | ATTACK_PING_OF_DEATH
  | ATTACK_SMURF
  | ATTACK_HTTP_GET_FLOOD
  | ATTACK_HTTP_POST_FLOOD
  | ATTACK_SLOW_POST
  | ATTACK_HTTP_HEADER_ANOMALY
  | ATTACK_MAX

text \<open>The values of the C enumeration, in which the code compares them.\<close>

fun attack_index :: "attack_type \<Rightarrow> nat" where
  "attack_index ATTACK_NONE = 0"
| "attack_index ATTACK_UDP_FLOOD = 1"
| "attack_index ATTACK_UDP_FRAGMENTATION = 2"
| "attack_index ATTACK_DNS_AMPLIFICATION = 3"
| "attack_index ATTACK_NTP_AMPLIFICATION = 4"
| "attack_index ATTACK_SSDP_REFLECTION = 5"
| "attack_index ATTACK_MEMCACHED_AMPLIFICATION = 6"
| "attack_index ATTACK_TCP_SYN_FLOOD = 7"
| "attack_index ATTACK_TCP_ACK_FLOOD = 8"
| "attack_index ATTACK_TCP_RST_FLOOD = 9"
| "attack_index ATTACK_TCP_FIN_FLOOD = 10"
| "attack_index ATTACK_TCP_PSH_ACK_FLOOD = 11"
| "attack_index ATTACK_SLOWLORIS = 12"
| "attack_index ATTACK_SOCKSTRESS = 13"
| "attack_index ATTACK_ICMP_FLOOD = 14"
| "attack_index ATTACK_ICMP_FRAGMENTATION = 15"
| "attack_index ATTACK_PING_OF_DEATH = 16"
| "attack_index ATTACK_SMURF = 17"
| "attack_index ATTACK_HTTP_GET_FLOOD = 18"
| "attack_index ATTACK_HTTP_POST_FLOOD = 19"
| "attack_index ATTACK_SLOW_POST = 20"
| "attack_index ATTACK_HTTP_HEADER_ANOMALY = 21"
| "attack_index ATTACK_MAX = 22"

lemma attack_index_inj [simp]: "attack_index a = attack_index b \<longleftrightarrow> a = b"
  by (cases a; cases b) simp_all

instantiation attack_type :: linorder
begin

definition less_eq_attack_type :: "attack_type \<Rightarrow> attack_type \<Rightarrow> bool" where
  "less_eq_attack_type a b = (attack_index a \<le> attack_index b)"

definition less_attack_type :: "attack_type \<Rightarrow> attack_type \<Rightarrow> bool" where
  "less_attack_type a b = (attack_index a < attack_index b)"

instance
  by standard (auto simp: less_eq_attack_type_def less_attack_type_def)

end

definition attack_types :: "attack_type list" where
  "attack_types =
    [ATTACK_NONE,
     ATTACK_UDP_FLOOD,
     ATTACK_UDP_FRAGMENTATION,
     ATTACK_DNS_AMPLIFICATION,
     ATTACK_NTP_AMPLIFICATION,
     ATTACK_SSDP_REFLECTION,
     ATTACK_MEMCACHED_AMPLIFICATION,
     ATTACK_TCP_SYN_FLOOD,
     ATTACK_TCP_ACK_FLOOD,
     ATTACK_TCP_RST_FLOOD,
     ATTACK_TCP_FIN_FLOOD,
     ATTACK_TCP_PSH_ACK_FLOOD,
     ATTACK_SLOWLORIS,
     ATTACK_SOCKSTRESS,
     ATTACK_ICMP_FLOOD,
     ATTACK_ICMP_FRAGMENTATION,
     ATTACK_PING_OF_DEATH,
     ATTACK_SMURF,
     ATTACK_HTTP_GET_FLOOD,
     ATTACK_HTTP_POST_FLOOD,
     ATTACK_SLOW_POST,
     ATTACK_HTTP_HEADER_ANOMALY]"

lemma set_attack_types: "set attack_types = {a. a < ATTACK_MAX}"
proof -
  have "a \<in> set attack_types \<longleftrightarrow> a < ATTACK_MAX" for a
    by (cases a) (simp_all add: attack_types_def less_attack_type_def)
  then show ?thesis by blast
qed

lemma distinct_attack_types: "distinct attack_types"
  by (simp add: attack_types_def)

fun attack_string :: "attack_type \<Rightarrow> string" where
  "attack_string ATTACK_NONE = ''None''"
| "attack_string ATTACK_UDP_FLOOD = ''UDP Flood''"
| "attack_string ATTACK_UDP_FRAGMENTATION = ''UDP Fragmentation''"
| "attack_string ATTACK_DNS_AMPLIFICATION = ''DNS Amplification''"
| "attack_string ATTACK_NTP_AMPLIFICATION = ''NTP Amplification''"
| "attack_string ATTACK_SSDP_REFLECTION = ''SSDP Reflection''"
| "attack_string ATTACK_MEMCACHED_AMPLIFICATION = ''Memcached Amplification''"
| "attack_string ATTACK_TCP_SYN_FLOOD = ''TCP SYN Flood''"
| "attack_string ATTACK_TCP_ACK_FLOOD = ''TCP ACK Flood''"
| "attack_string ATTACK_TCP_RST_FLOOD = ''TCP RST Flood''"
| "attack_string ATTACK_TCP_FIN_FLOOD = ''TCP FIN Flood''"
| "attack_string ATTACK_TCP_PSH_ACK_FLOOD = ''TCP PSH+ACK Flood''"
| "attack_string ATTACK_SLOWLORIS = ''Slowloris''"
| "attack_string ATTACK_SOCKSTRESS = ''Sockstress''"
| "attack_string ATTACK_ICMP_FLOOD = ''ICMP Flood''"
| "attack_string ATTACK_ICMP_FRAGMENTATION = ''ICMP Fragmentation''"
| "attack_string ATTACK_PING_OF_DEATH = ''Ping of Death''"
| "attack_string ATTACK_SMURF = ''Smurf Attack''"
| "attack_string ATTACK_HTTP_GET_FLOOD = ''HTTP GET Flood''"
| "attack_string ATTACK_HTTP_POST_FLOOD = ''HTTP POST Flood''"
| "attack_string ATTACK_SLOW_POST = ''Slow POST''"
| "attack_string ATTACK_HTTP_HEADER_ANOMALY = ''HTTP Header Anomaly''"
| "attack_string ATTACK_MAX = []"

definition attack_type_to_string :: "attack_type \<Rightarrow> string" where
  "attack_type_to_string type =
     (if type < ATTACK_MAX then attack_string type else ''Unknown'')"

datatype verdict = VERDICT_ACCEPT | VERDICT_DROP | VERDICT_RATE_LIMIT | VERDICT_CHALLENGE

datatype tcp_state =
    TCP_STATE_SYN_SENT
  | TCP_STATE_SYN_RECEIVED
  | TCP_STATE_ESTABLISHED
  | TCP_STATE_FIN_WAIT
  | TCP_STATE_CLOSE_WAIT
  | TCP_STATE_CLOSED

definition PROTO_ICMP :: u8 where "PROTO_ICMP = 1"
definition PROTO_TCP :: u8 where "PROTO_TCP = 6"
definition PROTO_UDP :: u8 where "PROTO_UDP = 17"

lemmas proto_defs = PROTO_ICMP_def PROTO_TCP_def PROTO_UDP_def

definition HASH_TABLE_SIZE :: u32 where "HASH_TABLE_SIZE = 1048576"
definition LRU_CACHE_SIZE :: u32 where "LRU_CACHE_SIZE = 524288"
definition MAX_BLACKLIST_SIZE :: u32 where "MAX_BLACKLIST_SIZE = 100000"
definition MAX_WHITELIST_SIZE :: u32 where "MAX_WHITELIST_SIZE = 10000"
definition MAX_WORKERS :: u32 where "MAX_WORKERS = 64"

section \<open>Addresses\<close>

text \<open>
  \<open>ip_addr_t\<close>: the 16 bytes of the union as one 128-bit number (byte \<open>i\<close> of the memory is bits
  \<open>8 * i\<close> to \<open>8 * i + 7\<close>), and the family byte. \<open>addr.v4.s_addr\<close> is its low 32 bits.
\<close>

record ip_addr =
  family :: u8
  ip_bits :: "128 word"

definition AF_INET :: u8 where "AF_INET = 2"
definition AF_INET6 :: u8 where "AF_INET6 = 10"

definition s_addr :: "ip_addr \<Rightarrow> u32" where
  "s_addr ip = ucast (ip_bits ip)"

definition v6_word :: "ip_addr \<Rightarrow> nat \<Rightarrow> u32" where
  "v6_word ip i = ucast (drop_bit (32 * i) (ip_bits ip))"

definition v6_byte :: "ip_addr \<Rightarrow> nat \<Rightarrow> u8" where
  "v6_byte ip i = ucast (drop_bit (8 * i) (ip_bits ip))"

definition addr_bytes :: "nat \<Rightarrow> ip_addr \<Rightarrow> u8 list" where
  "addr_bytes n ip = map (v6_byte ip) [0..<n]"

text \<open>\<open>memcmp\<close>: the difference of the first bytes that differ (callers only test it against 0).\<close>

fun memcmp :: "u8 list \<Rightarrow> u8 list \<Rightarrow> int" where
  "memcmp (x # xs) (y # ys) = (if x = y then memcmp xs ys else int (unat x) - int (unat y))"
| "memcmp _ _ = 0"

definition ip_addr_compare :: "ip_addr \<Rightarrow> ip_addr \<Rightarrow> int" where
  "ip_addr_compare a b =
     (if family a \<noteq> family b then int (unat (family a)) - int (unat (family b))
      else if family a = AF_INET then memcmp (addr_bytes 4 a) (addr_bytes 4 b)
      else memcmp (addr_bytes 16 a) (addr_bytes 16 b))"

text \<open>When two addresses count as the same: the union member of the family agrees.\<close>

definition same_ip :: "ip_addr \<Rightarrow> ip_addr \<Rightarrow> bool" where
  "same_ip a b \<longleftrightarrow> family a = family b \<and>
     (if family a = AF_INET then s_addr a = s_addr b else ip_bits a = ip_bits b)"

lemma memcmp_eq_0: "length xs = length ys \<Longrightarrow> memcmp xs ys = 0 \<longleftrightarrow> xs = ys"
  by (induction xs ys rule: list_induct2) auto

lemma addr_bytes_eq_iff:
  "addr_bytes n a = addr_bytes n b \<longleftrightarrow> (\<forall>i < n. v6_byte a i = v6_byte b i)"
  by (auto simp: addr_bytes_def list_eq_iff_nth_eq)

lemma bit_v6_byte: "bit (v6_byte ip i) k \<longleftrightarrow> k < 8 \<and> bit (ip_bits ip) (8 * i + k)"
  by (auto simp: v6_byte_def bit_simps)

lemma bits_from_bytes:
  assumes "\<forall>i < n. v6_byte a i = v6_byte b i" and "m < 8 * n"
  shows "bit (ip_bits a) m = bit (ip_bits b) m"
proof -
  have i: "m div 8 < n" using assms(2) by (simp add: less_mult_imp_div_less mult.commute)
  have m: "8 * (m div 8) + m mod 8 = m" by simp
  have k: "m mod 8 < 8" by simp
  from assms(1) i have "v6_byte a (m div 8) = v6_byte b (m div 8)" by blast
  then have "bit (v6_byte a (m div 8)) (m mod 8) = bit (v6_byte b (m div 8)) (m mod 8)" by simp
  then show ?thesis using k by (simp only: bit_v6_byte m) simp
qed

lemma addr_bytes_4: "addr_bytes 4 a = addr_bytes 4 b \<longleftrightarrow> s_addr a = s_addr b"
proof
  assume "addr_bytes 4 a = addr_bytes 4 b"
  then have eq: "\<forall>i < 4. v6_byte a i = v6_byte b i" by (simp only: addr_bytes_eq_iff)
  show "s_addr a = s_addr b"
    by (rule bit_word_eqI) (use bits_from_bytes [OF eq] in \<open>auto simp: s_addr_def bit_simps\<close>)
next
  assume eq: "s_addr a = s_addr b"
  have bit_eq: "bit (ip_bits a) m = bit (ip_bits b) m" if "m < 32" for m
    using arg_cong [OF eq, where f = "\<lambda>w. bit w m"] that by (simp add: s_addr_def bit_simps)
  have "v6_byte a i = v6_byte b i" if "i < 4" for i
    by (rule bit_word_eqI) (use that in \<open>auto simp: bit_v6_byte bit_eq\<close>)
  then show "addr_bytes 4 a = addr_bytes 4 b" by (simp add: addr_bytes_eq_iff)
qed

lemma addr_bytes_16: "addr_bytes 16 a = addr_bytes 16 b \<longleftrightarrow> ip_bits a = ip_bits b"
proof
  assume "addr_bytes 16 a = addr_bytes 16 b"
  then have eq: "\<forall>i < 16. v6_byte a i = v6_byte b i" by (simp only: addr_bytes_eq_iff)
  show "ip_bits a = ip_bits b"
    by (rule bit_word_eqI) (use bits_from_bytes [OF eq] in simp)
qed (simp add: addr_bytes_def v6_byte_def)

lemma ip_addr_compare_0: "ip_addr_compare a b = 0 \<longleftrightarrow> same_ip a b"
proof -
  have "length (addr_bytes n a) = length (addr_bytes n b)" for n by (simp add: addr_bytes_def)
  then show ?thesis
    by (simp add: ip_addr_compare_def same_ip_def memcmp_eq_0 addr_bytes_4 addr_bytes_16)
qed

lemma same_ip_refl [simp, intro]: "same_ip a a"
  by (simp add: same_ip_def)

lemma same_ip_sym: "same_ip a b \<Longrightarrow> same_ip b a"
  by (auto simp: same_ip_def split: if_splits)

lemma same_ip_trans: "same_ip a b \<Longrightarrow> same_ip b c \<Longrightarrow> same_ip a c"
  by (auto simp: same_ip_def split: if_splits)

text \<open>
  The address hash that \<open>ipset_hash\<close>, \<open>ip_hash_simple\<close> and \<open>ip_stats_hash\<close> share before each
  reduces it to its number of buckets.
\<close>

definition ip_hash_word :: "ip_addr \<Rightarrow> u32" where
  "ip_hash_word ip =
     (if family ip = AF_INET then bswap32 (s_addr ip)
      else fold (\<lambda>i h. h XOR v6_word ip i) [0..<4] 0)"

lemma ip_hash_word_cong: "same_ip a b \<Longrightarrow> ip_hash_word a = ip_hash_word b"
  by (auto simp: same_ip_def ip_hash_word_def v6_word_def split: if_splits)

text \<open>
  \<open>inet_pton\<close> and \<open>inet_ntop\<close> are the C library's: \<open>pton4\<close>/\<open>pton6\<close> and \<open>ntop4\<close>/\<open>ntop6\<close> stand
  for them at the two families.
\<close>

definition string_to_ip_addr ::
    "(string \<Rightarrow> u32 option) \<Rightarrow> (string \<Rightarrow> 128 word option) \<Rightarrow> string \<Rightarrow> ip_addr option" where
  "string_to_ip_addr pton4 pton6 str =
     (case pton4 str of
        Some a \<Rightarrow> Some \<lparr>family = AF_INET, ip_bits = ucast a\<rparr>
      | None \<Rightarrow> (case pton6 str of
          Some a \<Rightarrow> Some \<lparr>family = AF_INET6, ip_bits = a\<rparr>
        | None \<Rightarrow> None))"

definition ip_addr_to_string ::
    "(u32 \<Rightarrow> string) \<Rightarrow> (128 word \<Rightarrow> string) \<Rightarrow> ip_addr \<Rightarrow> string" where
  "ip_addr_to_string ntop4 ntop6 ip =
     (if family ip = AF_INET then ntop4 (s_addr ip) else ntop6 (ip_bits ip))"

section \<open>Connections and statistics\<close>

record conn_tuple =
  ct_src_ip :: ip_addr
  ct_dst_ip :: ip_addr
  ct_src_port :: u16
  ct_dst_port :: u16
  ct_protocol :: u8

record ip_stats =
  st_ip :: ip_addr
  st_packets :: "attack_type \<Rightarrow> u64"
  st_bytes :: "attack_type \<Rightarrow> u64"
  udp_pps :: u64
  tcp_syn_pps :: u64
  tcp_ack_pps :: u64
  icmp_pps :: u64
  http_rps :: u64
  last_update :: time_t
  st_first_seen :: time_t
  reputation_score :: u32
  is_blacklisted :: bool
  is_whitelisted :: bool
  blacklist_expires :: time_t
  country_code :: string
  asn :: u32

record global_stats =
  total_packets :: u64
  total_bytes :: u64
  dropped_packets :: u64
  rate_limited_packets :: u64
  attacks_detected :: "attack_type \<Rightarrow> u64"
  current_connections :: u64
  blacklisted_ips :: u64
  whitelisted_ips :: u64
  start_time :: time_t

text \<open>\<open>counts[attack]++\<close> on an array indexed by attack type.\<close>

definition bump :: "attack_type \<Rightarrow> (attack_type \<Rightarrow> u64) \<Rightarrow> (attack_type \<Rightarrow> u64)" where
  "bump a f = f(a := f a + 1)"

lemma bump_same [simp]: "bump a f a = f a + 1"
  by (simp add: bump_def)

lemma bump_other [simp]: "b \<noteq> a \<Longrightarrow> bump a f b = f b"
  by (simp add: bump_def)

section \<open>Configuration\<close>

record config =
  interface :: "string option"
  promiscuous_mode :: bool
  snaplen :: int
  num_workers :: u32
  cpu_affinity :: bool
  numa_aware :: bool
  udp_pps_threshold :: u32
  tcp_syn_pps_threshold :: u32
  tcp_ack_pps_threshold :: u32
  icmp_pps_threshold :: u32
  http_rps_threshold :: u32
  enable_rate_limiting :: bool
  rate_limit_pps :: u32
  rate_limit_bps :: u32
  auto_blacklist :: bool
  blacklist_duration :: u32
  whitelist_ips :: "string list"
  blacklist_ips :: "string list"
  enable_geoip :: bool
  blocked_countries :: "string list"
  geoip_db_path :: "string option"
  enable_xdp :: bool
  xdp_program_path :: "string option"
  enable_http_protection :: bool
  enable_js_challenge :: bool
  enable_captcha :: bool
  cfg_user_agent_blacklist :: "string list option"
  log_file :: "string option"
  log_level :: int
  syslog_enabled :: bool
  enable_api :: bool
  api_bind_address :: "string option"
  api_port :: u16
  api_auth_token :: "string option"
  enable_dashboard :: bool
  dashboard_port :: u16
  enable_chroot :: bool
  chroot_dir :: "string option"
  drop_user :: "string option"
  drop_group :: "string option"
  enable_seccomp :: bool

section \<open>Packets\<close>

text \<open>
  \<open>packet_t\<close>: \<open>data\<close> is the captured copy of the frame, so reading past its end reads outside
  the allocation. The header pointers are offsets into it (\<open>None\<close> is \<open>NULL\<close>).
\<close>

record packet =
  data :: "u8 list"
  pkt_len :: u32
  timestamp :: time_t
  eth_header :: "nat option"
  ip_header :: "nat option"
  transport_header :: "nat option"
  payload :: "nat option"
  eth_len :: u32
  ip_len :: u32
  transport_len :: u32
  payload_len :: u32
  is_ipv4 :: bool
  is_ipv6 :: bool
  protocol :: u8
  src_ip :: ip_addr
  dst_ip :: ip_addr
  src_port :: u16
  dst_port :: u16
  tcp_flags :: u8
  tcp_seq :: u32
  tcp_ack :: u32
  is_http :: bool
  http_method :: "string option"
  http_uri :: "string option"
  http_user_agent :: "string option"
  http_content_length :: u32

text \<open>The zeroed structures \<open>calloc\<close> returns.\<close>

definition zero_ip :: ip_addr where
  "zero_ip = \<lparr>family = 0, ip_bits = 0\<rparr>"

definition zero_packet :: packet where
  "zero_packet = \<lparr>data = [], pkt_len = 0, timestamp = 0, eth_header = None, ip_header = None,
     transport_header = None, payload = None, eth_len = 0, ip_len = 0, transport_len = 0,
     payload_len = 0, is_ipv4 = False, is_ipv6 = False, protocol = 0, src_ip = zero_ip,
     dst_ip = zero_ip, src_port = 0, dst_port = 0, tcp_flags = 0, tcp_seq = 0, tcp_ack = 0,
     is_http = False, http_method = None, http_uri = None, http_user_agent = None,
     http_content_length = 0\<rparr>"

definition zero_ip_stats :: ip_stats where
  "zero_ip_stats = \<lparr>st_ip = zero_ip, st_packets = (\<lambda>_. 0), st_bytes = (\<lambda>_. 0), udp_pps = 0,
     tcp_syn_pps = 0, tcp_ack_pps = 0, icmp_pps = 0, http_rps = 0, last_update = 0,
     st_first_seen = 0, reputation_score = 0, is_blacklisted = False, is_whitelisted = False,
     blacklist_expires = 0, country_code = [], asn = 0\<rparr>"

definition zero_global_stats :: global_stats where
  "zero_global_stats = \<lparr>total_packets = 0, total_bytes = 0, dropped_packets = 0,
     rate_limited_packets = 0, attacks_detected = (\<lambda>_. 0), current_connections = 0,
     blacklisted_ips = 0, whitelisted_ips = 0, start_time = 0\<rparr>"

text \<open>A field of the packet through one of its header pointers.\<close>

definition hdr8 :: "packet \<Rightarrow> nat option \<Rightarrow> nat \<Rightarrow> u8 result" where
  "hdr8 pkt p i = (case p of None \<Rightarrow> Inl NullDeref | Some off \<Rightarrow> rd8 (data pkt) (off + i))"

definition hdr16 :: "packet \<Rightarrow> nat option \<Rightarrow> nat \<Rightarrow> u16 result" where
  "hdr16 pkt p i = (case p of None \<Rightarrow> Inl NullDeref | Some off \<Rightarrow> rd16 (data pkt) (off + i))"

definition hdr32 :: "packet \<Rightarrow> nat option \<Rightarrow> nat \<Rightarrow> u32 result" where
  "hdr32 pkt p i = (case p of None \<Rightarrow> Inl NullDeref | Some off \<Rightarrow> rd32 (data pkt) (off + i))"

lemmas hdr_defs = hdr8_def hdr16_def hdr32_def

end
