(* ===== verification/PacketParser.thy ===== *)
theory PacketParser
  imports DDoS_Types
begin

text \<open>
  \<open>src/packet/parser.c\<close>: Ethernet, IPv4/IPv6, TCP, UDP, ICMP and HTTP parsing of one captured
  frame. Every read goes through \<open>rd8\<close> and its kin, so a read past the captured bytes is the
  fault \<open>OutOfBounds\<close>; the text searches of \<open>parse_http\<close> walk the payload byte by byte and
  fault when they run off its end, as nothing terminates the buffer.
  A parser returns its \<open>int\<close> result and the packet it has filled in.
\<close>

section \<open>Header fields\<close>

definition ETH_HLEN :: nat where "ETH_HLEN = 14"
definition IPHDR_LEN :: nat where "IPHDR_LEN = 20"
definition IP6HDR_LEN :: nat where "IP6HDR_LEN = 40"
definition TCPHDR_LEN :: nat where "TCPHDR_LEN = 20"
definition UDPHDR_LEN :: nat where "UDPHDR_LEN = 8"
definition ICMPHDR_LEN :: nat where "ICMPHDR_LEN = 8"

lemmas hdr_lens = ETH_HLEN_def IPHDR_LEN_def IP6HDR_LEN_def TCPHDR_LEN_def UDPHDR_LEN_def
  ICMPHDR_LEN_def

definition TCP_FLAG_FIN :: u8 where "TCP_FLAG_FIN = 0x01"
definition TCP_FLAG_SYN :: u8 where "TCP_FLAG_SYN = 0x02"
definition TCP_FLAG_RST :: u8 where "TCP_FLAG_RST = 0x04"
definition TCP_FLAG_PSH :: u8 where "TCP_FLAG_PSH = 0x08"
definition TCP_FLAG_ACK :: u8 where "TCP_FLAG_ACK = 0x10"
definition TCP_FLAG_URG :: u8 where "TCP_FLAG_URG = 0x20"

lemmas tcp_flag_defs = TCP_FLAG_FIN_def TCP_FLAG_SYN_def TCP_FLAG_RST_def TCP_FLAG_PSH_def
  TCP_FLAG_ACK_def TCP_FLAG_URG_def

text \<open>\<open>memcpy\<close> of \<open>n\<close> bytes, and the address they are in memory order.\<close>

definition rd_bytes :: "u8 list \<Rightarrow> nat \<Rightarrow> nat \<Rightarrow> u8 list result" where
  "rd_bytes buf i n = (if i + n \<le> length buf then Inr (take n (drop i buf)) else Inl OutOfBounds)"

definition mem_word :: "u8 list \<Rightarrow> 128 word" where
  "mem_word bs = foldr (\<lambda>b w. push_bit 8 w OR ucast b) bs 0"

definition set_v4 :: "ip_addr \<Rightarrow> u32 \<Rightarrow> ip_addr" where
  "set_v4 ip a = \<lparr>family = AF_INET, ip_bits = (ip_bits ip AND NOT (mask 32)) OR ucast a\<rparr>"

definition set_v6 :: "ip_addr \<Rightarrow> u8 list \<Rightarrow> ip_addr" where
  "set_v6 ip bs = \<lparr>family = AF_INET6, ip_bits = mem_word bs\<rparr>"

section \<open>Link and network layer\<close>

definition parse_ethernet :: "packet \<Rightarrow> int \<times> packet" where
  "parse_ethernet pkt =
     (if unat (pkt_len pkt) < ETH_HLEN then (-1, pkt)
      else (0, pkt\<lparr>eth_header := Some 0, eth_len := of_nat ETH_HLEN\<rparr>))"

definition parse_ip4 :: "packet \<Rightarrow> nat \<Rightarrow> u8 \<Rightarrow> packet result" where
  "parse_ip4 pkt iph b0 =
     bindR (rd8 (data pkt) (iph + 9)) (\<lambda>proto.
     bindR (rd32 (data pkt) (iph + 12)) (\<lambda>saddr.
     bindR (rd32 (data pkt) (iph + 16)) (\<lambda>daddr.
     bindR (rd16 (data pkt) (iph + 2)) (\<lambda>tot_len.
       (let len = 4 * ucast (b0 AND 0x0F) :: u32
        in Inr (pkt\<lparr>is_ipv4 := True, is_ipv6 := False, protocol := proto, ip_len := len,
             src_ip := set_v4 (src_ip pkt) (bswap32 saddr),
             dst_ip := set_v4 (dst_ip pkt) (bswap32 daddr),
             transport_header := Some (iph + unat len),
             transport_len := ucast tot_len - len\<rparr>))))))"

definition parse_ip6 :: "packet \<Rightarrow> nat \<Rightarrow> packet result" where
  "parse_ip6 pkt iph =
     bindR (rd8 (data pkt) (iph + 6)) (\<lambda>nxt.
     bindR (rd_bytes (data pkt) (iph + 8) 16) (\<lambda>src.
     bindR (rd_bytes (data pkt) (iph + 24) 16) (\<lambda>dst.
     bindR (rd16 (data pkt) (iph + 4)) (\<lambda>plen.
       Inr (pkt\<lparr>is_ipv4 := False, is_ipv6 := True, protocol := nxt, ip_len := of_nat IP6HDR_LEN,
            src_ip := set_v6 (src_ip pkt) src, dst_ip := set_v6 (dst_ip pkt) dst,
            transport_header := Some (iph + IP6HDR_LEN),
            transport_len := ucast plen\<rparr>)))))"

definition parse_ip :: "packet \<Rightarrow> (int \<times> packet) result" where
  "parse_ip pkt =
     (if unat (pkt_len pkt) < unat (eth_len pkt) + IPHDR_LEN then Inr (-1, pkt)
      else
        (let iph = unat (eth_len pkt); pkt1 = pkt\<lparr>ip_header := Some iph\<rparr>
         in bindR (rd8 (data pkt1) iph) (\<lambda>b0.
              (let version = drop_bit 4 b0 AND 0x0F
               in if version = 4 then bindR (parse_ip4 pkt1 iph b0) (\<lambda>p. Inr (0, p))
                  else if version = 6 then bindR (parse_ip6 pkt1 iph) (\<lambda>p. Inr (0, p))
                  else Inr (-1, pkt1)))))"

section \<open>Transport layer\<close>

definition flags_of :: "u8 \<Rightarrow> u8" where
  "flags_of b =
     (let f = (0 :: u8);
          f = (if bit b 0 then f OR TCP_FLAG_FIN else f);
          f = (if bit b 1 then f OR TCP_FLAG_SYN else f);
          f = (if bit b 2 then f OR TCP_FLAG_RST else f);
          f = (if bit b 3 then f OR TCP_FLAG_PSH else f);
          f = (if bit b 4 then f OR TCP_FLAG_ACK else f);
          f = (if bit b 5 then f OR TCP_FLAG_URG else f)
      in f)"

definition parse_tcp :: "packet \<Rightarrow> (int \<times> packet) result" where
  "parse_tcp pkt =
     (if unat (transport_len pkt) < TCPHDR_LEN then Inr (-1, pkt)
      else
        bindR (hdr16 pkt (transport_header pkt) 0) (\<lambda>source.
        bindR (hdr16 pkt (transport_header pkt) 2) (\<lambda>dest.
        bindR (hdr32 pkt (transport_header pkt) 4) (\<lambda>seq.
        bindR (hdr32 pkt (transport_header pkt) 8) (\<lambda>ack_seq.
        bindR (hdr8 pkt (transport_header pkt) 13) (\<lambda>fl.
        bindR (hdr8 pkt (transport_header pkt) 12) (\<lambda>off.
          (let pkt1 = pkt\<lparr>src_port := source, dst_port := dest, tcp_seq := seq, tcp_ack := ack_seq,
                         tcp_flags := flags_of fl\<rparr>;
               tcp_header_len = 4 * ucast (drop_bit 4 off) :: u32
           in if transport_len pkt1 < tcp_header_len then Inr (-1, pkt1)
              else Inr (0, pkt1\<lparr>payload := map_option (\<lambda>t. t + unat tcp_header_len) (transport_header pkt1),
                               payload_len := transport_len pkt1 - tcp_header_len\<rparr>)))))))))"

definition parse_udp :: "packet \<Rightarrow> (int \<times> packet) result" where
  "parse_udp pkt =
     (if unat (transport_len pkt) < UDPHDR_LEN then Inr (-1, pkt)
      else
        bindR (hdr16 pkt (transport_header pkt) 0) (\<lambda>source.
        bindR (hdr16 pkt (transport_header pkt) 2) (\<lambda>dest.
          Inr (0, pkt\<lparr>src_port := source, dst_port := dest,
                 payload := map_option (\<lambda>t. t + UDPHDR_LEN) (transport_header pkt),
                 payload_len := transport_len pkt - of_nat UDPHDR_LEN\<rparr>))))"

definition parse_icmp :: "packet \<Rightarrow> (int \<times> packet) result" where
  "parse_icmp pkt =
     (if unat (transport_len pkt) < ICMPHDR_LEN then Inr (-1, pkt)
      else
        bindR (hdr8 pkt (transport_header pkt) 0) (\<lambda>type.
        bindR (hdr8 pkt (transport_header pkt) 1) (\<lambda>code.
          Inr (0, pkt\<lparr>src_port := ucast type, dst_port := ucast code,
                 payload := map_option (\<lambda>t. t + ICMPHDR_LEN) (transport_header pkt),
                 payload_len := transport_len pkt - of_nat ICMPHDR_LEN\<rparr>))))"

section \<open>C strings in a buffer\<close>

definition byte_of :: "char \<Rightarrow> u8" where
  "byte_of c = of_nat (of_char c)"

definition char_of_byte :: "u8 \<Rightarrow> char" where
  "char_of_byte b = char_of (unat b)"

definition lit :: "string \<Rightarrow> u8 list" where
  "lit str = map byte_of str"

text \<open>\<open>strncmp(mem, l, strlen(l)) == 0\<close>: stops at the first difference.\<close>

fun strn_eq :: "u8 list \<Rightarrow> u8 list \<Rightarrow> bool result" where
  "strn_eq mem [] = Inr True"
| "strn_eq [] (l # ls) = Inl OutOfBounds"
| "strn_eq (m # ms) (l # ls) = (if m = l then strn_eq ms ls else Inr False)"

fun strchr_mem :: "u8 list \<Rightarrow> u8 \<Rightarrow> nat option result" where
  "strchr_mem [] c = Inl OutOfBounds"
| "strchr_mem (m # ms) c =
     (if m = c then Inr (Some 0)
      else if m = 0 then Inr None
      else bindR (strchr_mem ms c) (\<lambda>r. Inr (map_option Suc r)))"

fun strstr_mem :: "u8 list \<Rightarrow> u8 list \<Rightarrow> nat option result" where
  "strstr_mem [] l = Inl OutOfBounds"
| "strstr_mem (m # ms) l =
     bindR (strn_eq (m # ms) l) (\<lambda>eq.
       if eq then Inr (Some 0)
       else if m = 0 then Inr None
       else bindR (strstr_mem ms l) (\<lambda>r. Inr (map_option Suc r)))"

text \<open>\<open>while (*p == ' ') p++\<close>: what is left of the buffer.\<close>

fun skip_spaces :: "u8 list \<Rightarrow> u8 list result" where
  "skip_spaces [] = Inl OutOfBounds"
| "skip_spaces (m # ms) = (if m = 0x20 then skip_spaces ms else Inr (m # ms))"

text \<open>\<open>atoi\<close> on the buffer (a value beyond \<open>int\<close> is undefined in C and not restricted here).\<close>

definition blank_byte :: "u8 \<Rightarrow> bool" where
  "blank_byte b \<longleftrightarrow> b \<in> {9, 10, 11, 12, 13, 32}"

fun skip_blank :: "u8 list \<Rightarrow> u8 list result" where
  "skip_blank [] = Inl OutOfBounds"
| "skip_blank (m # ms) = (if blank_byte m then skip_blank ms else Inr (m # ms))"

fun digits_mem :: "int \<Rightarrow> u8 list \<Rightarrow> int result" where
  "digits_mem acc [] = Inl OutOfBounds"
| "digits_mem acc (m # ms) =
     (if 48 \<le> m \<and> m \<le> 57 then digits_mem (10 * acc + (uint m - 48)) ms else Inr acc)"

definition atoi_mem :: "u8 list \<Rightarrow> int result" where
  "atoi_mem mem =
     bindR (skip_blank mem) (\<lambda>rest.
       if hd rest = 0x2D then bindR (digits_mem 0 (tl rest)) (\<lambda>v. Inr (- v))
       else if hd rest = 0x2B then digits_mem 0 (tl rest)
       else digits_mem 0 rest)"

section \<open>HTTP\<close>

text \<open>The chain of method tests, in the order of the code.\<close>

definition http_methods :: "(string \<times> string) list" where
  "http_methods =
     [(''GET '', ''GET''), (''POST '', ''POST''), (''HEAD '', ''HEAD''), (''PUT '', ''PUT''),
      (''DELETE '', ''DELETE'')]"

fun find_method :: "u8 list \<Rightarrow> (string \<times> string) list \<Rightarrow> string option result" where
  "find_method mem [] = Inr None"
| "find_method mem ((prefix, m) # ps) =
     bindR (strn_eq mem (lit prefix)) (\<lambda>eq. if eq then Inr (Some m) else find_method mem ps)"

definition http_uri_of :: "u8 list \<Rightarrow> string option \<Rightarrow> string option result" where
  "http_uri_of mem old =
     bindR (strchr_mem mem 0x20) (\<lambda>r.
       case r of None \<Rightarrow> Inr old
       | Some i \<Rightarrow>
           (let uri_start = drop (i + 1) mem
            in bindR (strchr_mem uri_start 0x20) (\<lambda>r2.
                 case r2 of None \<Rightarrow> Inr old
                 | Some uri_len \<Rightarrow>
                     Inr (if 0 < uri_len \<and> uri_len < 2048
                          then Some (map char_of_byte (take uri_len uri_start)) else old))))"

definition http_ua_of :: "u8 list \<Rightarrow> string option \<Rightarrow> string option result" where
  "http_ua_of mem old =
     bindR (strstr_mem mem (lit ''User-Agent:'')) (\<lambda>r.
       case r of None \<Rightarrow> Inr old
       | Some i \<Rightarrow>
           bindR (skip_spaces (drop (i + 11) mem)) (\<lambda>ua_start.
           bindR (strstr_mem ua_start [0x0D, 0x0A]) (\<lambda>r2.
             case r2 of None \<Rightarrow> Inr old
             | Some ua_len \<Rightarrow>
                 Inr (if 0 < ua_len \<and> ua_len < 512
                      then Some (map char_of_byte (take ua_len ua_start)) else old))))"

definition http_cl_of :: "u8 list \<Rightarrow> u32 \<Rightarrow> u32 result" where
  "http_cl_of mem old =
     bindR (strstr_mem mem (lit ''Content-Length:'')) (\<lambda>r.
       case r of None \<Rightarrow> Inr old
       | Some i \<Rightarrow> bindR (atoi_mem (drop (i + 15) mem)) (\<lambda>v. Inr (word_of_int v)))"

definition parse_http :: "packet \<Rightarrow> (int \<times> packet) result" where
  "parse_http pkt =
     (case payload pkt of
        None \<Rightarrow> Inr (-1, pkt)
      | Some off \<Rightarrow>
          if payload_len pkt < 16 then Inr (-1, pkt)
          else
            (let mem = drop off (data pkt)
             in bindR (find_method mem http_methods) (\<lambda>m.
                  case m of
                    None \<Rightarrow> Inr (-1, pkt)
                  | Some meth \<Rightarrow>
                      bindR (http_uri_of mem (http_uri pkt)) (\<lambda>uri.
                      bindR (http_ua_of mem (http_user_agent pkt)) (\<lambda>ua.
                      bindR (http_cl_of mem (http_content_length pkt)) (\<lambda>cl.
                        Inr (0, pkt\<lparr>is_http := True, http_method := Some meth, http_uri := uri,
                               http_user_agent := ua, http_content_length := cl\<rparr>)))))))"

section \<open>The whole packet\<close>

definition http_port :: "packet \<Rightarrow> bool" where
  "http_port pkt \<longleftrightarrow> dst_port pkt = 80 \<or> dst_port pkt = 8080 \<or> src_port pkt = 80 \<or> src_port pkt = 8080"

definition parse_transport :: "packet \<Rightarrow> packet result" where
  "parse_transport pkt =
     (if protocol pkt = PROTO_TCP then
        bindR (parse_tcp pkt) (\<lambda>(_, p).
          if http_port p then bindR (parse_http p) (\<lambda>(_, p'). Inr p') else Inr p)
      else if protocol pkt = PROTO_UDP then bindR (parse_udp pkt) (\<lambda>(_, p). Inr p)
      else if protocol pkt = PROTO_ICMP then bindR (parse_icmp pkt) (\<lambda>(_, p). Inr p)
      else Inr pkt)"

definition packet_parse :: "packet \<Rightarrow> u8 list \<Rightarrow> u32 \<Rightarrow> time_t \<Rightarrow> (int \<times> packet) result" where
  "packet_parse pkt buf len ts =
     (if len = 0 then Inr (-1, pkt)
      else
        (let pkt1 = pkt\<lparr>data := buf, pkt_len := len, timestamp := ts\<rparr>;
             (r, pkt2) = parse_ethernet pkt1
         in if r \<noteq> 0 then Inr (-1, pkt2)
            else bindR (parse_ip pkt2) (\<lambda>(r, pkt3).
                   if r \<noteq> 0 then Inr (-1, pkt3)
                   else bindR (parse_transport pkt3) (\<lambda>pkt4. Inr (0, pkt4)))))"

end
