(* ===== verification/PacketCapture.thy ===== *)
theory PacketCapture
  imports PacketParser
begin

text \<open>
  \<open>src/packet/capture.c\<close>: the life cycle of a capture, the per-frame callback that copies,
  parses, hands over and frees a packet, and the two packet predicates the detectors use.
  \<open>libpcap\<close> is outside the repository: what it answers is an argument.
\<close>

section \<open>Packet predicates\<close>

definition packet_is_fragment :: "packet \<Rightarrow> bool result" where
  "packet_is_fragment pkt =
     (case ip_header pkt of
        None \<Rightarrow> Inr False
      | Some h \<Rightarrow>
          if is_ipv4 pkt then
            bindR (hdr16 pkt (ip_header pkt) 6) (\<lambda>frag_off.
              Inr (frag_off AND 0x1FFF \<noteq> 0 \<or> frag_off AND 0x2000 \<noteq> 0))
          else Inr False)"

definition packet_is_malformed :: "packet \<Rightarrow> bool result" where
  "packet_is_malformed pkt =
     (if unat (pkt_len pkt) < ETH_HLEN then Inr True
      else if is_ipv4 pkt then
        if unat (ip_len pkt) < IPHDR_LEN then Inr True
        else bindR (hdr16 pkt (ip_header pkt) 2) (\<lambda>tot.
          if unat tot < IPHDR_LEN then Inr True
          else if pkt_len pkt - eth_len pkt < ucast tot then Inr True
          else Inr False)
      else Inr False)"

section \<open>One frame\<close>

text \<open>
  The callback on \<open>caplen\<close> captured bytes: \<open>calloc_ok\<close> and \<open>malloc_ok\<close> are the allocator's
  answers, \<open>callback\<close> the user's function on its own state. The second component counts the
  packets handed over.
\<close>

definition pcap_callback ::
    "(packet \<Rightarrow> 's \<Rightarrow> 's result) \<Rightarrow> bool \<Rightarrow> bool \<Rightarrow> u8 list \<Rightarrow> time_t \<Rightarrow> 's \<Rightarrow> 's result" where
  "pcap_callback callback calloc_ok malloc_ok frame ts s =
     (if \<not> calloc_ok then Inr s
      else if \<not> malloc_ok then Inr s
      else
        (let pkt = zero_packet\<lparr>pkt_len := of_nat (length frame), data := frame, timestamp := ts\<rparr>
         in bindR (packet_parse pkt (data pkt) (pkt_len pkt) (timestamp pkt)) (\<lambda>(r, p).
              if r \<noteq> 0 then Inr s else callback p s)))"

section \<open>Life cycle\<close>

record packet_capture =
  pc_handle :: bool
  pc_interface :: string
  pc_promiscuous :: bool
  pc_snaplen :: int
  pc_running :: bool

definition DLT_EN10MB :: int where "DLT_EN10MB = 1"

definition packet_capture_init ::
    "bool \<Rightarrow> bool \<Rightarrow> int \<Rightarrow> string \<Rightarrow> bool \<Rightarrow> int \<Rightarrow> packet_capture option" where
  "packet_capture_init calloc_ok open_ok datalink iface promisc slen =
     (if \<not> calloc_ok then None
      else if \<not> open_ok then None
      else if datalink \<noteq> DLT_EN10MB then None
      else Some \<lparr>pc_handle = True, pc_interface = iface, pc_promiscuous = promisc,
                 pc_snaplen = slen, pc_running = False\<rparr>)"

text \<open>Both releases leave nothing of their object.\<close>

definition packet_capture_cleanup :: "packet_capture option \<Rightarrow> packet_capture option" where
  "packet_capture_cleanup pc = None"

definition packet_free :: "packet option \<Rightarrow> packet option" where
  "packet_free pkt = None"

definition packet_capture_stop :: "packet_capture option \<Rightarrow> packet_capture option" where
  "packet_capture_stop pc = map_option (\<lambda>p. p\<lparr>pc_running := False\<rparr>) pc"

text \<open>\<open>packet_capture_start\<close>: \<open>pcap_loop\<close> delivers the frames \<open>fs\<close> and then returns \<open>loop_ret\<close>.\<close>

fun deliver :: "(packet \<Rightarrow> 's \<Rightarrow> 's result) \<Rightarrow> (u8 list \<times> time_t) list \<Rightarrow> 's \<Rightarrow> 's result" where
  "deliver callback [] s = Inr s"
| "deliver callback ((frame, ts) # fs) s =
     bindR (pcap_callback callback True True frame ts s) (deliver callback fs)"

definition packet_capture_start ::
    "packet_capture option \<Rightarrow> (packet \<Rightarrow> 's \<Rightarrow> 's result) \<Rightarrow> (u8 list \<times> time_t) list \<Rightarrow> int \<Rightarrow> 's \<Rightarrow>
      (int \<times> packet_capture option \<times> 's) result" where
  "packet_capture_start pc callback fs loop_ret s =
     (case pc of
        None \<Rightarrow> Inr (-1, None, s)
      | Some p \<Rightarrow>
          bindR (deliver callback fs s) (\<lambda>s'.
            Inr (if loop_ret = -1 then -1 else 0, Some (p\<lparr>pc_running := True\<rparr>), s')))"

end
