(* ===== verification/Detector.thy ===== *)
theory Detector
  imports PacketCapture
begin

text \<open>
  What the four protection modules of \<open>src/detection\<close> share: how they raise an alarm, and the
  contract of a detector that the analyzer calls. A detector looks at one packet and answers with
  a verdict and its new state; the locale states what an answer may change, and derives what holds
  of the counters after any sequence of packets. Each module interprets it on its own functions.
\<close>

section \<open>Alarms\<close>

definition alarm :: "attack_type \<Rightarrow> global_stats \<Rightarrow> global_stats" where
  "alarm a g = g\<lparr>attacks_detected := bump a (attacks_detected g)\<rparr>"

definition count_attack :: "attack_type \<Rightarrow> ip_stats \<Rightarrow> ip_stats" where
  "count_attack a st = st\<lparr>st_packets := bump a (st_packets st)\<rparr>"

lemma alarm_simps [simp]:
  "attacks_detected (alarm a g) = bump a (attacks_detected g)" "total_packets (alarm a g) = total_packets g"
  "total_bytes (alarm a g) = total_bytes g" "dropped_packets (alarm a g) = dropped_packets g"
  "rate_limited_packets (alarm a g) = rate_limited_packets g"
  by (simp_all add: alarm_def)

lemma count_attack_simps [simp]:
  "udp_pps (count_attack a st) = udp_pps st" "tcp_syn_pps (count_attack a st) = tcp_syn_pps st"
  "tcp_ack_pps (count_attack a st) = tcp_ack_pps st" "icmp_pps (count_attack a st) = icmp_pps st"
  "http_rps (count_attack a st) = http_rps st" "last_update (count_attack a st) = last_update st"
  "reputation_score (count_attack a st) = reputation_score st" "st_ip (count_attack a st) = st_ip st"
  "st_packets (count_attack a st) = bump a (st_packets st)"
  by (simp_all add: count_attack_def)

text \<open>Bytes at the payload pointer.\<close>

definition payload_bytes :: "packet \<Rightarrow> nat \<Rightarrow> u8 list result" where
  "payload_bytes pkt n =
     (case payload pkt of None \<Rightarrow> Inl NullDeref | Some off \<Rightarrow> rd_bytes (data pkt) off n)"

text \<open>How an answer may change the drop counter and the global statistics.\<close>

definition counted_outcome :: "u64 \<Rightarrow> global_stats \<Rightarrow> verdict \<Rightarrow> u64 \<Rightarrow> global_stats \<Rightarrow> bool" where
  "counted_outcome d g v d' g' \<longleftrightarrow>
     (if v = VERDICT_ACCEPT then d' = d \<and> g' = g
      else d' = d + 1 \<and> (g' = g \<or> (\<exists>a. a \<noteq> ATTACK_NONE \<and> g' = alarm a g)))"

lemma counted_outcomeI [intro]:
  "d' = d \<Longrightarrow> counted_outcome d g VERDICT_ACCEPT d' g"
  "v \<noteq> VERDICT_ACCEPT \<Longrightarrow> d' = d + 1 \<Longrightarrow> counted_outcome d g v d' g"
  "v \<noteq> VERDICT_ACCEPT \<Longrightarrow> d' = d + 1 \<Longrightarrow> a \<noteq> ATTACK_NONE \<Longrightarrow> counted_outcome d g v d' (alarm a g)"
  by (auto simp: counted_outcome_def)

text \<open>A sequence of packets: the verdicts and the final state.\<close>

fun run_steps :: "('e \<Rightarrow> packet \<Rightarrow> 's \<Rightarrow> (verdict \<times> 's) run) \<Rightarrow> ('e \<times> packet) list \<Rightarrow> 's \<Rightarrow> (verdict list \<times> 's) run" where
  "run_steps step [] s = ret ([], s)"
| "run_steps step ((e, pkt) # ps) s =
     bindM (step e pkt s) (\<lambda>(v, s1). bindM (run_steps step ps s1) (\<lambda>(vs, s2). ret (v # vs, s2)))"

lemma run_steps_Cons:
  "run_steps step ((e, pkt) # ps) s = ret (vs, s2) \<longleftrightarrow>
    (\<exists>v vs' s1. vs = v # vs' \<and> step e pkt s = ret (v, s1) \<and> run_steps step ps s1 = ret (vs', s2))"
  by (auto simp: bindM_def split: option.splits sum.splits prod.splits)

lemma run_steps_ConsE:
  assumes "run_steps step (x # ps) s = ret (vs, s2)"
  obtains v vs' s1 where "vs = v # vs'" "step (fst x) (snd x) s = ret (v, s1)" "run_steps step ps s1 = ret (vs', s2)"
  using assms by (cases x) (auto simp only: run_steps_Cons fst_conv snd_conv)

section \<open>The contract\<close>

locale detector =
  fixes step :: "'e \<Rightarrow> packet \<Rightarrow> 's \<Rightarrow> (verdict \<times> 's) run"
    and dropped :: "'s \<Rightarrow> u64"
    and glob :: "'s \<Rightarrow> global_stats"
  assumes accept_quiet: "step e pkt s = ret (VERDICT_ACCEPT, s') \<Longrightarrow> glob s' = glob s \<and> dropped s' = dropped s"
    and alarm_drops: "step e pkt s = ret (v, s') \<Longrightarrow>
      glob s' = glob s \<and> (dropped s' = dropped s \<or> dropped s' = dropped s + 1) \<or>
      (\<exists>a. a \<noteq> ATTACK_NONE \<and> glob s' = alarm a (glob s)) \<and> dropped s' = dropped s + 1"
begin

text \<open>Every alarm of a run is one of its counted drops, and belongs to a packet not accepted.\<close>

lemma alarms_counted:
  "run_steps step ps s = ret (vs, s') \<Longrightarrow>
    \<exists>as n. glob s' = fold alarm as (glob s) \<and> ATTACK_NONE \<notin> set as \<and> dropped s' = dropped s + of_nat n \<and>
      length as \<le> n \<and> n \<le> length (filter (\<lambda>v. v \<noteq> VERDICT_ACCEPT) vs)"
proof (induction ps arbitrary: s vs)
  case Nil
  then show ?case by (intro exI [of _ "[]"] exI [of _ 0]) auto
next
  case (Cons x ps)
  obtain v vs' s1 where s1: "vs = v # vs'" "step (fst x) (snd x) s = ret (v, s1)" "run_steps step ps s1 = ret (vs', s')"
    using Cons.prems by (rule run_steps_ConsE)
  obtain as n where rest: "glob s' = fold alarm as (glob s1)" "ATTACK_NONE \<notin> set as"
    "dropped s' = dropped s1 + of_nat n" "length as \<le> n" "n \<le> length (filter (\<lambda>v. v \<noteq> VERDICT_ACCEPT) vs')"
    using Cons.IH [OF s1(3)] by blast
  show ?case
  proof (cases "v = VERDICT_ACCEPT")
    case True
    with accept_quiet s1(2) have "glob s1 = glob s" "dropped s1 = dropped s" by blast+
    with rest s1(1) True show ?thesis by (intro exI [of _ as] exI [of _ n]) auto
  next
    case False
    consider (quiet) "glob s1 = glob s" "dropped s1 = dropped s"
      | (drop) "glob s1 = glob s" "dropped s1 = dropped s + 1"
      | (alarm) a where "a \<noteq> ATTACK_NONE" "glob s1 = alarm a (glob s)" "dropped s1 = dropped s + 1"
      using alarm_drops [OF s1(2)] by blast
    then show ?thesis
    proof cases
      case quiet
      with rest s1(1) False show ?thesis by (intro exI [of _ as] exI [of _ n]) auto
    next
      case drop
      with rest s1(1) False show ?thesis by (intro exI [of _ as] exI [of _ "Suc n"]) auto
    next
      case (alarm a)
      with rest s1(1) False show ?thesis by (intro exI [of _ "a # as"] exI [of _ "Suc n"]) auto
    qed
  qed
qed

lemma alarms_bounded:
  "run_steps step ps s = ret (vs, s') \<Longrightarrow>
    \<exists>as. glob s' = fold alarm as (glob s) \<and> ATTACK_NONE \<notin> set as \<and> length as \<le> length (filter (\<lambda>v. v \<noteq> VERDICT_ACCEPT) vs)"
  using alarms_counted by (meson order_trans)

end

text \<open>A detector that counts every packet it does not accept.\<close>

locale counting_detector = detector +
  assumes reject_counted: "step e pkt s = ret (v, s') \<Longrightarrow> v \<noteq> VERDICT_ACCEPT \<Longrightarrow> dropped s' = dropped s + 1"
begin

lemma drops_exact:
  "run_steps step ps s = ret (vs, s') \<Longrightarrow>
    dropped s' = dropped s + of_nat (length (filter (\<lambda>v. v \<noteq> VERDICT_ACCEPT) vs))"
proof (induction ps arbitrary: s vs)
  case (Cons x ps)
  obtain v vs' s1 where s1: "vs = v # vs'" "step (fst x) (snd x) s = ret (v, s1)" "run_steps step ps s1 = ret (vs', s')"
    using Cons.prems by (rule run_steps_ConsE)
  have "dropped s1 = dropped s + (if v = VERDICT_ACCEPT then 0 else 1)"
    using accept_quiet [of "fst x" "snd x" s s1] reject_counted [OF s1(2)] s1(2) by auto
  with Cons.IH [OF s1(3)] s1(1) show ?case by simp
qed auto

end

lemma counting_detectorI:
  assumes "\<And>e pkt s v s'. step e pkt s = ret (v, s') \<Longrightarrow>
    counted_outcome (dropped s) (glob s) v (dropped s') (glob s')"
  shows "counting_detector step dropped glob"
proof
  fix e pkt s s' assume "step e pkt s = ret (VERDICT_ACCEPT, s')"
  from assms [OF this] show "glob s' = glob s \<and> dropped s' = dropped s"
    by (simp add: counted_outcome_def)
next
  fix e pkt s v s' assume "step e pkt s = ret (v, s')"
  from assms [OF this]
  show "glob s' = glob s \<and> (dropped s' = dropped s \<or> dropped s' = dropped s + 1) \<or>
      (\<exists>a. a \<noteq> ATTACK_NONE \<and> glob s' = alarm a (glob s)) \<and> dropped s' = dropped s + 1"
    by (auto simp: counted_outcome_def split: if_splits)
next
  fix e pkt s v s' assume "step e pkt s = ret (v, s')" "v \<noteq> VERDICT_ACCEPT"
  from assms [OF this(1)] this(2) show "dropped s' = dropped s + 1"
    by (simp add: counted_outcome_def)
qed

section \<open>A concrete configuration\<close>

definition example_cfg :: config where
  "example_cfg = \<lparr>interface = None, promiscuous_mode = False, snaplen = 0, num_workers = 1,
     cpu_affinity = False, numa_aware = False, udp_pps_threshold = 2, tcp_syn_pps_threshold = 2,
     tcp_ack_pps_threshold = 0, icmp_pps_threshold = 20, http_rps_threshold = 2,
     enable_rate_limiting = False, rate_limit_pps = 0, rate_limit_bps = 0, auto_blacklist = True,
     blacklist_duration = 60, whitelist_ips = [], blacklist_ips = [], enable_geoip = False,
     blocked_countries = [], geoip_db_path = None, enable_xdp = False, xdp_program_path = None,
     enable_http_protection = True, enable_js_challenge = False, enable_captcha = False,
     cfg_user_agent_blacklist = None, log_file = None, log_level = 1, syslog_enabled = False,
     enable_api = False, api_bind_address = None, api_port = 0, api_auth_token = None,
     enable_dashboard = False, dashboard_port = 0, enable_chroot = False, chroot_dir = None,
     drop_user = None, drop_group = None, enable_seccomp = False\<rparr>"

end
