(* ===== verification/UdpProtect.thy ===== *)
theory UdpProtect
  imports Detector
begin

text \<open>
  \<open>src/detection/udp_protect.c\<close>: amplification and reflection signatures, the packet rate of one
  source, fragments and malformed packets. The context pointer \<open>g_udp_ctx\<close> is \<open>None\<close> before
  \<open>udp_protect_init\<close>. Log lines are not modelled; the \<open>ctx\<close>, \<open>pkt\<close> and \<open>stats\<close> pointers are the
  caller's, which are never \<open>NULL\<close>.
\<close>

section \<open>Context\<close>

definition DNS_PORT :: u16 where "DNS_PORT = 53"
definition NTP_PORT :: u16 where "NTP_PORT = 123"
definition SSDP_PORT :: u16 where "SSDP_PORT = 1900"
definition MEMCACHED_PORT :: u16 where "MEMCACHED_PORT = 11211"

lemmas udp_ports = DNS_PORT_def NTP_PORT_def SSDP_PORT_def MEMCACHED_PORT_def

record udp_protect_ctx =
  total_udp_packets :: u64
  udp_dropped :: u64
  udp_last_update :: time_t

definition udp_protect_init :: "bool \<Rightarrow> time_t \<Rightarrow> int \<times> udp_protect_ctx option" where
  "udp_protect_init calloc_ok now =
     (if \<not> calloc_ok then (-1, None)
      else (0, Some \<lparr>total_udp_packets = 0, udp_dropped = 0, udp_last_update = now\<rparr>))"

definition udp_protect_cleanup :: "udp_protect_ctx option \<Rightarrow> udp_protect_ctx option" where
  "udp_protect_cleanup u = None"

section \<open>Signatures\<close>

definition is_dns_amplification :: "packet \<Rightarrow> bool result" where
  "is_dns_amplification pkt =
     (if protocol pkt \<noteq> PROTO_UDP then Inr False
      else if src_port pkt = DNS_PORT \<and> 512 < payload_len pkt then
        if 3 \<le> payload_len pkt then
          bindR (hdr8 pkt (payload pkt) 2) (\<lambda>b. Inr (b AND 0x80 \<noteq> 0))
        else Inr False
      else Inr False)"

definition is_ntp_amplification :: "packet \<Rightarrow> bool result" where
  "is_ntp_amplification pkt =
     (if protocol pkt \<noteq> PROTO_UDP then Inr False
      else if src_port pkt = NTP_PORT \<and> 400 < payload_len pkt then
        if 1 \<le> payload_len pkt then
          bindR (hdr8 pkt (payload pkt) 0) (\<lambda>b. Inr (b AND 0x07 = 6))
        else Inr False
      else Inr False)"

definition is_ssdp_reflection :: "packet \<Rightarrow> bool result" where
  "is_ssdp_reflection pkt =
     (if protocol pkt \<noteq> PROTO_UDP then Inr False
      else if src_port pkt = SSDP_PORT \<and> 200 < payload_len pkt then
        if 12 \<le> payload_len pkt then
          bindR (payload_bytes pkt 12) (\<lambda>bs. Inr (memcmp bs (lit ''HTTP/1.1 200'') = 0))
        else Inr False
      else Inr False)"

definition is_memcached_amplification :: "packet \<Rightarrow> bool result" where
  "is_memcached_amplification pkt =
     (if protocol pkt \<noteq> PROTO_UDP then Inr False
      else if src_port pkt = MEMCACHED_PORT \<and> 1000 < payload_len pkt then
        if 5 \<le> payload_len pkt then
          bindR (payload_bytes pkt 5) (\<lambda>bs.
            if memcmp bs (lit ''VALUE'') = 0 then Inr True
            else bindR (payload_bytes pkt 4) (\<lambda>bs. Inr (memcmp bs (lit ''STAT'') = 0)))
        else Inr False
      else Inr False)"

text \<open>The first signature that matches, in the order of the code.\<close>

definition amplification_of :: "packet \<Rightarrow> attack_type result" where
  "amplification_of pkt =
     bindR (is_dns_amplification pkt) (\<lambda>dns.
       if dns then Inr ATTACK_DNS_AMPLIFICATION
       else bindR (is_ntp_amplification pkt) (\<lambda>ntp.
         if ntp then Inr ATTACK_NTP_AMPLIFICATION
         else bindR (is_ssdp_reflection pkt) (\<lambda>ssdp.
           if ssdp then Inr ATTACK_SSDP_REFLECTION
           else bindR (is_memcached_amplification pkt) (\<lambda>mc.
             if mc then Inr ATTACK_MEMCACHED_AMPLIFICATION else Inr ATTACK_NONE))))"

section \<open>Analysis of one packet\<close>

type_synonym udp_state = "udp_protect_ctx option \<times> global_stats \<times> ip_stats"

definition udp_count_drop :: "udp_protect_ctx \<Rightarrow> udp_protect_ctx option" where
  "udp_count_drop u = Some (u\<lparr>udp_dropped := udp_dropped u + 1\<rparr>)"

text \<open>What follows the rate check: fragments, malformed packets.\<close>

definition udp_checks ::
    "udp_protect_ctx \<Rightarrow> global_stats \<Rightarrow> packet \<Rightarrow> ip_stats \<Rightarrow> (verdict \<times> udp_state) result" where
  "udp_checks u g pkt st =
     bindR (packet_is_fragment pkt) (\<lambda>frag.
       if frag \<and> payload_len pkt < 8 then
         Inr (VERDICT_DROP, udp_count_drop u, alarm ATTACK_UDP_FRAGMENTATION g,
              count_attack ATTACK_UDP_FRAGMENTATION st)
       else bindR (packet_is_malformed pkt) (\<lambda>bad.
         if bad then Inr (VERDICT_DROP, udp_count_drop u, g, st)
         else Inr (VERDICT_ACCEPT, Some u, g, st)))"

definition udp_protect_analyze ::
    "config \<Rightarrow> time_t \<Rightarrow> packet \<Rightarrow> udp_state \<Rightarrow> (verdict \<times> udp_state) result" where
  "udp_protect_analyze cfg now pkt = (\<lambda>(up, g, st).
     if protocol pkt \<noteq> PROTO_UDP then Inr (VERDICT_ACCEPT, up, g, st)
     else case up of
       None \<Rightarrow> Inl NullDeref
     | Some u0 \<Rightarrow>
         (let u = u0\<lparr>total_udp_packets := total_udp_packets u0 + 1\<rparr>
          in bindR (amplification_of pkt) (\<lambda>attack.
            if attack \<noteq> ATTACK_NONE then
              Inr (VERDICT_DROP, udp_count_drop u, alarm attack g, count_attack attack st)
            else
              (let st = st\<lparr>udp_pps := udp_pps st + 1\<rparr>
               in if 1 \<le> now - last_update st then
                    if ucast (udp_pps_threshold cfg) < udp_pps st then
                      Inr (VERDICT_DROP, udp_count_drop u, alarm ATTACK_UDP_FLOOD g,
                           count_attack ATTACK_UDP_FLOOD st)
                    else udp_checks u g pkt (st\<lparr>udp_pps := 0, last_update := now\<rparr>)
                  else udp_checks u g pkt st))))"

section \<open>The contract\<close>

definition udp_step :: "config \<times> time_t \<Rightarrow> packet \<Rightarrow> udp_state \<Rightarrow> (verdict \<times> udp_state) run" where
  "udp_step = (\<lambda>(cfg, now) pkt s. Some (udp_protect_analyze cfg now pkt s))"

definition udp_drops :: "udp_state \<Rightarrow> u64" where
  "udp_drops = (\<lambda>(u, g, st). case u of None \<Rightarrow> 0 | Some c \<Rightarrow> udp_dropped c)"

definition udp_glob :: "udp_state \<Rightarrow> global_stats" where
  "udp_glob = (\<lambda>(u, g, st). g)"

abbreviation udp_counted :: "udp_state \<Rightarrow> verdict \<Rightarrow> udp_state \<Rightarrow> bool" where
  "udp_counted s v s' \<equiv> counted_outcome (udp_drops s) (udp_glob s) v (udp_drops s') (udp_glob s')"

lemmas udp_projs = udp_drops_def udp_glob_def udp_count_drop_def

lemma udp_checks_counted:
  "udp_checks u g pkt st = Inr (v, s') \<Longrightarrow> udp_dropped u = udp_dropped u0 \<Longrightarrow> udp_counted (Some u0, g, st0) v s'"
  by (cases s') (auto simp: udp_checks_def bindR_Inr_iff udp_projs split: if_splits)

lemma udp_analyze_counted:
  assumes "udp_protect_analyze cfg now pkt s = Inr (v, s')"
  shows "udp_counted s v s'"
proof -
  obtain up g st where s: "s = (up, g, st)" by (cases s)
  show ?thesis
  proof (cases "protocol pkt = PROTO_UDP")
    case False
    with assms show ?thesis by (auto simp: udp_protect_analyze_def s)
  next
    case True
    then obtain u where u: "up = Some u" using assms s by (cases up) (auto simp: udp_protect_analyze_def)
    then obtain a where a: "amplification_of pkt = Inr a"
      using assms True s by (cases "amplification_of pkt") (auto simp: udp_protect_analyze_def Let_def)
    show ?thesis
    proof (cases "a = ATTACK_NONE")
      case False
      with assms a True u s show ?thesis by (auto simp: udp_protect_analyze_def Let_def udp_projs)
    next
      case None: True
      with assms a True u s show ?thesis
        by (auto simp: udp_protect_analyze_def Let_def udp_projs split: if_splits
            dest!: udp_checks_counted [of _ _ _ _ _ _ u st])
    qed
  qed
qed

interpretation udp: counting_detector udp_step udp_drops udp_glob
  by (rule counting_detectorI) (auto simp: udp_step_def dest: udp_analyze_counted)

section \<open>What is accepted\<close>

text \<open>C16: what \<open>udp_protect_analyze\<close> lets through. A UDP packet is accepted exactly when no
  amplification signature matches, its source is not over the threshold at the end of a counting
  period, it is not a fragment with less than 8 bytes of payload and it is not malformed; every
  other one is dropped.\<close>

theorem udp_accept_iff:
  assumes "udp_protect_analyze cfg now pkt (Some u, g, st) = Inr (v, s')" and "protocol pkt = PROTO_UDP"
  shows "(v = VERDICT_ACCEPT \<longleftrightarrow>
      is_dns_amplification pkt = Inr False \<and> is_ntp_amplification pkt = Inr False \<and>
      is_ssdp_reflection pkt = Inr False \<and> is_memcached_amplification pkt = Inr False \<and>
      \<not> (1 \<le> now - last_update st \<and> ucast (udp_pps_threshold cfg) < udp_pps st + 1) \<and>
      \<not> (packet_is_fragment pkt = Inr True \<and> payload_len pkt < 8) \<and>
      packet_is_malformed pkt = Inr False) \<and>
    (v = VERDICT_ACCEPT \<or> v = VERDICT_DROP)"
proof -
  obtain a where a: "amplification_of pkt = Inr a"
    using assms by (cases "amplification_of pkt") (auto simp: udp_protect_analyze_def Let_def)
  have sig: "a = ATTACK_NONE \<longleftrightarrow> is_dns_amplification pkt = Inr False \<and> is_ntp_amplification pkt = Inr False \<and>
      is_ssdp_reflection pkt = Inr False \<and> is_memcached_amplification pkt = Inr False"
    using a by (auto simp: amplification_of_def bindR_Inr_iff split: if_splits)
  have chk: "(v = VERDICT_ACCEPT \<longleftrightarrow> \<not> (packet_is_fragment pkt = Inr True \<and> payload_len pkt < 8) \<and>
      packet_is_malformed pkt = Inr False) \<and> (v = VERDICT_ACCEPT \<or> v = VERDICT_DROP)"
    if "udp_checks u1 g pkt st1 = Inr (v, s')" for u1 st1
    using that by (auto simp: udp_checks_def bindR_Inr_iff split: if_splits)
  show ?thesis
  proof (cases "a = ATTACK_NONE")
    case False
    then have "v = VERDICT_DROP" using assms a by (simp add: udp_protect_analyze_def Let_def)
    with False sig show ?thesis by auto
  next
    case None: True
    show ?thesis
    proof (cases "1 \<le> now - last_update st \<and> ucast (udp_pps_threshold cfg) < udp_pps st + 1")
      case True
      then have "v = VERDICT_DROP" using assms a None by (simp add: udp_protect_analyze_def Let_def)
      with True show ?thesis by simp
    next
      case False
      then obtain u1 st1 where "udp_checks u1 g pkt st1 = Inr (v, s')"
        using assms a None by (auto simp: udp_protect_analyze_def Let_def split: if_splits)
      from chk [OF this] False None sig show ?thesis by auto
    qed
  qed
qed

section \<open>A flood that never ends\<close>

lemma udp_flood_step:
  assumes "udp_protect_analyze cfg now pkt (Some u, g, st) = Inr (v, s')" "protocol pkt = PROTO_UDP"
    and over: "unat (udp_pps_threshold cfg) \<le> unat (udp_pps st)" "unat (udp_pps st) + 1 < 2 ^ 64"
    and late: "1 \<le> now - last_update st"
  shows "v = VERDICT_DROP \<and> (\<exists>u' g' st'. s' = (Some u', g', st') \<and> last_update st' = last_update st \<and>
    unat (udp_pps st) \<le> unat (udp_pps st') \<and> unat (udp_pps st') \<le> unat (udp_pps st) + 1)"
proof -
  obtain a where a: "amplification_of pkt = Inr a"
    using assms by (cases "amplification_of pkt") (auto simp: udp_protect_analyze_def Let_def)
  have inc: "unat (udp_pps st + 1) = unat (udp_pps st) + 1" using over(2) by (intro unat_inc) simp
  have "unat (ucast (udp_pps_threshold cfg) :: u64) = unat (udp_pps_threshold cfg)"
  proof -
    have "unat (udp_pps_threshold cfg) < 2 ^ LENGTH(32)" by (rule unsigned_less)
    then show ?thesis by (simp add: unsigned_ucast_eq take_bit_nat_eq_self)
  qed
  then have "ucast (udp_pps_threshold cfg) < udp_pps st + 1"
    using over(1) inc by (simp add: word_less_nat_alt)
  then show ?thesis using assms a inc late
    by (cases "a = ATTACK_NONE") (auto simp: udp_protect_analyze_def Let_def udp_count_drop_def)
qed

text \<open>C19: the packet counter is reset only when it has not passed the threshold. Once it has, every
  later UDP packet of that source, however slowly they come, is dropped: for any sequence of
  packets at least a second after the last update (and too short for the 64-bit counter to wrap),
  every verdict is \<open>VERDICT_DROP\<close>.\<close>

theorem udp_flood_never_ends:
  assumes "run_steps udp_step ps (Some u, g, st) = ret (vs, s')"
    and "\<forall>((c, now), pkt) \<in> set ps. c = cfg \<and> last_update st + 1 \<le> now \<and> protocol pkt = PROTO_UDP"
    and "unat (udp_pps_threshold cfg) \<le> unat (udp_pps st)"
    and "unat (udp_pps st) + length ps < 2 ^ 64"
  shows "vs = replicate (length ps) VERDICT_DROP"
  using assms
proof (induction ps arbitrary: u g st vs)
  case (Cons x ps)
  obtain now pkt where x: "x = ((cfg, now), pkt)" "last_update st + 1 \<le> now" "protocol pkt = PROTO_UDP"
    using Cons.prems(2) by (cases x) auto
  obtain v vs' s1 where s1: "vs = v # vs'" "udp_step (cfg, now) pkt (Some u, g, st) = ret (v, s1)"
    "run_steps udp_step ps s1 = ret (vs', s')"
    using Cons.prems(1) unfolding x(1) run_steps_Cons by blast
  have "udp_protect_analyze cfg now pkt (Some u, g, st) = Inr (v, s1)" using s1(2) by (simp add: udp_step_def)
  from udp_flood_step [OF this x(3)] Cons.prems(3,4) x(2)
  obtain u' g' st' where n: "v = VERDICT_DROP" "s1 = (Some u', g', st')" "last_update st' = last_update st"
    "unat (udp_pps st) \<le> unat (udp_pps st')" "unat (udp_pps st') \<le> unat (udp_pps st) + 1" by auto
  have "vs' = replicate (length ps) VERDICT_DROP"
    by (rule Cons.IH [OF s1(3) [unfolded n(2)]]) (use Cons.prems(2-4) n in auto)
  with s1(1) n(1) show ?case by simp
qed simp

section \<open>A concrete packet\<close>

text \<open>A 9-byte UDP payload from port 4000; the threshold of the example configuration is 2.\<close>

definition example_udp :: packet where
  "example_udp = zero_packet\<lparr>pkt_len := 60, protocol := PROTO_UDP, src_port := 4000, payload_len := 9\<rparr>"

definition udp_ctx0 :: udp_protect_ctx where
  "udp_ctx0 = \<lparr>total_udp_packets = 0, udp_dropped = 0, udp_last_update = 0\<rparr>"

lemma example_udp_analyze:
  "udp_protect_analyze example_cfg now example_udp (Some udp_ctx0, g, st) =
     (if 1 \<le> now - last_update st \<and> 2 < udp_pps st + 1
      then Inr (VERDICT_DROP, Some (udp_ctx0\<lparr>total_udp_packets := 1, udp_dropped := 1\<rparr>),
        alarm ATTACK_UDP_FLOOD g, count_attack ATTACK_UDP_FLOOD (st\<lparr>udp_pps := udp_pps st + 1\<rparr>))
      else Inr (VERDICT_ACCEPT, Some (udp_ctx0\<lparr>total_udp_packets := 1\<rparr>), g,
        if 1 \<le> now - last_update st then st\<lparr>udp_pps := 0, last_update := now\<rparr>
        else st\<lparr>udp_pps := udp_pps st + 1\<rparr>))"
  by (auto simp: udp_protect_analyze_def Let_def amplification_of_def is_dns_amplification_def
      is_ntp_amplification_def is_ssdp_reflection_def is_memcached_amplification_def udp_ports
      udp_checks_def packet_is_fragment_def packet_is_malformed_def hdr_lens example_udp_def
      zero_packet_def udp_ctx0_def udp_count_drop_def example_cfg_def)

theorem udp_accept_iff_witness:
  "\<exists>s'. udp_protect_analyze example_cfg 5 example_udp (Some udp_ctx0, zero_global_stats, zero_ip_stats) =
      Inr (VERDICT_ACCEPT, s') \<and> packet_is_malformed example_udp = Inr False"
  using udp_accept_iff [of example_cfg 5 example_udp udp_ctx0 zero_global_stats zero_ip_stats VERDICT_ACCEPT]
  by (simp add: example_udp_analyze) (simp add: example_udp_def zero_ip_stats_def)

theorem udp_flood_never_ends_witness:
  "\<exists>s'. run_steps udp_step [((example_cfg, 1000000), example_udp)]
      (Some udp_ctx0, zero_global_stats, zero_ip_stats\<lparr>udp_pps := 2\<rparr>) = ret ([VERDICT_DROP], s')"
proof -
  obtain v s' where r: "run_steps udp_step [((example_cfg, 1000000), example_udp)]
      (Some udp_ctx0, zero_global_stats, zero_ip_stats\<lparr>udp_pps := 2\<rparr>) = ret ([v], s')"
    by (simp add: udp_step_def example_udp_analyze zero_ip_stats_def)
  have "udp_pps_threshold example_cfg = 2" "protocol example_udp = PROTO_UDP"
    by (simp_all add: example_cfg_def example_udp_def)
  with udp_flood_never_ends [OF r, of example_cfg] have "v = VERDICT_DROP"
    by (simp add: zero_ip_stats_def)
  with r show ?thesis by blast
qed

end
