(* ===== verification/IcmpProtect.thy ===== *)
theory IcmpProtect
  imports Detector
begin

text \<open>
  \<open>src/detection/icmp_protect.c\<close>: ICMP rate, oversized packets, fragments, redirects, Smurf replies
  and a lower rate for other message types. \<open>g_icmp_ctx\<close> is \<open>None\<close> before \<open>icmp_protect_init\<close>.
\<close>

definition ICMP_ECHOREPLY :: u8 where "ICMP_ECHOREPLY = 0"
definition ICMP_REDIRECT :: u8 where "ICMP_REDIRECT = 5"
definition ICMP_ECHO :: u8 where "ICMP_ECHO = 8"

lemmas icmp_types = ICMP_ECHOREPLY_def ICMP_REDIRECT_def ICMP_ECHO_def

record icmp_protect_ctx =
  total_icmp_packets :: u64
  icmp_dropped :: u64
  icmp_last_update :: time_t

definition icmp_protect_init :: "bool \<Rightarrow> time_t \<Rightarrow> int \<times> icmp_protect_ctx option" where
  "icmp_protect_init calloc_ok now =
     (if \<not> calloc_ok then (-1, None)
      else (0, Some \<lparr>total_icmp_packets = 0, icmp_dropped = 0, icmp_last_update = now\<rparr>))"

definition icmp_protect_cleanup :: "icmp_protect_ctx option \<Rightarrow> icmp_protect_ctx option" where
  "icmp_protect_cleanup i = None"

type_synonym icmp_state = "icmp_protect_ctx option \<times> global_stats \<times> ip_stats"

definition icmp_count_drop :: "icmp_protect_ctx \<Rightarrow> icmp_protect_ctx option" where
  "icmp_count_drop i = Some (i\<lparr>icmp_dropped := icmp_dropped i + 1\<rparr>)"

text \<open>The checks on the message type, through the \<open>icmp\<close> pointer into the frame.\<close>

definition icmp_type_checks ::
    "config \<Rightarrow> icmp_protect_ctx \<Rightarrow> global_stats \<Rightarrow> packet \<Rightarrow> ip_stats \<Rightarrow> (verdict \<times> icmp_state) result" where
  "icmp_type_checks cfg i g pkt st =
     bindR (hdr8 pkt (transport_header pkt) 0) (\<lambda>type.
       if type = ICMP_REDIRECT then Inr (VERDICT_DROP, icmp_count_drop i, g, st)
       else if type = ICMP_ECHOREPLY \<and> family (dst_ip pkt) = AF_INET \<and>
           (bswap32 (s_addr (dst_ip pkt)) AND 0xFF = 0xFF \<or> bswap32 (s_addr (dst_ip pkt)) = 0xFFFFFFFF) then
         Inr (VERDICT_DROP, icmp_count_drop i, alarm ATTACK_SMURF g, count_attack ATTACK_SMURF st)
       else if type \<noteq> ICMP_ECHO \<and> type \<noteq> ICMP_ECHOREPLY \<and>
           ucast (icmp_pps_threshold cfg div 10) < icmp_pps st then
         Inr (VERDICT_RATE_LIMIT, icmp_count_drop i, g, st)
       else Inr (VERDICT_ACCEPT, Some i, g, st))"

definition icmp_checks ::
    "config \<Rightarrow> icmp_protect_ctx \<Rightarrow> global_stats \<Rightarrow> packet \<Rightarrow> ip_stats \<Rightarrow> (verdict \<times> icmp_state) result" where
  "icmp_checks cfg i g pkt st =
     (if 65535 < pkt_len pkt \<or> 65500 < payload_len pkt then
        Inr (VERDICT_DROP, icmp_count_drop i, alarm ATTACK_PING_OF_DEATH g,
             count_attack ATTACK_PING_OF_DEATH st)
      else bindR (packet_is_fragment pkt) (\<lambda>frag.
        if frag then
          Inr (VERDICT_DROP, icmp_count_drop i, alarm ATTACK_ICMP_FRAGMENTATION g,
               count_attack ATTACK_ICMP_FRAGMENTATION st)
        else icmp_type_checks cfg i g pkt st))"

definition icmp_protect_analyze ::
    "config \<Rightarrow> time_t \<Rightarrow> packet \<Rightarrow> icmp_state \<Rightarrow> (verdict \<times> icmp_state) result" where
  "icmp_protect_analyze cfg now pkt = (\<lambda>(ip, g, st).
     if protocol pkt \<noteq> PROTO_ICMP then Inr (VERDICT_ACCEPT, ip, g, st)
     else case ip of
       None \<Rightarrow> Inl NullDeref
     | Some i0 \<Rightarrow>
         (let i = i0\<lparr>total_icmp_packets := total_icmp_packets i0 + 1\<rparr>;
              st = st\<lparr>icmp_pps := icmp_pps st + 1\<rparr>
          in if 1 \<le> now - last_update st then
               if ucast (icmp_pps_threshold cfg) < icmp_pps st then
                 Inr (VERDICT_DROP, icmp_count_drop i, alarm ATTACK_ICMP_FLOOD g,
                      count_attack ATTACK_ICMP_FLOOD st)
               else icmp_checks cfg i g pkt (st\<lparr>icmp_pps := 0, last_update := now\<rparr>)
             else icmp_checks cfg i g pkt st))"

section \<open>The contract\<close>

definition icmp_step :: "config \<times> time_t \<Rightarrow> packet \<Rightarrow> icmp_state \<Rightarrow> (verdict \<times> icmp_state) run" where
  "icmp_step = (\<lambda>(cfg, now) pkt s. Some (icmp_protect_analyze cfg now pkt s))"

definition icmp_drops :: "icmp_state \<Rightarrow> u64" where
  "icmp_drops = (\<lambda>(i, g, st). case i of None \<Rightarrow> 0 | Some c \<Rightarrow> icmp_dropped c)"

definition icmp_glob :: "icmp_state \<Rightarrow> global_stats" where
  "icmp_glob = (\<lambda>(i, g, st). g)"

abbreviation icmp_counted :: "icmp_state \<Rightarrow> verdict \<Rightarrow> icmp_state \<Rightarrow> bool" where
  "icmp_counted s v s' \<equiv> counted_outcome (icmp_drops s) (icmp_glob s) v (icmp_drops s') (icmp_glob s')"

lemmas icmp_projs = icmp_drops_def icmp_glob_def icmp_count_drop_def

lemma icmp_checks_counted:
  assumes "icmp_checks cfg i g pkt st = Inr (v, s')" "icmp_dropped i = icmp_dropped i0"
  shows "icmp_counted (Some i0, g, st0) v s'"
proof (cases "65535 < pkt_len pkt \<or> 65500 < payload_len pkt")
  case True
  with assms show ?thesis by (cases s') (auto simp: icmp_checks_def icmp_projs)
next
  case False
  then obtain frag where f: "packet_is_fragment pkt = Inr frag"
    using assms by (cases "packet_is_fragment pkt") (auto simp: icmp_checks_def)
  show ?thesis
  proof (cases frag)
    case True
    with assms False f show ?thesis by (cases s') (auto simp: icmp_checks_def icmp_projs)
  next
    case no: False
    then have t: "icmp_type_checks cfg i g pkt st = Inr (v, s')" using assms False f by (simp add: icmp_checks_def)
    then show ?thesis using assms(2)
      by (cases s') (auto simp: icmp_type_checks_def bindR_Inr_iff icmp_projs split: if_splits)
  qed
qed

lemma icmp_analyze_counted:
  assumes "icmp_protect_analyze cfg now pkt s = Inr (v, s')"
  shows "icmp_counted s v s'"
proof -
  obtain ip g st where s: "s = (ip, g, st)" by (cases s)
  show ?thesis
  proof (cases "protocol pkt = PROTO_ICMP")
    case False
    with assms show ?thesis by (auto simp: icmp_protect_analyze_def s)
  next
    case True
    then obtain i where i: "ip = Some i" using assms s by (cases ip) (auto simp: icmp_protect_analyze_def)
    let ?i = "i\<lparr>total_icmp_packets := total_icmp_packets i + 1\<rparr>"
    consider (flood) "v = VERDICT_DROP" "fst s' = icmp_count_drop ?i" "fst (snd s') = alarm ATTACK_ICMP_FLOOD g"
      | (rest) st1 where "icmp_checks cfg ?i g pkt st1 = Inr (v, s')"
      using assms True i s by (auto simp: icmp_protect_analyze_def Let_def split: if_splits)
    then show ?thesis
    proof cases
      case flood
      then show ?thesis using i s by (cases s') (auto simp: icmp_projs)
    next
      case rest
      from icmp_checks_counted [OF rest, of i st] i s show ?thesis by simp
    qed
  qed
qed

interpretation icmp: counting_detector icmp_step icmp_drops icmp_glob
  by (rule counting_detectorI) (auto simp: icmp_step_def dest: icmp_analyze_counted)

section \<open>What is accepted\<close>

text \<open>C18: what \<open>icmp_protect_analyze\<close> lets through. An accepted ICMP packet is not oversized, not a
  fragment, not a redirect, not an echo reply to an IPv4 broadcast address, its source is within
  the threshold at the end of a counting period, and any message other than echo and echo reply is
  within a tenth of the threshold.\<close>

theorem icmp_accept_safe:
  assumes "icmp_protect_analyze cfg now pkt (Some i, g, st) = Inr (VERDICT_ACCEPT, s')"
    and "protocol pkt = PROTO_ICMP"
  shows "pkt_len pkt \<le> 65535 \<and> payload_len pkt \<le> 65500 \<and> packet_is_fragment pkt = Inr False \<and>
    \<not> (1 \<le> now - last_update st \<and> ucast (icmp_pps_threshold cfg) < icmp_pps st + 1) \<and>
    (\<exists>type. hdr8 pkt (transport_header pkt) 0 = Inr type \<and> type \<noteq> ICMP_REDIRECT \<and>
      \<not> (type = ICMP_ECHOREPLY \<and> family (dst_ip pkt) = AF_INET \<and> bswap32 (s_addr (dst_ip pkt)) AND 0xFF = 0xFF) \<and>
      (type = ICMP_ECHO \<or> type = ICMP_ECHOREPLY \<or>
       icmp_pps (snd (snd s')) \<le> ucast (icmp_pps_threshold cfg div 10)))"
proof -
  let ?i = "i\<lparr>total_icmp_packets := total_icmp_packets i + 1\<rparr>"
  have nf: "\<not> (1 \<le> now - last_update st \<and> ucast (icmp_pps_threshold cfg) < icmp_pps st + 1)"
    using assms by (auto simp: icmp_protect_analyze_def Let_def split: if_splits)
  obtain st1 where c: "icmp_checks cfg ?i g pkt st1 = Inr (VERDICT_ACCEPT, s')"
    using assms by (auto simp: icmp_protect_analyze_def Let_def split: if_splits)
  then have big: "\<not> (65535 < pkt_len pkt \<or> 65500 < payload_len pkt)" by (auto simp: icmp_checks_def)
  then obtain frag where f: "packet_is_fragment pkt = Inr frag"
    using c by (cases "packet_is_fragment pkt") (auto simp: icmp_checks_def)
  have fr: "\<not> frag" using c big f by (auto simp: icmp_checks_def)
  then have "icmp_type_checks cfg ?i g pkt st1 = Inr (VERDICT_ACCEPT, s')" using c big f by (simp add: icmp_checks_def)
  then show ?thesis using nf big f fr
    by (cases s') (auto simp: icmp_type_checks_def bindR_Inr_iff not_less split: if_splits)
qed

text \<open>\<open>icmp_protect_analyze\<close> reads the message type without a length check, and the parser's
  answer that the ICMP header is missing is ignored: a captured IPv4 frame that announces ICMP and
  ends with its IP header, not a fragment, is read past its end.\<close>

theorem icmp_missing_header_overread:
  assumes "length buf = 34" and "drop_bit 4 (buf ! 14) AND 0x0F = 4" and "buf ! 14 AND 0x0F = 5"
    and "be16 (buf ! 16) (buf ! 17) = 20" and "buf ! 23 = PROTO_ICMP" and "be16 (buf ! 20) (buf ! 21) = 0"
    and "now = last_update st"
  shows "\<exists>p. packet_parse zero_packet buf 34 ts = Inr (0, p) \<and>
    icmp_protect_analyze cfg now p (Some i, g, st) = Inl OutOfBounds"
proof -
  let ?pkt1 = "zero_packet\<lparr>data := buf, pkt_len := 34, timestamp := ts\<rparr>"
  have e: "parse_ethernet ?pkt1 = (0, ?pkt1\<lparr>eth_header := Some 0, eth_len := 14\<rparr>)"
    by (simp add: parse_ethernet_def hdr_lens)
  let ?p = "?pkt1\<lparr>eth_header := Some 0, eth_len := 14, ip_header := Some 14, is_ipv4 := True,
      is_ipv6 := False, protocol := PROTO_ICMP, ip_len := 20,
      src_ip := set_v4 zero_ip (bswap32 (be32 (buf ! 26) (buf ! 27) (buf ! 28) (buf ! 29))),
      dst_ip := set_v4 zero_ip (bswap32 (be32 (buf ! 30) (buf ! 31) (buf ! 32) (buf ! 33))),
      transport_header := Some 34, transport_len := 0\<rparr>"
  have ip: "parse_ip (?pkt1\<lparr>eth_header := Some 0, eth_len := 14\<rparr>) = Inr (0, ?p)"
    using assms by (simp add: parse_ip_def hdr_lens parse_ip4_def Let_def zero_packet_def)
  have tr: "parse_transport ?p = Inr ?p"
    by (simp add: parse_transport_def parse_icmp_def hdr_lens proto_defs)
  have "packet_parse zero_packet buf 34 ts = Inr (0, ?p)"
    by (simp add: packet_parse_def e ip tr)
  moreover have "packet_is_fragment ?p = Inr False"
    using assms by (simp add: packet_is_fragment_def hdr_defs)
  moreover have "hdr8 ?p (transport_header ?p) 0 = Inl OutOfBounds"
    using assms by (simp add: hdr_defs)
  ultimately show ?thesis using assms(7)
    by (intro exI [of _ ?p])
      (simp add: icmp_protect_analyze_def Let_def icmp_checks_def icmp_type_checks_def zero_packet_def)
qed

definition short_icmp_frame :: "u8 list" where
  "short_icmp_frame = replicate 14 0 @ [0x45, 0, 0, 20, 0, 0, 0, 0, 64, 1, 0, 0] @ replicate 8 0"

definition icmp_ctx0 :: icmp_protect_ctx where
  "icmp_ctx0 = \<lparr>total_icmp_packets = 0, icmp_dropped = 0, icmp_last_update = 0\<rparr>"

theorem icmp_missing_header_overread_witness:
  "\<exists>p. packet_parse zero_packet short_icmp_frame 34 0 = Inr (0, p) \<and>
    icmp_protect_analyze example_cfg 0 p (Some icmp_ctx0, zero_global_stats, zero_ip_stats) = Inl OutOfBounds"
  by (rule icmp_missing_header_overread)
    (simp_all add: short_icmp_frame_def nth_append be16_def zero_ip_stats_def proto_defs)

definition example_ping :: packet where
  "example_ping = zero_packet\<lparr>data := [8, 0], pkt_len := 60, protocol := PROTO_ICMP,
     transport_header := Some 0\<rparr>"

theorem icmp_accept_safe_witness:
  "\<exists>s'. icmp_protect_analyze example_cfg 0 example_ping (Some icmp_ctx0, zero_global_stats, zero_ip_stats) =
      Inr (VERDICT_ACCEPT, s') \<and> packet_is_fragment example_ping = Inr False"
proof -
  obtain s' where r: "icmp_protect_analyze example_cfg 0 example_ping (Some icmp_ctx0, zero_global_stats, zero_ip_stats) =
      Inr (VERDICT_ACCEPT, s')"
    by (simp add: icmp_protect_analyze_def Let_def example_ping_def zero_ip_stats_def icmp_checks_def
        packet_is_fragment_def zero_packet_def icmp_type_checks_def hdr_defs icmp_types)
  moreover have "protocol example_ping = PROTO_ICMP" by (simp add: example_ping_def)
  ultimately show ?thesis using icmp_accept_safe [OF r] by blast
qed

end
