(* ===== verification/HttpProtect.thy ===== *)
theory HttpProtect
  imports Detector "HOL-Library.Sublist"
begin

text \<open>
  \<open>src/detection/http_protect.c\<close>: request rate, user agents, header anomalies, slow POST and the
  reputation filter. \<open>g_http_ctx\<close> is \<open>None\<close> before \<open>http_protect_init\<close>. The searches of
  \<open>is_http_header_anomaly\<close> run over the captured payload as a C string.
\<close>

section \<open>Context\<close>

record http_protect_ctx =
  total_http_requests :: u64
  http_dropped :: u64
  hc_user_agent_blacklist :: "string list"
  http_last_update :: time_t

definition http_protect_init :: "config \<Rightarrow> bool \<Rightarrow> time_t \<Rightarrow> int \<times> http_protect_ctx option" where
  "http_protect_init cfg calloc_ok now =
     (if \<not> calloc_ok then (-1, None)
      else (0, Some \<lparr>total_http_requests = 0, http_dropped = 0,
              hc_user_agent_blacklist = (case cfg_user_agent_blacklist cfg of Some l \<Rightarrow> l | None \<Rightarrow> []),
              http_last_update = now\<rparr>))"

definition http_protect_cleanup :: "http_protect_ctx option \<Rightarrow> http_protect_ctx option" where
  "http_protect_cleanup h = None"

section \<open>Tests on a request\<close>

definition to_lower :: "char \<Rightarrow> char" where
  "to_lower c = (if 65 \<le> (of_char c :: nat) \<and> (of_char c :: nat) \<le> 90 then char_of (of_char c + 32 :: nat) else c)"

definition strcasestr :: "string \<Rightarrow> string \<Rightarrow> bool" where
  "strcasestr haystack needle = sublist (map to_lower needle) (map to_lower haystack)"

definition bot_patterns :: "string list" where
  "bot_patterns = [''bot'', ''crawler'', ''spider'', ''scraper'', ''python-requests'', ''curl'', ''wget'']"

definition is_user_agent_blacklisted :: "http_protect_ctx option \<Rightarrow> string option \<Rightarrow> bool" where
  "is_user_agent_blacklisted hp ua =
     (case (ua, hp) of
        (Some user_agent, Some hc) \<Rightarrow>
          if \<exists>p \<in> set (hc_user_agent_blacklist hc). sublist p user_agent then True
          else \<exists>p \<in> set bot_patterns. strcasestr user_agent p
      | _ \<Rightarrow> False)"

text \<open>The scan for NUL bytes: \<open>i < len && i < 2048\<close>.\<close>

fun has_nul :: "u8 list \<Rightarrow> nat \<Rightarrow> bool result" where
  "has_nul mem 0 = Inr False"
| "has_nul [] (Suc n) = Inl OutOfBounds"
| "has_nul (m # ms) (Suc n) = (if m = 0 then Inr True else has_nul ms n)"

definition is_http_header_anomaly :: "packet \<Rightarrow> bool result" where
  "is_http_header_anomaly pkt =
     (if \<not> is_http pkt then Inr False
      else case payload pkt of
        None \<Rightarrow> Inl NullDeref
      | Some off \<Rightarrow>
          (let mem = drop off (data pkt)
           in bindR (strstr_mem mem (lit ''Host:'')) (\<lambda>host.
              if host = None then Inr True
              else bindR (strstr_mem mem [0x0D, 0x0A, 0x0D, 0x0A]) (\<lambda>hend.
                if (case hend of Some header_len \<Rightarrow> 8192 < header_len | None \<Rightarrow> False) then Inr True
                else bindR (has_nul mem (min (unat (payload_len pkt)) 2048)) (\<lambda>nul.
                  if nul then Inr True
                  else bindR (strstr_mem mem (lit ''HTTP/1.0'')) (\<lambda>v10.
                    if v10 \<noteq> None then Inr False
                    else bindR (strstr_mem mem (lit ''HTTP/1.1'')) (\<lambda>v11.
                      if v11 \<noteq> None then Inr False
                      else bindR (strstr_mem mem (lit ''HTTP/2'')) (\<lambda>v2. Inr (v2 = None)))))))))"

definition is_slow_post_attack :: "packet \<Rightarrow> bool" where
  "is_slow_post_attack pkt =
     (if \<not> is_http pkt then False
      else if http_method pkt = Some ''POST'' then
        10000 < http_content_length pkt \<and> payload_len pkt < 500
      else False)"

section \<open>Analysis of one request\<close>

type_synonym http_state = "http_protect_ctx option \<times> global_stats \<times> ip_stats"

definition http_count_drop :: "http_protect_ctx \<Rightarrow> http_protect_ctx option" where
  "http_count_drop h = Some (h\<lparr>http_dropped := http_dropped h + 1\<rparr>)"

text \<open>The macros \<open>MAX(0, x)\<close> and \<open>MIN(100, x)\<close> at the unsigned type of the score.\<close>

definition max0 :: "u32 \<Rightarrow> u32" where
  "max0 x = (if 0 > x then 0 else x)"

definition min100 :: "u32 \<Rightarrow> u32" where
  "min100 x = (if 100 < x then 100 else x)"

definition flood_attack :: "packet \<Rightarrow> attack_type" where
  "flood_attack pkt =
     (if http_method pkt = Some ''GET'' then ATTACK_HTTP_GET_FLOOD
      else if http_method pkt = Some ''POST'' then ATTACK_HTTP_POST_FLOOD
      else ATTACK_NONE)"

text \<open>The last part: reputation filter and reward.\<close>

definition http_reputation ::
    "config \<Rightarrow> http_protect_ctx \<Rightarrow> global_stats \<Rightarrow> ip_stats \<Rightarrow> verdict \<times> http_state" where
  "http_reputation cfg h g st =
     (if reputation_score st < 20 then
        (if enable_captcha cfg then VERDICT_CHALLENGE else VERDICT_DROP, Some h, g, st)
      else if reputation_score st < 100 then
        (VERDICT_ACCEPT, Some h, g, st\<lparr>reputation_score := min100 (reputation_score st + 1)\<rparr>)
      else (VERDICT_ACCEPT, Some h, g, st))"

text \<open>What follows the rate check.\<close>

definition http_checks ::
    "config \<Rightarrow> http_protect_ctx \<Rightarrow> global_stats \<Rightarrow> packet \<Rightarrow> ip_stats \<Rightarrow> (verdict \<times> http_state) result" where
  "http_checks cfg h g pkt st0 =
     (if http_user_agent pkt \<noteq> None \<and> is_user_agent_blacklisted (Some h) (http_user_agent pkt) then
        Inr (VERDICT_DROP, http_count_drop h, g,
             (count_attack ATTACK_HTTP_GET_FLOOD st0)\<lparr>reputation_score := max0 (reputation_score st0 - 10)\<rparr>)
      else
        (let st = (if http_user_agent pkt = None
                   then st0\<lparr>reputation_score := max0 (reputation_score st0 - 5)\<rparr> else st0)
         in bindR (is_http_header_anomaly pkt) (\<lambda>anomaly.
            if anomaly then
              Inr (VERDICT_DROP, http_count_drop h, alarm ATTACK_HTTP_HEADER_ANOMALY g,
                   count_attack ATTACK_HTTP_HEADER_ANOMALY st)
            else if is_slow_post_attack pkt then
              Inr (VERDICT_DROP, http_count_drop h, alarm ATTACK_SLOW_POST g,
                   count_attack ATTACK_SLOW_POST st)
            else Inr (http_reputation cfg h g st))))"

definition http_protect_analyze ::
    "config \<Rightarrow> time_t \<Rightarrow> packet \<Rightarrow> http_state \<Rightarrow> (verdict \<times> http_state) result" where
  "http_protect_analyze cfg now pkt = (\<lambda>(hp, g, st0).
     if \<not> is_http pkt then Inr (VERDICT_ACCEPT, hp, g, st0)
     else if \<not> enable_http_protection cfg then Inr (VERDICT_ACCEPT, hp, g, st0)
     else case hp of
       None \<Rightarrow> Inl NullDeref
     | Some h0 \<Rightarrow>
         (let h = h0\<lparr>total_http_requests := total_http_requests h0 + 1\<rparr>;
              st = st0\<lparr>http_rps := http_rps st0 + 1\<rparr>
          in if 1 \<le> now - last_update st then
               if ucast (http_rps_threshold cfg) < http_rps st \<and> flood_attack pkt \<noteq> ATTACK_NONE then
                 Inr (if enable_js_challenge cfg then VERDICT_CHALLENGE else VERDICT_DROP,
                      http_count_drop h, alarm (flood_attack pkt) g, count_attack (flood_attack pkt) st)
               else http_checks cfg h g pkt (st\<lparr>http_rps := 0, last_update := now\<rparr>)
             else http_checks cfg h g pkt st))"

section \<open>The contract\<close>

definition http_step :: "config \<times> time_t \<Rightarrow> packet \<Rightarrow> http_state \<Rightarrow> (verdict \<times> http_state) run" where
  "http_step = (\<lambda>(cfg, now) pkt s. Some (http_protect_analyze cfg now pkt s))"

definition http_drops :: "http_state \<Rightarrow> u64" where
  "http_drops = (\<lambda>(h, g, st). case h of None \<Rightarrow> 0 | Some c \<Rightarrow> http_dropped c)"

definition http_glob :: "http_state \<Rightarrow> global_stats" where
  "http_glob = (\<lambda>(h, g, st). g)"

text \<open>A rejection is counted, or it is the reputation filter's, which counts nothing.\<close>

definition http_outcome :: "http_state \<Rightarrow> verdict \<Rightarrow> http_state \<Rightarrow> bool" where
  "http_outcome s v s' \<longleftrightarrow>
     counted_outcome (http_drops s) (http_glob s) v (http_drops s') (http_glob s') \<or>
     v \<noteq> VERDICT_ACCEPT \<and> http_drops s' = http_drops s \<and> http_glob s' = http_glob s"

lemmas http_projs = http_drops_def http_glob_def http_count_drop_def

lemma flood_attack_ne: "flood_attack pkt = a \<Longrightarrow> a \<noteq> ATTACK_NONE \<Longrightarrow> counted_outcome d g VERDICT_DROP (d + 1) (alarm a g)"
  by auto

lemma http_reputation_outcome:
  "http_reputation cfg h g st = (v, s') \<Longrightarrow> http_dropped h = http_dropped h0 \<Longrightarrow> http_outcome (Some h0, g, st0) v s'"
  by (auto simp: http_reputation_def http_outcome_def http_projs split: if_splits)

lemma http_checks_outcome:
  assumes "http_checks cfg h g pkt st = Inr (v, s')" "http_dropped h = http_dropped h0"
  shows "http_outcome (Some h0, g, st0) v s'"
proof (cases "http_user_agent pkt \<noteq> None \<and> is_user_agent_blacklisted (Some h) (http_user_agent pkt)")
  case True
  with assms show ?thesis by (auto simp: http_checks_def http_outcome_def http_projs)
next
  case False
  then obtain an where a: "is_http_header_anomaly pkt = Inr an"
    using assms by (cases "is_http_header_anomaly pkt") (auto simp: http_checks_def Let_def)
  show ?thesis
  proof (cases "an \<or> is_slow_post_attack pkt")
    case True
    with assms False a show ?thesis
      by (auto simp: http_checks_def http_outcome_def http_projs Let_def split: if_splits)
  next
    case no: False
    then obtain st1 where "http_reputation cfg h g st1 = (v, s')"
      using assms False a by (auto simp: http_checks_def Let_def)
    then show ?thesis using assms(2) by (rule http_reputation_outcome)
  qed
qed

lemma http_analyze_outcome:
  assumes "http_protect_analyze cfg now pkt s = Inr (v, s')"
  shows "http_outcome s v s'"
proof -
  obtain hp g st where s: "s = (hp, g, st)" by (cases s)
  show ?thesis
  proof (cases "is_http pkt \<and> enable_http_protection cfg")
    case False
    with assms show ?thesis by (auto simp: http_protect_analyze_def s http_outcome_def split: if_splits)
  next
    case True
    then obtain h where h: "hp = Some h" using assms s by (cases hp) (auto simp: http_protect_analyze_def)
    let ?h = "h\<lparr>total_http_requests := total_http_requests h + 1\<rparr>"
    consider (flood) "v \<noteq> VERDICT_ACCEPT" "fst s' = http_count_drop ?h"
        "fst (snd s') = alarm (flood_attack pkt) g" "flood_attack pkt \<noteq> ATTACK_NONE"
      | (rest) st1 where "http_checks cfg ?h g pkt st1 = Inr (v, s')"
      using assms True h s by (auto simp: http_protect_analyze_def Let_def split: if_splits)
    then show ?thesis
    proof cases
      case flood
      then show ?thesis using h s by (cases s') (auto simp: http_projs http_outcome_def)
    next
      case rest
      from http_checks_outcome [OF rest, of h st] h s show ?thesis by simp
    qed
  qed
qed

interpretation http: detector http_step http_drops http_glob
proof
  fix e pkt s s' assume "http_step e pkt s = ret (VERDICT_ACCEPT, s')"
  then have "http_outcome s VERDICT_ACCEPT s'" by (cases e) (auto simp: http_step_def intro: http_analyze_outcome)
  then show "http_glob s' = http_glob s \<and> http_drops s' = http_drops s"
    by (auto simp: http_outcome_def counted_outcome_def)
next
  fix e pkt s v s' assume "http_step e pkt s = ret (v, s')"
  then have "http_outcome s v s'" by (cases e) (auto simp: http_step_def intro: http_analyze_outcome)
  then show "http_glob s' = http_glob s \<and> (http_drops s' = http_drops s \<or> http_drops s' = http_drops s + 1) \<or>
      (\<exists>a. a \<noteq> ATTACK_NONE \<and> http_glob s' = alarm a (http_glob s)) \<and> http_drops s' = http_drops s + 1"
    by (auto simp: http_outcome_def counted_outcome_def split: if_splits)
qed

section \<open>The reputation score\<close>

text \<open>The score is meant to fall to 0 and no further (\<open>MAX(0, score - 10)\<close>), but it is unsigned:
  a blacklisted user agent with a score below 10 gets a score above four billion, and the next
  request of that source, with a user agent that is not on a list, passes the filter for low
  reputation.\<close>

theorem http_score_wraps:
  assumes "is_http pkt" and "enable_http_protection cfg" and "now = last_update st"
    and "is_user_agent_blacklisted (Some h) (http_user_agent pkt)" and "reputation_score st < 10"
  shows "\<exists>h' st'. http_protect_analyze cfg now pkt (Some h, g, st) = Inr (VERDICT_DROP, Some h', g, st') \<and>
    unat (reputation_score st') = 2 ^ 32 + unat (reputation_score st) - 10 \<and>
    (\<forall>pkt2 g2. is_http pkt2 \<and> http_user_agent pkt2 \<noteq> None \<and>
       \<not> is_user_agent_blacklisted (Some h) (http_user_agent pkt2) \<and>
       is_http_header_anomaly pkt2 = Inr False \<and> \<not> is_slow_post_attack pkt2 \<longrightarrow>
       (\<exists>s2. http_protect_analyze cfg now pkt2 (Some h', g2, st') = Inr (VERDICT_ACCEPT, s2)))"
proof -
  let ?h' = "h\<lparr>total_http_requests := total_http_requests h + 1, http_dropped := http_dropped h + 1\<rparr>"
  let ?st' = "(count_attack ATTACK_HTTP_GET_FLOOD (st\<lparr>http_rps := http_rps st + 1\<rparr>))
      \<lparr>reputation_score := reputation_score st - 10\<rparr>"
  have ua: "http_user_agent pkt \<noteq> None" using assms(4) by (auto simp: is_user_agent_blacklisted_def split: option.splits)
  have bl: "is_user_agent_blacklisted (Some (h\<lparr>total_http_requests := n\<rparr>)) a = is_user_agent_blacklisted (Some h) a"
    "is_user_agent_blacklisted (Some (h\<lparr>http_dropped := d, total_http_requests := n\<rparr>)) a = is_user_agent_blacklisted (Some h) a"
    for n d a by (auto simp: is_user_agent_blacklisted_def split: option.splits)
  have w: "unat (reputation_score st - 10) = 2 ^ 32 + unat (reputation_score st) - 10"
    using assms(5) by (simp add: unat_sub_if' word_less_nat_alt)
  then have hi: "\<not> reputation_score st - 10 < 20" "\<not> reputation_score st - 10 < 100"
    by (simp_all add: word_less_nat_alt)
  have "http_protect_analyze cfg now pkt (Some h, g, st) = Inr (VERDICT_DROP, Some ?h', g, ?st')"
    using assms ua
    by (simp add: http_protect_analyze_def Let_def http_checks_def bl max0_def http_count_drop_def count_attack_def)
  moreover have "\<exists>s2. http_protect_analyze cfg now pkt2 (Some ?h', g2, ?st') = Inr (VERDICT_ACCEPT, s2)"
    if "is_http pkt2 \<and> http_user_agent pkt2 \<noteq> None \<and>
       \<not> is_user_agent_blacklisted (Some h) (http_user_agent pkt2) \<and>
       is_http_header_anomaly pkt2 = Inr False \<and> \<not> is_slow_post_attack pkt2" for pkt2 g2
    using that assms hi
    by (auto simp: http_protect_analyze_def Let_def http_checks_def bl http_reputation_def)
  ultimately show ?thesis using w by (intro exI [of _ ?h'] exI [of _ ?st'] conjI allI impI) simp_all
qed

text \<open>The drops of the reputation filter are not counted: a request rejected only for a score
  below 20 leaves \<open>dropped_requests\<close> and all global counters as they were.\<close>

theorem http_low_reputation_not_counted:
  assumes "is_http pkt" and "enable_http_protection cfg" and "now = last_update st"
    and "http_user_agent pkt \<noteq> None" and "\<not> is_user_agent_blacklisted (Some h) (http_user_agent pkt)"
    and "is_http_header_anomaly pkt = Inr False" and "\<not> is_slow_post_attack pkt" and "reputation_score st < 20"
  shows "\<exists>h' st'. http_protect_analyze cfg now pkt (Some h, g, st) =
      Inr (if enable_captcha cfg then VERDICT_CHALLENGE else VERDICT_DROP, Some h', g, st') \<and>
    http_dropped h' = http_dropped h \<and> reputation_score st' = reputation_score st"
proof -
  have bl: "is_user_agent_blacklisted (Some (h\<lparr>total_http_requests := n\<rparr>)) a = is_user_agent_blacklisted (Some h) a"
    for n a by (auto simp: is_user_agent_blacklisted_def split: option.splits)
  obtain ua where "http_user_agent pkt = Some ua" using assms(4) by blast
  then show ?thesis using assms
    by (simp add: http_protect_analyze_def Let_def http_checks_def bl http_reputation_def)
qed

section \<open>A concrete request\<close>

definition example_request :: "string option \<Rightarrow> packet" where
  "example_request ua = zero_packet\<lparr>data := lit ''GET / HTTP/1.1'' @ [0x0D, 0x0A] @ lit ''Host: a'' @ [0x0D, 0x0A, 0x0D, 0x0A, 0],
     payload := Some 0, payload_len := 27, is_http := True, http_method := Some ''GET'', http_user_agent := ua\<rparr>"

definition http_ctx0 :: http_protect_ctx where
  "http_ctx0 = \<lparr>total_http_requests = 0, http_dropped = 0, hc_user_agent_blacklist = [], http_last_update = 0\<rparr>"

lemma example_request_fine:
  "is_http_header_anomaly (example_request (Some ''Mozilla/5.0'')) = Inr False"
  "\<not> is_slow_post_attack (example_request (Some ''Mozilla/5.0''))"
  "is_user_agent_blacklisted (Some http_ctx0) (Some ''curl/8.0'')"
  "\<not> is_user_agent_blacklisted (Some http_ctx0) (Some ''Mozilla/5.0'')"
  by code_simp+

lemma example_request_simps [simp]:
  "is_http (example_request ua)" "http_user_agent (example_request ua) = ua"
  by (simp_all add: example_request_def)

theorem http_score_wraps_witness:
  "\<exists>h' st' s2. http_protect_analyze example_cfg 0 (example_request (Some ''curl/8.0''))
      (Some http_ctx0, zero_global_stats, zero_ip_stats) = Inr (VERDICT_DROP, Some h', zero_global_stats, st') \<and>
    unat (reputation_score st') = 4294967286 \<and>
    http_protect_analyze example_cfg 0 (example_request (Some ''Mozilla/5.0''))
      (Some h', zero_global_stats, st') = Inr (VERDICT_ACCEPT, s2)"
proof -
  have "enable_http_protection example_cfg" "last_update zero_ip_stats = 0" "reputation_score zero_ip_stats = 0"
    by (simp_all add: example_cfg_def zero_ip_stats_def)
  with http_score_wraps [of "example_request (Some ''curl/8.0'')" example_cfg 0 zero_ip_stats http_ctx0 zero_global_stats]
    example_request_fine
  obtain h' st' where r: "http_protect_analyze example_cfg 0 (example_request (Some ''curl/8.0''))
      (Some http_ctx0, zero_global_stats, zero_ip_stats) = Inr (VERDICT_DROP, Some h', zero_global_stats, st')"
    "unat (reputation_score st') = 2 ^ 32 + unat (0 :: u32) - 10"
    "\<forall>pkt2 g2. is_http pkt2 \<and> http_user_agent pkt2 \<noteq> None \<and>
       \<not> is_user_agent_blacklisted (Some http_ctx0) (http_user_agent pkt2) \<and>
       is_http_header_anomaly pkt2 = Inr False \<and> \<not> is_slow_post_attack pkt2 \<longrightarrow>
       (\<exists>s2. http_protect_analyze example_cfg 0 pkt2 (Some h', g2, st') = Inr (VERDICT_ACCEPT, s2))"
    by auto
  obtain s2 where "http_protect_analyze example_cfg 0 (example_request (Some ''Mozilla/5.0''))
      (Some h', zero_global_stats, st') = Inr (VERDICT_ACCEPT, s2)"
    using r(3) [rule_format, of "example_request (Some ''Mozilla/5.0'')" zero_global_stats] example_request_fine
    by auto
  with r(1,2) show ?thesis by (intro exI [of _ h'] exI [of _ st'] exI [of _ s2]) simp
qed

theorem http_low_reputation_not_counted_witness:
  "\<exists>h' st'. http_protect_analyze example_cfg 0 (example_request (Some ''Mozilla/5.0''))
      (Some http_ctx0, zero_global_stats, zero_ip_stats) = Inr (VERDICT_DROP, Some h', zero_global_stats, st') \<and>
    http_dropped h' = 0"
proof -
  have c: "enable_http_protection example_cfg" "last_update zero_ip_stats = 0" "reputation_score zero_ip_stats = 0"
    "\<not> enable_captcha example_cfg"
    by (simp_all add: example_cfg_def zero_ip_stats_def)
  with http_low_reputation_not_counted [of "example_request (Some ''Mozilla/5.0'')" example_cfg 0 zero_ip_stats http_ctx0 zero_global_stats]
    example_request_fine
  show ?thesis by (fastforce simp: http_ctx0_def)
qed

section \<open>What is accepted\<close>

text \<open>The score a request is judged by: five points less without a user agent, at 32 bits.\<close>

definition judged_score :: "packet \<Rightarrow> ip_stats \<Rightarrow> u32" where
  "judged_score pkt st = (if http_user_agent pkt = None then reputation_score st - 5 else reputation_score st)"

lemma max0_id [simp]: "max0 x = x"
  by (simp add: max0_def)

lemma blacklisted_lists:
  "hc_user_agent_blacklist h' = hc_user_agent_blacklist h \<Longrightarrow>
    is_user_agent_blacklisted (Some h') ua = is_user_agent_blacklisted (Some h) ua"
  by (simp add: is_user_agent_blacklisted_def split: option.split)

lemma http_reputation_accept: "fst (http_reputation cfg h g st) = VERDICT_ACCEPT \<longleftrightarrow> \<not> reputation_score st < 20"
  by (simp add: http_reputation_def)

lemma http_checks_accept:
  assumes "http_checks cfg h g pkt st = Inr (v, s')"
  shows "v = VERDICT_ACCEPT \<longleftrightarrow> \<not> is_user_agent_blacklisted (Some h) (http_user_agent pkt) \<and>
    is_http_header_anomaly pkt = Inr False \<and> \<not> is_slow_post_attack pkt \<and> \<not> judged_score pkt st < 20"
proof (cases "is_user_agent_blacklisted (Some h) (http_user_agent pkt)")
  case True
  then have "http_user_agent pkt \<noteq> None" by (auto simp: is_user_agent_blacklisted_def split: option.splits)
  then show ?thesis using assms True by (auto simp: http_checks_def)
next
  case False
  let ?st = "if http_user_agent pkt = None then st\<lparr>reputation_score := reputation_score st - 5\<rparr> else st"
  have sc: "reputation_score ?st = judged_score pkt st" by (simp add: judged_score_def)
  obtain an where an: "is_http_header_anomaly pkt = Inr an"
    using assms False by (cases "is_http_header_anomaly pkt") (auto simp: http_checks_def Let_def)
  show ?thesis
  proof (cases "an \<or> is_slow_post_attack pkt")
    case True
    then have "v = VERDICT_DROP" using assms False an by (auto simp: http_checks_def Let_def split: if_splits)
    then show ?thesis using True an by auto
  next
    case no: False
    then have "http_reputation cfg h g ?st = (v, s')"
      using assms False an by (cases "http_user_agent pkt") (simp_all add: http_checks_def Let_def)
    then have "v = fst (http_reputation cfg h g ?st)" by simp
    then show ?thesis using no False an by (simp only: http_reputation_accept sc) simp
  qed
qed

text \<open>C22: what \<open>http_protect_analyze\<close> lets through. With the protection enabled a request is accepted
  exactly when it is not a GET or POST over the rate at the end of a counting period, its user agent
  is on no list, its headers are in order, it is not a slow POST, and the score of its source (less
  five without a user agent, modulo \<open>2^32\<close>) is at least 20.\<close>

theorem http_accept_iff:
  assumes "http_protect_analyze cfg now pkt (Some h, g, st) = Inr (v, s')" and "is_http pkt" and "enable_http_protection cfg"
  shows "v = VERDICT_ACCEPT \<longleftrightarrow>
    \<not> (1 \<le> now - last_update st \<and> ucast (http_rps_threshold cfg) < http_rps st + 1 \<and> flood_attack pkt \<noteq> ATTACK_NONE) \<and>
    \<not> is_user_agent_blacklisted (Some h) (http_user_agent pkt) \<and> is_http_header_anomaly pkt = Inr False \<and>
    \<not> is_slow_post_attack pkt \<and> 20 \<le> judged_score pkt st"
proof (cases "1 \<le> now - last_update st \<and> ucast (http_rps_threshold cfg) < http_rps st + 1 \<and> flood_attack pkt \<noteq> ATTACK_NONE")
  case True
  then have "v \<noteq> VERDICT_ACCEPT" using assms by (auto simp: http_protect_analyze_def Let_def split: if_splits)
  then show ?thesis using True by simp
next
  case False
  let ?h = "h\<lparr>total_http_requests := total_http_requests h + 1\<rparr>"
  obtain st1 where c: "http_checks cfg ?h g pkt st1 = Inr (v, s')" and st1: "reputation_score st1 = reputation_score st"
  proof (cases "1 \<le> now - last_update st")
    case True
    then show ?thesis using assms False that [of "st\<lparr>http_rps := 0, last_update := now\<rparr>"]
      by (auto simp: http_protect_analyze_def Let_def)
  next
    case early: False
    then show ?thesis using assms that [of "st\<lparr>http_rps := http_rps st + 1\<rparr>"]
      by (auto simp: http_protect_analyze_def Let_def)
  qed
  have "judged_score pkt st1 = judged_score pkt st" using st1 by (simp add: judged_score_def)
  then show ?thesis using http_checks_accept [OF c] False blacklisted_lists [of ?h h] by (simp add: not_less)
qed

theorem http_accept_iff_witness:
  "\<exists>s'. http_protect_analyze example_cfg 0 (example_request (Some ''Mozilla/5.0''))
      (Some http_ctx0, zero_global_stats, zero_ip_stats\<lparr>reputation_score := 50\<rparr>) = Inr (VERDICT_ACCEPT, s')"
proof -
  let ?st = "zero_ip_stats\<lparr>reputation_score := 50\<rparr>"
  have c: "enable_http_protection example_cfg" "last_update ?st = 0" by (simp_all add: example_cfg_def zero_ip_stats_def)
  obtain v s' where r: "http_protect_analyze example_cfg 0 (example_request (Some ''Mozilla/5.0''))
      (Some http_ctx0, zero_global_stats, ?st) = Inr (v, s')"
    using c example_request_fine blacklisted_lists [of "http_ctx0\<lparr>total_http_requests := total_http_requests http_ctx0 + 1\<rparr>" http_ctx0]
    by (simp add: http_protect_analyze_def Let_def http_checks_def) (metis surj_pair)
  have "20 \<le> judged_score (example_request (Some ''Mozilla/5.0'')) ?st" by (simp add: judged_score_def)
  then have "v = VERDICT_ACCEPT" using http_accept_iff [OF r] c example_request_fine by simp
  then show ?thesis using r by blast
qed

section \<open>Which rejections the module counts\<close>

text \<open>A request that passes every other test and is rejected for the score of its source only.\<close>

definition low_reputation_only :: "config \<times> time_t \<Rightarrow> packet \<Rightarrow> http_state \<Rightarrow> bool" where
  "low_reputation_only = (\<lambda>(cfg, now) pkt (hp, g, st). is_http pkt \<and> enable_http_protection cfg \<and>
     \<not> (1 \<le> now - last_update st \<and> ucast (http_rps_threshold cfg) < http_rps st + 1 \<and> flood_attack pkt \<noteq> ATTACK_NONE) \<and>
     \<not> is_user_agent_blacklisted hp (http_user_agent pkt) \<and> is_http_header_anomaly pkt = Inr False \<and>
     \<not> is_slow_post_attack pkt \<and> judged_score pkt st < 20)"

text \<open>How many requests of a run are of that kind, each in the state the run has then.\<close>

fun low_reputation_count :: "((config \<times> time_t) \<times> packet) list \<Rightarrow> http_state \<Rightarrow> nat" where
  "low_reputation_count [] s = 0"
| "low_reputation_count ((e, pkt) # ps) s = of_bool (low_reputation_only e pkt s) +
     (case http_step e pkt s of Some (Inr (v, s1)) \<Rightarrow> low_reputation_count ps s1 | _ \<Rightarrow> 0)"

lemma http_checks_counts:
  assumes "http_checks cfg h g pkt st = Inr (v, s')"
  shows "http_drops s' = http_dropped h + of_bool (v \<noteq> VERDICT_ACCEPT \<and>
    \<not> (\<not> is_user_agent_blacklisted (Some h) (http_user_agent pkt) \<and> is_http_header_anomaly pkt = Inr False \<and>
       \<not> is_slow_post_attack pkt \<and> judged_score pkt st < 20))"
proof (cases "is_user_agent_blacklisted (Some h) (http_user_agent pkt)")
  case True
  then have "http_user_agent pkt \<noteq> None" by (auto simp: is_user_agent_blacklisted_def split: option.splits)
  then show ?thesis using assms True by (auto simp: http_checks_def http_projs)
next
  case False
  obtain an where an: "is_http_header_anomaly pkt = Inr an"
    using assms False by (cases "is_http_header_anomaly pkt") (auto simp: http_checks_def Let_def)
  show ?thesis
  proof (cases "an \<or> is_slow_post_attack pkt")
    case True
    with assms False an show ?thesis by (auto simp: http_checks_def Let_def http_projs split: if_splits)
  next
    case no: False
    let ?st = "if http_user_agent pkt = None then st\<lparr>reputation_score := reputation_score st - 5\<rparr> else st"
    have "http_reputation cfg h g ?st = (v, s')"
      using assms False an no by (cases "http_user_agent pkt") (simp_all add: http_checks_def Let_def)
    then have "http_drops s' = http_dropped h"
      by (auto simp: http_reputation_def http_projs split: if_splits)
    moreover have "v = VERDICT_ACCEPT \<or> judged_score pkt st < 20"
      using http_checks_accept [OF assms] False an no by auto
    ultimately show ?thesis using False an no by auto
  qed
qed

lemma http_analyze_counts:
  assumes "http_protect_analyze cfg now pkt s = Inr (v, s')"
  shows "http_drops s' = http_drops s + of_bool (v \<noteq> VERDICT_ACCEPT \<and> \<not> low_reputation_only (cfg, now) pkt s) \<and>
    (low_reputation_only (cfg, now) pkt s \<longrightarrow> v \<noteq> VERDICT_ACCEPT)"
proof -
  obtain hp g st where s: "s = (hp, g, st)" by (cases s)
  show ?thesis
  proof (cases "is_http pkt \<and> enable_http_protection cfg")
    case False
    with assms show ?thesis by (auto simp: http_protect_analyze_def s low_reputation_only_def http_projs split: if_splits)
  next
    case True
    then obtain h where h: "hp = Some h" using assms s by (cases hp) (auto simp: http_protect_analyze_def)
    let ?h = "h\<lparr>total_http_requests := total_http_requests h + 1\<rparr>"
    have bl: "is_user_agent_blacklisted (Some ?h) a = is_user_agent_blacklisted (Some h) a" for a
      by (rule blacklisted_lists) simp
    show ?thesis
    proof (cases "1 \<le> now - last_update st \<and> ucast (http_rps_threshold cfg) < http_rps st + 1 \<and> flood_attack pkt \<noteq> ATTACK_NONE")
      case flood: True
      with assms True h s show ?thesis
        by (auto simp: http_protect_analyze_def Let_def low_reputation_only_def http_projs split: if_splits)
    next
      case no: False
      obtain st1 where c: "http_checks cfg ?h g pkt st1 = Inr (v, s')" and st1: "reputation_score st1 = reputation_score st"
      proof (cases "1 \<le> now - last_update st")
        case late: True
        then show ?thesis using assms True no h s that [of "st\<lparr>http_rps := 0, last_update := now\<rparr>"]
          by (auto simp: http_protect_analyze_def Let_def)
      next
        case early: False
        then show ?thesis using assms True h s that [of "st\<lparr>http_rps := http_rps st + 1\<rparr>"]
          by (auto simp: http_protect_analyze_def Let_def)
      qed
      have js: "judged_score pkt st1 = judged_score pkt st" using st1 by (simp add: judged_score_def)
      have low: "low_reputation_only (cfg, now) pkt s \<longleftrightarrow> \<not> is_user_agent_blacklisted (Some ?h) (http_user_agent pkt) \<and>
          is_http_header_anomaly pkt = Inr False \<and> \<not> is_slow_post_attack pkt \<and> judged_score pkt st1 < 20"
        using True no unfolding low_reputation_only_def s h js bl by simp
      have "http_drops s = http_dropped ?h" using s h by (simp add: http_drops_def)
      with http_checks_counts [OF c] http_checks_accept [OF c] low show ?thesis by simp
    qed
  qed
qed

lemma http_run_alarms:
  "run_steps http_step ps s = ret (vs, s') \<Longrightarrow>
    \<exists>as. http_glob s' = fold alarm as (http_glob s) \<and> ATTACK_NONE \<notin> set as \<and>
      length as + low_reputation_count ps s \<le> length (filter (\<lambda>v. v \<noteq> VERDICT_ACCEPT) vs)"
proof (induction ps arbitrary: s vs)
  case Nil
  then show ?case by (intro exI [of _ "[]"]) auto
next
  case (Cons x ps)
  obtain v vs' s1 where s1: "vs = v # vs'" "http_step (fst x) (snd x) s = ret (v, s1)" "run_steps http_step ps s1 = ret (vs', s')"
    using Cons.prems by (rule run_steps_ConsE)
  obtain as where as: "http_glob s' = fold alarm as (http_glob s1)" "ATTACK_NONE \<notin> set as"
    "length as + low_reputation_count ps s1 \<le> length (filter (\<lambda>v. v \<noteq> VERDICT_ACCEPT) vs')"
    using Cons.IH [OF s1(3)] by blast
  have c: "http_drops s1 = http_drops s + of_bool (v \<noteq> VERDICT_ACCEPT \<and> \<not> low_reputation_only (fst x) (snd x) s)"
    "low_reputation_only (fst x) (snd x) s \<longrightarrow> v \<noteq> VERDICT_ACCEPT"
    using s1(2) http_analyze_counts [of "fst (fst x)" "snd (fst x)" "snd x" s v s1]
    by (simp_all add: http_step_def split: prod.splits)
  have l: "low_reputation_count (x # ps) s = of_bool (low_reputation_only (fst x) (snd x) s) + low_reputation_count ps s1"
    using s1(2) by (cases x) simp
  consider (quiet) "http_glob s1 = http_glob s"
    | (alarm) a where "a \<noteq> ATTACK_NONE" "http_glob s1 = alarm a (http_glob s)" "http_drops s1 = http_drops s + 1"
    using http.alarm_drops [OF s1(2)] by blast
  then show ?case
  proof cases
    case quiet
    with as l c(2) s1(1) show ?thesis by (intro exI [of _ as]) (auto simp: of_bool_def split: if_splits)
  next
    case (alarm a)
    then have "v \<noteq> VERDICT_ACCEPT" "\<not> low_reputation_only (fst x) (snd x) s" using c(1) by (auto split: if_splits)
    with alarm as l s1(1) show ?thesis by (intro exI [of _ "a # as"]) simp
  qed
qed

lemma http_run_counts:
  "run_steps http_step ps s = ret (vs, s') \<Longrightarrow>
    http_drops s' + of_nat (low_reputation_count ps s) = http_drops s + of_nat (length (filter (\<lambda>v. v \<noteq> VERDICT_ACCEPT) vs)) \<and>
    low_reputation_count ps s \<le> length (filter (\<lambda>v. v \<noteq> VERDICT_ACCEPT) vs)"
proof (induction ps arbitrary: s vs)
  case (Cons x ps)
  obtain v vs' s1 where s1: "vs = v # vs'" "http_step (fst x) (snd x) s = ret (v, s1)" "run_steps http_step ps s1 = ret (vs', s')"
    using Cons.prems by (rule run_steps_ConsE)
  have c: "http_drops s1 = http_drops s + of_bool (v \<noteq> VERDICT_ACCEPT \<and> \<not> low_reputation_only (fst x) (snd x) s)"
    "low_reputation_only (fst x) (snd x) s \<longrightarrow> v \<noteq> VERDICT_ACCEPT"
    using s1(2) http_analyze_counts [of "fst (fst x)" "snd (fst x)" "snd x" s v s1]
    by (simp_all add: http_step_def split: prod.splits)
  have l: "low_reputation_count (x # ps) s = of_bool (low_reputation_only (fst x) (snd x) s) + low_reputation_count ps s1"
    using s1(2) by (cases x) simp
  show ?case
  proof (cases "low_reputation_only (fst x) (snd x) s")
    case True
    with c have "v \<noteq> VERDICT_ACCEPT" "http_drops s1 = http_drops s" by simp_all
    with Cons.IH [OF s1(3)] l s1(1) True show ?thesis by simp
  next
    case False
    with c l Cons.IH [OF s1(3)] s1(1) show ?thesis by (cases "v = VERDICT_ACCEPT") (simp_all add: ac_simps)
  qed
qed simp

end
