(* ===== verification/BucketTable.thy ===== *)
theory BucketTable
  imports DDoS_Prelude "HOL-Library.Multiset"
begin

text \<open>
  Chained bucket tables: four parts of the program (IP sets, the rate limiter, the analyzer's
  statistics and the connection table) store entries in chains selected by a hash of the key,
  and find them with a three-way comparison. The locale states what a comparison and a hash
  owe each other; each part interprets it on its own functions.
\<close>

section \<open>Placement and size\<close>

definition placed :: "('k \<Rightarrow> nat) \<Rightarrow> ('e \<Rightarrow> 'k) \<Rightarrow> (nat \<Rightarrow> 'e list) \<Rightarrow> bool" where
  "placed hash key b \<longleftrightarrow> (\<forall>i. \<forall>e \<in> set (b i). hash (key e) = i)"

definition table_size :: "nat \<Rightarrow> (nat \<Rightarrow> 'e list) \<Rightarrow> nat" where
  "table_size n b = (\<Sum>i<n. length (b i))"

definition table_entries :: "nat \<Rightarrow> (nat \<Rightarrow> 'e list) \<Rightarrow> 'e list" where
  "table_entries n b = concat (map b [0..<n])"

lemma placedD: "placed hash key b \<Longrightarrow> e \<in> set (b i) \<Longrightarrow> hash (key e) = i"
  by (simp add: placed_def)

lemma placed_empty [simp]: "placed hash key (\<lambda>_. [])"
  by (simp add: placed_def)

lemma placed_upd:
  "placed hash key b \<Longrightarrow> (\<And>e. e \<in> set es \<Longrightarrow> hash (key e) = i) \<Longrightarrow>
    placed hash key (b(i := es))"
  by (simp add: placed_def)

lemma placed_map:
  "placed hash key b \<Longrightarrow> (\<And>i. set (f i) \<subseteq> set (b i)) \<Longrightarrow> placed hash key f"
  by (fastforce simp: placed_def)

lemma table_size_upd:
  assumes "i < n"
  shows "table_size n (b(i := es)) + length (b i) = table_size n b + length es"
proof -
  have same: "(\<Sum>j\<in>{..<n} - {i}. length ((b(i := es)) j)) = (\<Sum>j\<in>{..<n} - {i}. length (b j))"
    by (rule sum.cong) auto
  have s: "(\<Sum>j<n. length (c j)) = length (c i) + (\<Sum>j\<in>{..<n} - {i}. length (c j))"
    for c :: "nat \<Rightarrow> 'a list"
    using assms by (intro sum.remove) auto
  have "table_size n (b(i := es)) = length es + (\<Sum>j\<in>{..<n} - {i}. length (b j))"
    by (simp only: table_size_def s [of "b(i := es)"] same fun_upd_same)
  moreover have "table_size n b = length (b i) + (\<Sum>j\<in>{..<n} - {i}. length (b j))"
    by (simp only: table_size_def s [of b])
  ultimately show ?thesis by simp
qed

lemma table_size_ge: "i < n \<Longrightarrow> length (b i) \<le> table_size n b"
  using table_size_upd [of i n b "[]"] by simp

lemma length_table_entries: "length (table_entries n b) = table_size n b"
proof -
  have "sum_list (map (\<lambda>i. length (b i)) [0..<n]) = (\<Sum>i<n. length (b i))"
    by (simp add: sum_list_sum_nth atLeast0LessThan)
  then show ?thesis by (simp add: table_entries_def table_size_def length_concat comp_def)
qed

lemma set_table_entries: "set (table_entries n b) = (\<Union>i<n. set (b i))"
  by (simp add: table_entries_def atLeast0LessThan)

lemma table_size_empty [simp]: "table_size n (\<lambda>_. []) = 0"
  by (simp add: table_size_def)

text \<open>The entries as a multiset: what an update of one chain adds and takes away.\<close>

lemma mset_table: "mset (table_entries n b) = (\<Sum>i<n. mset (b i))"
  by (induction n) (simp_all add: table_entries_def)

lemma mset_table_upd:
  assumes "i < n"
  shows "mset (table_entries n (b(i := es))) + mset (b i) = mset (table_entries n b) + mset es"
proof -
  have same: "(\<Sum>j\<in>{..<n} - {i}. mset ((b(i := es)) j)) = (\<Sum>j\<in>{..<n} - {i}. mset (b j))"
    by (rule sum.cong) auto
  have s: "(\<Sum>j<n. mset (c j)) = mset (c i) + (\<Sum>j\<in>{..<n} - {i}. mset (c j))"
    for c :: "nat \<Rightarrow> 'a list"
    using assms by (intro sum.remove) auto
  show ?thesis by (simp add: mset_table s [of b] s [of "b(i := es)"] same del: fun_upd_apply) simp
qed

section \<open>Removing the first match from a chain\<close>

text \<open>The unlink loop shared by \<open>ipset_remove\<close>, \<open>hashtable_remove\<close> and the like.\<close>

fun unlink_first :: "('e \<Rightarrow> bool) \<Rightarrow> 'e list \<Rightarrow> 'e list option" where
  "unlink_first P [] = None"
| "unlink_first P (e # es) = (if P e then Some es else map_option ((#) e) (unlink_first P es))"

lemma unlink_first_None: "unlink_first P es = None \<longleftrightarrow> (\<forall>e \<in> set es. \<not> P e)"
  by (induction es) auto

lemma unlink_first_Some:
  "unlink_first P es = Some es' \<Longrightarrow>
    \<exists>us e vs. es = us @ e # vs \<and> es' = us @ vs \<and> P e \<and> (\<forall>u \<in> set us. \<not> P u)"
proof (induction es arbitrary: es')
  case (Cons x xs)
  show ?case
  proof (cases "P x")
    case True
    with Cons.prems show ?thesis by (intro exI [of _ "[]"]) auto
  next
    case False
    with Cons.prems obtain r where r: "unlink_first P xs = Some r" "es' = x # r" by auto
    from Cons.IH [OF r(1)] obtain us e vs
      where "xs = us @ e # vs" "r = us @ vs" "P e" "\<forall>u \<in> set us. \<not> P u" by blast
    with r(2) False show ?thesis by (intro exI [of _ "x # us"]) auto
  qed
qed simp

lemma unlink_first_length: "unlink_first P es = Some es' \<Longrightarrow> length es = Suc (length es')"
  by (auto dest: unlink_first_Some)

lemma unlink_first_subset: "unlink_first P es = Some es' \<Longrightarrow> set es' \<subseteq> set es"
  by (auto dest: unlink_first_Some)

section \<open>Comparison and hash\<close>

locale hashed_key =
  fixes cmp :: "'k \<Rightarrow> 'k \<Rightarrow> int"
    and hash :: "'k \<Rightarrow> nat"
  assumes cmp_refl: "cmp a a = 0"
    and cmp_sym: "cmp a b = 0 \<Longrightarrow> cmp b a = 0"
    and cmp_trans: "cmp a b = 0 \<Longrightarrow> cmp b c = 0 \<Longrightarrow> cmp a c = 0"
    and hash_cong: "cmp a b = 0 \<Longrightarrow> hash a = hash b"
begin

lemma cmp_commute: "cmp a b = 0 \<longleftrightarrow> cmp b a = 0"
  by (blast intro: cmp_sym)

lemma cmp_cong: "cmp a b = 0 \<Longrightarrow> cmp a c = 0 \<longleftrightarrow> cmp b c = 0"
  by (blast intro: cmp_sym cmp_trans)

text \<open>An entry of the table whose key compares equal is in the chain the hash selects.\<close>

lemma in_own_chain:
  "placed hash key b \<Longrightarrow> e \<in> set (b i) \<Longrightarrow> cmp (key e) k = 0 \<Longrightarrow> i = hash k"
  by (metis hash_cong placedD)

lemma chain_search:
  assumes "placed hash key b"
  shows "(\<exists>i. \<exists>e \<in> set (b i). cmp (key e) k = 0 \<and> P e) \<longleftrightarrow>
         (\<exists>e \<in> set (b (hash k)). cmp (key e) k = 0 \<and> P e)"
  using in_own_chain [OF assms] by blast

text \<open>An update of one chain that touches only entries with key \<open>k\<close> leaves other searches alone.\<close>

lemma search_other:
  assumes "cmp k k' \<noteq> 0"
    and "\<And>e. cmp (key e) k \<noteq> 0 \<Longrightarrow> e \<in> set es \<longleftrightarrow> e \<in> set (b (hash k))"
  shows "(\<exists>e \<in> set ((b(hash k := es)) (hash k')). cmp (key e) k' = 0 \<and> P e) \<longleftrightarrow>
         (\<exists>e \<in> set (b (hash k')). cmp (key e) k' = 0 \<and> P e)"
proof (cases "hash k' = hash k")
  case True
  have ne: "cmp (key e) k \<noteq> 0" if "cmp (key e) k' = 0" for e
    using assms(1) that by (metis cmp_sym cmp_trans)
  show ?thesis using True assms(2) ne by auto
qed simp

end

end
