(* ===== verification/ConnTable.thy ===== *)
theory ConnTable
  imports BucketTable DDoS_Types
begin

text \<open>
  \<open>src/storage/hashtable.c\<close>: the connection hash table. Connection entries live on a heap of their
  own, a map from addresses to entries (address 0 is \<open>NULL\<close>), because the table and the LRU cache
  link the same entries and both free them. Reading a freed entry is \<open>UseAfterFree\<close>, freeing it
  again \<open>DoubleFree\<close>. The pointer loops are partial functions: not ending is \<open>None\<close>.
\<close>

section \<open>Entries and the heap\<close>

record conn_entry =
  ce_tuple :: conn_tuple
  ce_state :: tcp_state
  ce_first_seen :: time_t
  ce_last_seen :: time_t
  ce_packets :: u64
  ce_bytes :: u64
  ce_flags :: u32
  ce_next :: nat
  lru_prev :: nat
  lru_next :: nat

type_synonym conn_heap = "nat \<Rightarrow> conn_entry option"

definition hread :: "conn_heap \<Rightarrow> nat \<Rightarrow> conn_entry run" where
  "hread h p = (if p = 0 then fail NullDeref
     else case h p of None \<Rightarrow> fail UseAfterFree | Some e \<Rightarrow> ret e)"

definition hwrite :: "conn_heap \<Rightarrow> nat \<Rightarrow> (conn_entry \<Rightarrow> conn_entry) \<Rightarrow> conn_heap run" where
  "hwrite h p f = bindM (hread h p) (\<lambda>e. ret (h(p \<mapsto> f e)))"

definition hfree :: "conn_heap \<Rightarrow> nat \<Rightarrow> conn_heap run" where
  "hfree h p = (if p = 0 then ret h
     else case h p of None \<Rightarrow> fail DoubleFree | Some _ \<Rightarrow> ret (h(p := None)))"

section \<open>Hashing\<close>

definition HASH_SEED :: u32 where "HASH_SEED = 0x9747b28c"

definition rotl32 :: "nat \<Rightarrow> u32 \<Rightarrow> u32" where
  "rotl32 n w = push_bit n w OR drop_bit (32 - n) w"

definition le32 :: "u8 \<Rightarrow> u8 \<Rightarrow> u8 \<Rightarrow> u8 \<Rightarrow> u32" where
  "le32 a b c d = be32 d c b a"

definition murmur_k :: "u32 \<Rightarrow> u32" where
  "murmur_k k1 = rotl32 15 (k1 * 0xcc9e2d51) * 0x1b873593"

fun murmur_body :: "u32 \<Rightarrow> u8 list \<Rightarrow> u32 \<times> u8 list" where
  "murmur_body h1 (a # b # c # d # rest) =
     murmur_body (rotl32 13 (h1 XOR murmur_k (le32 a b c d)) * 5 + 0xe6546b64) rest"
| "murmur_body h1 rest = (h1, rest)"

fun murmur_tail :: "u32 \<Rightarrow> u8 list \<Rightarrow> u32" where
  "murmur_tail h1 [a, b, c] =
     h1 XOR murmur_k (push_bit 16 (ucast c) XOR push_bit 8 (ucast b) XOR ucast a)"
| "murmur_tail h1 [a, b] = h1 XOR murmur_k (push_bit 8 (ucast b) XOR ucast a)"
| "murmur_tail h1 [a] = h1 XOR murmur_k (ucast a)"
| "murmur_tail h1 _ = h1"

definition murmur_final :: "u32 \<Rightarrow> nat \<Rightarrow> u32" where
  "murmur_final h1 len =
     (let h1 = h1 XOR of_nat len;
          h1 = h1 XOR drop_bit 16 h1;
          h1 = h1 * 0x85ebca6b;
          h1 = h1 XOR drop_bit 13 h1;
          h1 = h1 * 0xc2b2ae35
      in h1 XOR drop_bit 16 h1)"

definition murmur3_32 :: "u8 list \<Rightarrow> u32 \<Rightarrow> u32" where
  "murmur3_32 key seed =
     (let (h1, tl) = murmur_body seed key
      in murmur_final (murmur_tail h1 tl) (length key))"

definition ip_key_bytes :: "ip_addr \<Rightarrow> u8 list" where
  "ip_key_bytes ip = (if family ip = AF_INET then addr_bytes 4 ip else addr_bytes 16 ip)"

definition le16_bytes :: "u16 \<Rightarrow> u8 list" where
  "le16_bytes w = [ucast w, ucast (drop_bit 8 w)]"

definition conn_tuple_hash :: "conn_tuple \<Rightarrow> u32" where
  "conn_tuple_hash t =
     (let hash = HASH_SEED;
          hash = murmur3_32 (ip_key_bytes (ct_src_ip t)) hash;
          hash = murmur3_32 (ip_key_bytes (ct_dst_ip t)) hash;
          hash = murmur3_32 (le16_bytes (ct_src_port t)) hash;
          hash = murmur3_32 (le16_bytes (ct_dst_port t)) hash
      in murmur3_32 [ct_protocol t] hash)"

definition conn_tuple_compare :: "conn_tuple \<Rightarrow> conn_tuple \<Rightarrow> int" where
  "conn_tuple_compare a b =
     (if ct_protocol a \<noteq> ct_protocol b then uint (ct_protocol a) - uint (ct_protocol b)
      else if ct_src_port a \<noteq> ct_src_port b then uint (ct_src_port a) - uint (ct_src_port b)
      else if ct_dst_port a \<noteq> ct_dst_port b then uint (ct_dst_port a) - uint (ct_dst_port b)
      else
        (let cmp = ip_addr_compare (ct_src_ip a) (ct_src_ip b)
         in if cmp \<noteq> 0 then cmp else ip_addr_compare (ct_dst_ip a) (ct_dst_ip b)))"

section \<open>The table\<close>

record hashtable =
  ht_buckets :: "nat \<Rightarrow> nat"
  ht_size :: u32
  ht_entries :: u64

definition hashtable_create :: "bool \<Rightarrow> bool \<Rightarrow> u32 \<Rightarrow> hashtable option" where
  "hashtable_create calloc_ok buckets_ok nb =
     (if \<not> calloc_ok then None
      else if \<not> buckets_ok then None
      else Some \<lparr>ht_buckets = (\<lambda>_. 0), ht_size = nb, ht_entries = 0\<rparr>)"

text \<open>\<open>hash % ht->size\<close>: the index of a key's bucket.\<close>

definition bucket_idx :: "hashtable \<Rightarrow> conn_tuple \<Rightarrow> nat run" where
  "bucket_idx ht key =
     (if ht_size ht = 0 then fail DivByZero else ret (unat (conn_tuple_hash key mod ht_size ht)))"

partial_function (option) chain_find :: "conn_heap \<Rightarrow> nat \<Rightarrow> conn_tuple \<Rightarrow> nat run" where
  "chain_find h p key =
     (if p = 0 then ret 0
      else case h p of
        None \<Rightarrow> fail UseAfterFree
      | Some e \<Rightarrow> if conn_tuple_compare (ce_tuple e) key = 0 then ret p
                  else chain_find h (ce_next e) key)"

definition hashtable_lookup :: "conn_heap \<Rightarrow> hashtable option \<Rightarrow> conn_tuple \<Rightarrow> nat run" where
  "hashtable_lookup h htp key =
     (case htp of
        None \<Rightarrow> ret 0
      | Some ht \<Rightarrow> bindM (bucket_idx ht key) (\<lambda>i. chain_find h (ht_buckets ht i) key))"

text \<open>
  \<open>hashtable_insert\<close>: the update branch copies the whole structure, links included; the assignment
  of \<open>curr->next\<close> to itself that follows does nothing.
\<close>

definition hashtable_insert ::
    "conn_heap \<Rightarrow> hashtable option \<Rightarrow> conn_tuple \<Rightarrow> nat \<Rightarrow> (int \<times> conn_heap \<times> hashtable option) run" where
  "hashtable_insert h htp key p =
     (case htp of
        None \<Rightarrow> ret (-1, h, None)
      | Some ht \<Rightarrow>
          if p = 0 then ret (-1, h, Some ht)
          else bindM (bucket_idx ht key) (\<lambda>i.
                 bindM (chain_find h (ht_buckets ht i) key) (\<lambda>curr.
                   if curr \<noteq> 0 then
                     bindM (hread h p) (\<lambda>e.
                     bindM (hwrite h curr (\<lambda>_. e)) (\<lambda>h1. ret (0, h1, Some ht)))
                   else
                     bindM (hwrite h p (\<lambda>e. e\<lparr>ce_next := ht_buckets ht i\<rparr>)) (\<lambda>h1.
                       ret (0, h1, Some (ht\<lparr>ht_buckets := (ht_buckets ht)(i := p),
                                           ht_entries := ht_entries ht + 1\<rparr>))))))"

text \<open>The search of \<open>hashtable_remove\<close>: whether the key was found, the heap and the chain's new head.\<close>

partial_function (option) chain_remove ::
    "conn_heap \<Rightarrow> nat \<Rightarrow> nat \<Rightarrow> nat \<Rightarrow> conn_tuple \<Rightarrow> (bool \<times> conn_heap \<times> nat) run" where
  "chain_remove h head_ptr prev p key =
     (if p = 0 then ret (False, h, head_ptr)
      else case h p of
        None \<Rightarrow> fail UseAfterFree
      | Some e \<Rightarrow>
          if conn_tuple_compare (ce_tuple e) key = 0 then
            (if prev \<noteq> 0 then
               bindM (hwrite h prev (\<lambda>pe. pe\<lparr>ce_next := ce_next e\<rparr>)) (\<lambda>h1.
               bindM (hfree h1 p) (\<lambda>h2. ret (True, h2, head_ptr)))
             else bindM (hfree h p) (\<lambda>h2. ret (True, h2, ce_next e)))
          else chain_remove h head_ptr p (ce_next e) key)"

definition hashtable_remove ::
    "conn_heap \<Rightarrow> hashtable option \<Rightarrow> conn_tuple \<Rightarrow> (int \<times> conn_heap \<times> hashtable option) run" where
  "hashtable_remove h htp key =
     (case htp of
        None \<Rightarrow> ret (-1, h, None)
      | Some ht \<Rightarrow>
          bindM (bucket_idx ht key) (\<lambda>i.
          bindM (chain_remove h (ht_buckets ht i) 0 (ht_buckets ht i) key) (\<lambda>(found, h1, hd).
            if found then ret (0, h1, Some (ht\<lparr>ht_buckets := (ht_buckets ht)(i := hd),
                                             ht_entries := ht_entries ht - 1\<rparr>))
            else ret (-1, h1, Some ht))))"

definition hashtable_size :: "hashtable option \<Rightarrow> u64" where
  "hashtable_size htp = (case htp of None \<Rightarrow> 0 | Some ht \<Rightarrow> ht_entries ht)"

partial_function (option) chain_free :: "conn_heap \<Rightarrow> nat \<Rightarrow> conn_heap run" where
  "chain_free h p =
     (if p = 0 then ret h
      else case h p of
        None \<Rightarrow> fail UseAfterFree
      | Some e \<Rightarrow> chain_free (h(p := None)) (ce_next e))"

fun free_buckets :: "conn_heap \<Rightarrow> (nat \<Rightarrow> nat) \<Rightarrow> nat list \<Rightarrow> conn_heap run" where
  "free_buckets h bs [] = ret h"
| "free_buckets h bs (i # is) = bindM (chain_free h (bs i)) (\<lambda>h1. free_buckets h1 bs is)"

definition hashtable_destroy :: "conn_heap \<Rightarrow> hashtable option \<Rightarrow> conn_heap run" where
  "hashtable_destroy h htp =
     (case htp of
        None \<Rightarrow> ret h
      | Some ht \<Rightarrow> free_buckets h (ht_buckets ht) [0..<unat (ht_size ht)])"

definition hashtable_clear :: "conn_heap \<Rightarrow> hashtable option \<Rightarrow> (conn_heap \<times> hashtable option) run" where
  "hashtable_clear h htp =
     (case htp of
        None \<Rightarrow> ret (h, None)
      | Some ht \<Rightarrow>
          bindM (free_buckets h (ht_buckets ht) [0..<unat (ht_size ht)]) (\<lambda>h1.
            ret (h1, Some (ht\<lparr>ht_buckets := (\<lambda>i. if i < unat (ht_size ht) then 0 else ht_buckets ht i),
                             ht_entries := 0\<rparr>))))"

text \<open>
  \<open>hashtable_foreach\<close>: the callback may write the heap and its own state; a nonzero answer stops
  the walk. The result is that answer, or the number of entries visited.
\<close>

partial_function (option) foreach_chain ::
    "(nat \<Rightarrow> conn_heap \<Rightarrow> 's \<Rightarrow> int \<times> conn_heap \<times> 's) \<Rightarrow> conn_heap \<Rightarrow> 's \<Rightarrow> int \<Rightarrow> nat \<Rightarrow>
      (int option \<times> int \<times> conn_heap \<times> 's) run" where
  "foreach_chain cb h s n p =
     (if p = 0 then ret (None, n, h, s)
      else case cb p h s of
        (r, h1, s1) \<Rightarrow>
          if r \<noteq> 0 then ret (Some r, n, h1, s1)
          else case h1 p of
            None \<Rightarrow> fail UseAfterFree
          | Some e \<Rightarrow> foreach_chain cb h1 s1 (n + 1) (ce_next e))"

fun foreach_buckets ::
    "(nat \<Rightarrow> conn_heap \<Rightarrow> 's \<Rightarrow> int \<times> conn_heap \<times> 's) \<Rightarrow> (nat \<Rightarrow> nat) \<Rightarrow> nat list \<Rightarrow> conn_heap \<Rightarrow> 's \<Rightarrow> int \<Rightarrow>
      (int \<times> conn_heap \<times> 's) run" where
  "foreach_buckets cb bs [] h s n = ret (n, h, s)"
| "foreach_buckets cb bs (i # is) h s n =
     bindM (foreach_chain cb h s n (bs i)) (\<lambda>(stop, n1, h1, s1).
       case stop of Some r \<Rightarrow> ret (r, h1, s1) | None \<Rightarrow> foreach_buckets cb bs is h1 s1 n1)"

definition hashtable_foreach ::
    "(nat \<Rightarrow> conn_heap \<Rightarrow> 's \<Rightarrow> int \<times> conn_heap \<times> 's) \<Rightarrow> conn_heap \<Rightarrow> hashtable option \<Rightarrow> 's \<Rightarrow>
      (int \<times> conn_heap \<times> 's) run" where
  "hashtable_foreach cb h htp s =
     (case htp of
        None \<Rightarrow> ret (-1, h, s)
      | Some ht \<Rightarrow> foreach_buckets cb (ht_buckets ht) [0..<unat (ht_size ht)] h s 0)"

section \<open>Keys\<close>

text \<open>The canonical form of a tuple: what \<open>conn_tuple_compare\<close> and \<open>conn_tuple_hash\<close> look at.\<close>

definition canon_ip :: "ip_addr \<Rightarrow> ip_addr" where
  "canon_ip ip = (if family ip = AF_INET then ip\<lparr>ip_bits := ucast (s_addr ip)\<rparr> else ip)"

definition tuple_key :: "conn_tuple \<Rightarrow> conn_tuple" where
  "tuple_key t = t\<lparr>ct_src_ip := canon_ip (ct_src_ip t), ct_dst_ip := canon_ip (ct_dst_ip t)\<rparr>"

lemma ucast_up_down: "ucast (ucast (w :: u32) :: 128 word) = w"
  by (rule bit_word_eqI) (auto simp: bit_simps)

lemma s_addr_canon [simp]: "s_addr (canon_ip ip) = s_addr ip"
  by (simp add: canon_ip_def s_addr_def ucast_up_down)

lemma family_canon [simp]: "family (canon_ip ip) = family ip"
  by (simp add: canon_ip_def)

lemma same_ip_canon: "same_ip a b \<longleftrightarrow> canon_ip a = canon_ip b"
proof
  assume "same_ip a b"
  then show "canon_ip a = canon_ip b"
    by (cases a; cases b) (auto simp: same_ip_def canon_ip_def split: if_splits)
next
  assume eq: "canon_ip a = canon_ip b"
  have "family a = family b" "s_addr a = s_addr b"
    by (metis eq family_canon, metis eq s_addr_canon)
  moreover have "family a \<noteq> AF_INET \<Longrightarrow> ip_bits a = ip_bits b"
    using eq \<open>family a = family b\<close> by (simp add: canon_ip_def)
  ultimately show "same_ip a b" by (simp add: same_ip_def)
qed

lemma conn_tuple_compare_0: "conn_tuple_compare a b = 0 \<longleftrightarrow> tuple_key a = tuple_key b"
proof -
  have "conn_tuple_compare a b = 0 \<longleftrightarrow> ct_protocol a = ct_protocol b \<and> ct_src_port a = ct_src_port b \<and>
      ct_dst_port a = ct_dst_port b \<and> same_ip (ct_src_ip a) (ct_src_ip b) \<and> same_ip (ct_dst_ip a) (ct_dst_ip b)"
    by (auto simp: conn_tuple_compare_def Let_def ip_addr_compare_0)
  then show ?thesis
    by (cases a; cases b) (auto simp: tuple_key_def same_ip_canon)
qed

lemma ip_key_bytes_cong: "same_ip a b \<Longrightarrow> ip_key_bytes a = ip_key_bytes b"
  by (auto simp: ip_key_bytes_def same_ip_def addr_bytes_4 addr_bytes_16 split: if_splits)

lemma conn_tuple_hash_key: "tuple_key a = tuple_key b \<Longrightarrow> conn_tuple_hash a = conn_tuple_hash b"
proof -
  assume "tuple_key a = tuple_key b"
  then have "ct_protocol a = ct_protocol b" "ct_src_port a = ct_src_port b" "ct_dst_port a = ct_dst_port b"
    "same_ip (ct_src_ip a) (ct_src_ip b)" "same_ip (ct_dst_ip a) (ct_dst_ip b)"
    by (cases a; cases b; auto simp: tuple_key_def same_ip_canon)+
  then show ?thesis by (simp add: conn_tuple_hash_def Let_def ip_key_bytes_cong)
qed

definition key_bucket :: "hashtable \<Rightarrow> conn_tuple \<Rightarrow> nat" where
  "key_bucket ht key = unat (conn_tuple_hash key mod ht_size ht)"

lemma bucket_idx_ok: "ht_size ht \<noteq> 0 \<Longrightarrow> bucket_idx ht key = ret (key_bucket ht key)"
  by (simp add: bucket_idx_def key_bucket_def)

lemma key_bucket_less: "ht_size ht \<noteq> 0 \<Longrightarrow> key_bucket ht key < unat (ht_size ht)"
  by (simp add: key_bucket_def unat_mod unat_gt_0)

interpretation conn_key: hashed_key conn_tuple_compare "key_bucket ht" for ht
  by unfold_locales
    (auto simp: conn_tuple_compare_0 key_bucket_def dest: conn_tuple_hash_key)

section \<open>Chains on the heap\<close>

fun is_chain :: "conn_heap \<Rightarrow> nat \<Rightarrow> nat list \<Rightarrow> bool" where
  "is_chain h p [] \<longleftrightarrow> p = 0"
| "is_chain h p (q # qs) \<longleftrightarrow> p = q \<and> q \<noteq> 0 \<and> (\<exists>e. h q = Some e \<and> is_chain h (ce_next e) qs)"

definition key_at :: "conn_heap \<Rightarrow> nat \<Rightarrow> conn_tuple" where
  "key_at h p = tuple_key (ce_tuple (the (h p)))"

lemma is_chain_Some: "is_chain h p qs \<Longrightarrow> q \<in> set qs \<Longrightarrow> q \<noteq> 0 \<and> (\<exists>e. h q = Some e)"
  by (induction qs arbitrary: p) auto

lemma is_chain_cong:
  "is_chain h p qs \<Longrightarrow> (\<And>q. q \<in> set qs \<Longrightarrow> h' q = h q) \<Longrightarrow> is_chain h' p qs"
proof (induction qs arbitrary: p)
  case (Cons q qs)
  then obtain e where "p = q" "q \<noteq> 0" "h q = Some e" "is_chain h (ce_next e) qs" by auto
  with Cons.IH [of "ce_next e"] Cons.prems(2) show ?case by simp
qed simp

lemma chain_find_eq:
  "is_chain h p qs \<Longrightarrow> chain_find h p key =
    ret (case find (\<lambda>q. key_at h q = tuple_key key) qs of None \<Rightarrow> 0 | Some q \<Rightarrow> q)"
proof (induction qs arbitrary: p)
  case Nil
  then show ?case by (simp add: chain_find.simps)
next
  case (Cons q qs)
  then obtain e where e: "p = q" "q \<noteq> 0" "h q = Some e" "is_chain h (ce_next e) qs" by auto
  show ?case
    by (subst chain_find.simps) (simp add: e conn_tuple_compare_0 Cons.IH [OF e(4)] key_at_def)
qed

text \<open>Removing the first match: the chain without it, and only \<open>next\<close> fields change.\<close>

definition same_but_next :: "conn_heap \<Rightarrow> conn_heap \<Rightarrow> nat \<Rightarrow> bool" where
  "same_but_next h h' q \<longleftrightarrow> (\<forall>e. h q = Some e \<longrightarrow> (\<exists>n. h' q = Some (e\<lparr>ce_next := n\<rparr>)))"

lemma same_but_next_refl: "h' q = h q \<Longrightarrow> same_but_next h h' q"
proof -
  assume a: "h' q = h q"
  have "e = e\<lparr>ce_next := ce_next e\<rparr>" for e :: conn_entry by simp
  with a show ?thesis unfolding same_but_next_def by metis
qed

lemma same_but_next_key: "same_but_next h h' q \<Longrightarrow> h q = Some e \<Longrightarrow> key_at h' q = key_at h q"
  by (auto simp: same_but_next_def key_at_def)

lemma chain_remove_none:
  "is_chain h p qs \<Longrightarrow> \<forall>q \<in> set qs. key_at h q \<noteq> tuple_key key \<Longrightarrow>
    chain_remove h hd0 prev p key = ret (False, h, hd0)"
proof (induction qs arbitrary: p prev)
  case Nil
  then show ?case by (simp add: chain_remove.simps)
next
  case (Cons q qs)
  then obtain e where e: "p = q" "q \<noteq> 0" "h q = Some e" "is_chain h (ce_next e) qs" by auto
  have "tuple_key (ce_tuple e) \<noteq> tuple_key key" using Cons.prems(2) e by (auto simp: key_at_def)
  then show ?case
    by (subst chain_remove.simps) (use Cons e in \<open>simp add: conn_tuple_compare_0\<close>)
qed

text \<open>With a predecessor: its \<open>next\<close> takes over the removed entry's.\<close>

lemma chain_remove_after:
  assumes "prev \<noteq> 0" "h prev = Some pe" "ce_next pe = p" "is_chain h p (us @ q # vs)"
    "\<forall>u \<in> set us. key_at h u \<noteq> tuple_key key" "key_at h q = tuple_key key"
    "prev \<notin> set (us @ q # vs)" "distinct (us @ q # vs)"
  shows "\<exists>h'. chain_remove h hd0 prev p key = ret (True, h', hd0) \<and>
    (\<exists>pe'. h' prev = Some (pe\<lparr>ce_next := pe'\<rparr>) \<and> is_chain h' pe' (us @ vs)) \<and> h' q = None \<and>
    (\<forall>x. x \<noteq> q \<longrightarrow> same_but_next h h' x) \<and> (\<forall>x. x \<notin> set (prev # us @ [q]) \<longrightarrow> h' x = h x)"
  using assms
proof (induction us arbitrary: prev pe p)
  case Nil
  then obtain e where e: "p = q" "q \<noteq> 0" "h q = Some e" "is_chain h (ce_next e) vs" by auto
  have k: "conn_tuple_compare (ce_tuple e) key = 0"
    using Nil.prems(6) e by (simp add: conn_tuple_compare_0 key_at_def)
  let ?h' = "(h(prev \<mapsto> pe\<lparr>ce_next := ce_next e\<rparr>))(q := None)"
  have ne: "prev \<noteq> q" using Nil.prems(7) by auto
  have run: "chain_remove h hd0 prev p key = ret (True, ?h', hd0)"
    by (subst chain_remove.simps)
      (use Nil.prems e k ne in \<open>simp add: hwrite_def hread_def hfree_def fun_upd_twist\<close>)
  have ch: "is_chain ?h' (ce_next e) vs"
    by (rule is_chain_cong [OF e(4)]) (use Nil.prems in auto)
  have sb: "same_but_next h ?h' x" if "x \<noteq> q" for x
  proof (cases "x = prev")
    case True
    then show ?thesis using Nil.prems ne by (auto simp: same_but_next_def)
  next
    case False
    then show ?thesis by (intro same_but_next_refl) (use that in simp)
  qed
  have at: "?h' prev = Some (pe\<lparr>ce_next := ce_next e\<rparr>)" "?h' q = None"
    "\<forall>x. x \<notin> set (prev # [] @ [q]) \<longrightarrow> ?h' x = h x"
    using ne by auto
  show ?case
    by (rule exI [of _ ?h']) (use run ch sb at in \<open>auto simp del: fun_upd_apply\<close>)
next
  case (Cons u us)
  then obtain e where e: "p = u" "u \<noteq> 0" "h u = Some e" "is_chain h (ce_next e) (us @ q # vs)" by auto
  have k: "conn_tuple_compare (ce_tuple e) key \<noteq> 0"
    using Cons.prems(5) e by (simp add: conn_tuple_compare_0 key_at_def)
  have st: "chain_remove h hd0 prev p key = chain_remove h hd0 u (ce_next e) key"
    by (subst chain_remove.simps) (use e k in simp)
  have "\<exists>h'. chain_remove h hd0 u (ce_next e) key = ret (True, h', hd0) \<and>
    (\<exists>pe'. h' u = Some (e\<lparr>ce_next := pe'\<rparr>) \<and> is_chain h' pe' (us @ vs)) \<and> h' q = None \<and>
    (\<forall>x. x \<noteq> q \<longrightarrow> same_but_next h h' x) \<and> (\<forall>x. x \<notin> set (u # us @ [q]) \<longrightarrow> h' x = h x)"
    by (rule Cons.IH) (use Cons.prems e in auto)
  then obtain h' pe' where h': "chain_remove h hd0 u (ce_next e) key = ret (True, h', hd0)"
    "h' u = Some (e\<lparr>ce_next := pe'\<rparr>)" "is_chain h' pe' (us @ vs)" "h' q = None"
    "\<And>x. x \<noteq> q \<Longrightarrow> same_but_next h h' x" "\<And>x. x \<notin> set (u # us @ [q]) \<Longrightarrow> h' x = h x" by auto
  have "h' prev = h prev" by (rule h'(6)) (use Cons.prems(7) in auto)
  then have "h' prev = Some (pe\<lparr>ce_next := p\<rparr>)" using Cons.prems(2,3) by simp
  moreover have "is_chain h' p ((u # us) @ vs)" using e h' by simp
  ultimately show ?case using st h' by (intro exI [of _ h'] conjI exI [of _ p]) auto
qed

lemma chain_remove_some:
  assumes "is_chain h p (us @ q # vs)" "\<forall>u \<in> set us. key_at h u \<noteq> tuple_key key"
    "key_at h q = tuple_key key" "distinct (us @ q # vs)"
  shows "\<exists>h' p'. chain_remove h p 0 p key = ret (True, h', p') \<and> is_chain h' p' (us @ vs) \<and> h' q = None \<and>
    (\<forall>x. x \<noteq> q \<longrightarrow> same_but_next h h' x) \<and> (\<forall>x. x \<notin> set (us @ [q]) \<longrightarrow> h' x = h x)"
proof (cases us)
  case Nil
  with assms obtain e where e: "p = q" "q \<noteq> 0" "h q = Some e" "is_chain h (ce_next e) vs" by auto
  have k: "conn_tuple_compare (ce_tuple e) key = 0"
    using assms e by (simp add: conn_tuple_compare_0 key_at_def)
  have "chain_remove h p 0 p key = ret (True, h(q := None), ce_next e)"
    by (subst chain_remove.simps) (use e k in \<open>simp add: hfree_def\<close>)
  moreover have "is_chain (h(q := None)) (ce_next e) vs"
    by (rule is_chain_cong [OF e(4)]) (use assms in auto)
  moreover have "same_but_next h (h(q := None)) x" if "x \<noteq> q" for x
    by (rule same_but_next_refl) (use that in simp)
  ultimately show ?thesis using Nil by auto
next
  case (Cons u us')
  with assms obtain e where e: "p = u" "u \<noteq> 0" "h u = Some e" "is_chain h (ce_next e) (us' @ q # vs)" by auto
  have k: "conn_tuple_compare (ce_tuple e) key \<noteq> 0"
    using assms(2) e Cons by (simp add: conn_tuple_compare_0 key_at_def)
  have st: "chain_remove h p 0 p key = chain_remove h p u (ce_next e) key"
    by (subst chain_remove.simps) (use e k in simp)
  have "\<exists>h'. chain_remove h p u (ce_next e) key = ret (True, h', p) \<and>
    (\<exists>pe'. h' u = Some (e\<lparr>ce_next := pe'\<rparr>) \<and> is_chain h' pe' (us' @ vs)) \<and> h' q = None \<and>
    (\<forall>x. x \<noteq> q \<longrightarrow> same_but_next h h' x) \<and> (\<forall>x. x \<notin> set (u # us' @ [q]) \<longrightarrow> h' x = h x)"
    by (rule chain_remove_after) (use assms e Cons in auto)
  then obtain h' pe' where h': "chain_remove h p u (ce_next e) key = ret (True, h', p)"
    "h' u = Some (e\<lparr>ce_next := pe'\<rparr>)" "is_chain h' pe' (us' @ vs)" "h' q = None"
    "\<And>x. x \<noteq> q \<Longrightarrow> same_but_next h h' x" "\<And>x. x \<notin> set (u # us' @ [q]) \<Longrightarrow> h' x = h x" by auto
  have "is_chain h' p (us @ vs)" using e h' Cons by simp
  then show ?thesis using st h' Cons by (intro exI [of _ h'] exI [of _ p]) auto
qed

section \<open>The table invariant\<close>

text \<open>
  \<open>ht_ok h ht cs\<close>: bucket \<open>i\<close> points to the chain \<open>cs i\<close>, whose entries are allocated, hash to
  \<open>i\<close> and have pairwise different keys; \<open>ht_entries\<close> counts them. \<open>ht_rep\<close> hides the chains and
  names the set \<open>P\<close> of linked entries.
\<close>

definition ht_ok :: "conn_heap \<Rightarrow> hashtable \<Rightarrow> (nat \<Rightarrow> nat list) \<Rightarrow> bool" where
  "ht_ok h ht cs \<longleftrightarrow> ht_size ht \<noteq> 0 \<and>
     (\<forall>i. unat (ht_size ht) \<le> i \<longrightarrow> cs i = []) \<and>
     (\<forall>i < unat (ht_size ht). is_chain h (ht_buckets ht i) (cs i) \<and> distinct (map (key_at h) (cs i)) \<and>
        (\<forall>q \<in> set (cs i). key_bucket ht (key_at h q) = i))"

definition ht_rep :: "conn_heap \<Rightarrow> hashtable \<Rightarrow> nat set \<Rightarrow> bool" where
  "ht_rep h ht P \<longleftrightarrow> (\<exists>cs. ht_ok h ht cs \<and> P = (\<Union>i. set (cs i)))"

lemma ht_ok_range: "ht_ok h ht cs \<Longrightarrow> q \<in> set (cs i) \<Longrightarrow> i < unat (ht_size ht)"
  by (metis ht_ok_def empty_iff empty_set not_le)

lemma ht_ok_key: "ht_ok h ht cs \<Longrightarrow> q \<in> set (cs i) \<Longrightarrow> key_bucket ht (key_at h q) = i"
  using ht_ok_range ht_ok_def by blast

lemma ht_ok_alloc: "ht_ok h ht cs \<Longrightarrow> q \<in> set (cs i) \<Longrightarrow> q \<noteq> 0 \<and> (\<exists>e. h q = Some e)"
  by (metis ht_ok_def ht_ok_range is_chain_Some)

lemma key_bucket_tuple_key: "key_bucket ht (tuple_key k) = key_bucket ht k"
proof -
  have "canon_ip (canon_ip ip) = canon_ip ip" for ip
    by (simp add: canon_ip_def s_addr_def ucast_up_down)
  then have "tuple_key (tuple_key k) = tuple_key k" by (simp add: tuple_key_def)
  then show ?thesis
    using conn_tuple_hash_key [of "tuple_key k" k] by (simp add: key_bucket_def)
qed

text \<open>A key is found, if at all, in the chain of its bucket.\<close>

lemma ht_ok_in_bucket:
  "ht_ok h ht cs \<Longrightarrow> q \<in> set (cs i) \<Longrightarrow> key_at h q = tuple_key k \<Longrightarrow> i = key_bucket ht k"
  by (metis ht_ok_key key_bucket_tuple_key)

lemma ht_rep_alloc: "ht_rep h ht P \<Longrightarrow> q \<in> P \<Longrightarrow> q \<noteq> 0 \<and> (\<exists>e. h q = Some e)"
  by (auto simp: ht_rep_def dest: ht_ok_alloc)

lemma ht_rep_inj:
  assumes "ht_rep h ht P" "p \<in> P" "q \<in> P" "key_at h p = key_at h q"
  shows "p = q"
proof -
  obtain cs i j where cs: "ht_ok h ht cs" "p \<in> set (cs i)" "q \<in> set (cs j)"
    using assms(1-3) by (auto simp: ht_rep_def)
  have "i = j" using ht_ok_key [OF cs(1) cs(2)] ht_ok_key [OF cs(1) cs(3)] assms(4) by simp
  moreover have "distinct (map (key_at h) (cs i))"
    using cs ht_ok_range by (metis ht_ok_def)
  ultimately show ?thesis using cs assms(4) by (auto simp: distinct_map dest: inj_onD)
qed

lemma hashtable_lookup_spec:
  assumes "ht_rep h ht P"
  shows "\<exists>p. hashtable_lookup h (Some ht) key = ret p \<and>
    (p = 0 \<and> (\<forall>q \<in> P. key_at h q \<noteq> tuple_key key) \<or> p \<in> P \<and> key_at h p = tuple_key key)"
proof -
  obtain cs where cs: "ht_ok h ht cs" "P = (\<Union>i. set (cs i))" using assms by (auto simp: ht_rep_def)
  let ?i = "key_bucket ht key"
  have nz: "ht_size ht \<noteq> 0" using cs(1) by (simp add: ht_ok_def)
  have i: "?i < unat (ht_size ht)" by (rule key_bucket_less [OF nz])
  have ch: "is_chain h (ht_buckets ht ?i) (cs ?i)" using cs(1) i by (simp add: ht_ok_def)
  let ?f = "find (\<lambda>q. key_at h q = tuple_key key) (cs ?i)"
  have run: "hashtable_lookup h (Some ht) key = ret (case ?f of None \<Rightarrow> 0 | Some q \<Rightarrow> q)"
    by (simp add: hashtable_lookup_def bucket_idx_ok [OF nz] chain_find_eq [OF ch])
  show ?thesis
  proof (cases ?f)
    case None
    then have "\<forall>q \<in> set (cs ?i). key_at h q \<noteq> tuple_key key" by (auto simp: find_None_iff)
    then have "\<forall>q \<in> P. key_at h q \<noteq> tuple_key key"
      using cs ht_ok_in_bucket [OF cs(1)] by blast
    then show ?thesis using run None by simp
  next
    case (Some q)
    then have "q \<in> set (cs ?i)" "key_at h q = tuple_key key" by (auto simp: find_Some_iff)
    then show ?thesis using run Some cs(2) by auto
  qed
qed

lemma lookup_hit:
  assumes "ht_rep h ht P" "p \<in> P" "key_at h p = tuple_key key"
  shows "hashtable_lookup h (Some ht) key = ret p"
  using hashtable_lookup_spec [OF assms(1), of key] ht_rep_inj [OF assms(1)] assms by metis

lemma lookup_miss:
  assumes "ht_rep h ht P" "\<forall>q \<in> P. key_at h q \<noteq> tuple_key key"
  shows "hashtable_lookup h (Some ht) key = ret 0"
  using hashtable_lookup_spec [OF assms(1), of key] assms by metis

text \<open>A heap that differs only in the links of the LRU list, or outside the entries, keeps the table.\<close>

lemma ht_ok_cong:
  assumes "ht_ok h ht cs" "\<And>i q. q \<in> set (cs i) \<Longrightarrow>
    \<exists>e e'. h q = Some e \<and> h' q = Some e' \<and> ce_tuple e' = ce_tuple e \<and> ce_next e' = ce_next e"
  shows "ht_ok h' ht cs"
proof -
  have k: "key_at h' q = key_at h q" if "q \<in> set (cs i)" for q i
    using assms(2) [OF that] by (auto simp: key_at_def)
  have ch: "is_chain h' p qs" if "is_chain h p qs" "set qs \<subseteq> set (cs i)" for p qs i
    using that
  proof (induction qs arbitrary: p)
    case (Cons q qs)
    then obtain e where e: "p = q" "q \<noteq> 0" "h q = Some e" "is_chain h (ce_next e) qs" by auto
    obtain e' where "h' q = Some e'" "ce_next e' = ce_next e"
      using assms(2) [of q i] Cons.prems(2) e(3) by auto
    with Cons.IH [OF e(4)] Cons.prems(2) e show ?case by simp
  qed simp
  have mk: "map (key_at h') (cs i) = map (key_at h) (cs i)" for i using k by simp
  show ?thesis
    unfolding ht_ok_def mk
  proof (intro conjI allI impI)
    fix i assume "i < unat (ht_size ht)"
    with assms(1) have i: "is_chain h (ht_buckets ht i) (cs i)" "distinct (map (key_at h) (cs i))"
      "\<forall>q \<in> set (cs i). key_bucket ht (key_at h q) = i" by (simp_all add: ht_ok_def)
    show "is_chain h' (ht_buckets ht i) (cs i)" by (rule ch [OF i(1) subset_refl])
    show "distinct (map (key_at h) (cs i))" by (rule i(2))
    show "\<forall>q \<in> set (cs i). key_bucket ht (key_at h' q) = i" using i(3) k by simp
  qed (use assms(1) in \<open>simp_all add: ht_ok_def\<close>)
qed

lemma ht_rep_cong:
  assumes "ht_rep h ht P" "\<And>q. q \<in> P \<Longrightarrow>
    \<exists>e e'. h q = Some e \<and> h' q = Some e' \<and> ce_tuple e' = ce_tuple e \<and> ce_next e' = ce_next e"
  shows "ht_rep h' ht P"
proof -
  obtain cs where cs: "ht_ok h ht cs" "P = (\<Union>i. set (cs i))" using assms(1) by (auto simp: ht_rep_def)
  have "ht_ok h' ht cs" by (rule ht_ok_cong [OF cs(1)]) (use assms(2) cs(2) in blast)
  with cs(2) show ?thesis unfolding ht_rep_def by blast
qed

lemma ht_rep_create: "hashtable_create True True n = Some ht \<Longrightarrow> n \<noteq> 0 \<Longrightarrow> ht_rep h ht {}"
  by (auto simp: hashtable_create_def ht_rep_def ht_ok_def intro!: exI [of _ "\<lambda>_. []"])

lemma key_bucket_upd [simp]: "key_bucket (ht\<lparr>ht_buckets := b, ht_entries := n\<rparr>) k = key_bucket ht k"
  by (simp add: key_bucket_def)

lemma hashtable_insert_spec:
  assumes rep: "ht_rep h ht P" and p: "p \<noteq> 0" "p \<notin> P" "h p = Some e" "tuple_key (ce_tuple e) = tuple_key key"
    and new: "\<forall>q \<in> P. key_at h q \<noteq> tuple_key key"
  shows "\<exists>n ht'. hashtable_insert h (Some ht) key p = ret (0, h(p \<mapsto> e\<lparr>ce_next := n\<rparr>), Some ht') \<and>
    ht_rep (h(p \<mapsto> e\<lparr>ce_next := n\<rparr>)) ht' (insert p P) \<and>
    ht_entries ht' = ht_entries ht + 1 \<and> ht_size ht' = ht_size ht"
proof -
  obtain cs where cs: "ht_ok h ht cs" "P = (\<Union>i. set (cs i))" using rep by (auto simp: ht_rep_def)
  let ?i = "key_bucket ht key"
  let ?n = "ht_buckets ht ?i"
  let ?h = "h(p \<mapsto> e\<lparr>ce_next := ?n\<rparr>)"
  let ?ht = "ht\<lparr>ht_buckets := (ht_buckets ht)(?i := p), ht_entries := ht_entries ht + 1\<rparr>"
  have nz: "ht_size ht \<noteq> 0" using cs(1) by (simp add: ht_ok_def)
  have i: "?i < unat (ht_size ht)" by (rule key_bucket_less [OF nz])
  have "hashtable_lookup h (Some ht) key = ret 0" by (rule lookup_miss [OF rep new])
  then have "chain_find h ?n key = ret 0" by (simp add: hashtable_lookup_def bucket_idx_ok [OF nz])
  then have run: "hashtable_insert h (Some ht) key p = ret (0, ?h, Some ?ht)"
    using p by (simp add: hashtable_insert_def bucket_idx_ok [OF nz] hwrite_def hread_def)
  have ok: "ht_ok ?h ht cs"
  proof (rule ht_ok_cong [OF cs(1)])
    fix i q assume q: "q \<in> set (cs i)"
    then have "q \<noteq> p" using p(2) cs(2) by auto
    with ht_ok_alloc [OF cs(1) q]
    show "\<exists>e e'. h q = Some e \<and> ?h q = Some e' \<and> ce_tuple e' = ce_tuple e \<and> ce_next e' = ce_next e" by auto
  qed
  have kp: "key_at ?h p = tuple_key key" using p(4) by (simp add: key_at_def tuple_key_def)
  have kn: "tuple_key key \<notin> key_at ?h ` set (cs ?i)"
  proof
    assume "tuple_key key \<in> key_at ?h ` set (cs ?i)"
    then obtain q where q: "q \<in> set (cs ?i)" "key_at ?h q = tuple_key key" by auto
    then have "q \<in> P" "q \<noteq> p" using cs(2) p(2) by auto
    with new q(2) show False by (auto simp: key_at_def)
  qed
  have "ht_ok ?h ?ht (cs(?i := p # cs ?i))"
    unfolding ht_ok_def
  proof (intro conjI allI impI)
    fix j assume j: "j < unat (ht_size ?ht)"
    have old: "is_chain ?h (ht_buckets ht j) (cs j)" "distinct (map (key_at ?h) (cs j))"
      "\<forall>q \<in> set (cs j). key_bucket ht (key_at ?h q) = j"
      using ok j by (simp_all add: ht_ok_def del: fun_upd_apply)
    show "is_chain ?h (ht_buckets ?ht j) ((cs(?i := p # cs ?i)) j)"
      using old(1) p(1) by (cases "j = ?i") simp_all
    show "distinct (map (key_at ?h) ((cs(?i := p # cs ?i)) j))"
      using old(2) kn kp by (cases "j = ?i") (simp_all del: fun_upd_apply add: fun_upd_same fun_upd_other)
    show "\<forall>q \<in> set ((cs(?i := p # cs ?i)) j). key_bucket ?ht (key_at ?h q) = j"
      using old(3) kp key_bucket_tuple_key
      by (cases "j = ?i") (simp_all del: fun_upd_apply add: fun_upd_same fun_upd_other)
  qed (use nz cs(1) i in \<open>auto simp: ht_ok_def\<close>)
  moreover have "insert p P = (\<Union>j. set ((cs(?i := p # cs ?i)) j))" using cs(2) by (auto split: if_splits)
  ultimately have "ht_rep ?h ?ht (insert p P)" unfolding ht_rep_def by blast
  then show ?thesis using run by (intro exI [of _ ?n] exI [of _ ?ht]) simp
qed

lemma hashtable_remove_spec:
  assumes rep: "ht_rep h ht P" and p: "p \<in> P" "key_at h p = tuple_key key"
  shows "\<exists>h' ht'. hashtable_remove h (Some ht) key = ret (0, h', Some ht') \<and>
    ht_rep h' ht' (P - {p}) \<and> h' p = None \<and> (\<forall>q. q \<noteq> p \<longrightarrow> same_but_next h h' q) \<and>
    (\<forall>q. q \<notin> P \<longrightarrow> h' q = h q) \<and>
    ht_entries ht' = ht_entries ht - 1 \<and> ht_size ht' = ht_size ht"
proof -
  obtain cs where cs: "ht_ok h ht cs" "P = (\<Union>i. set (cs i))" using rep by (auto simp: ht_rep_def)
  let ?i = "key_bucket ht key"
  have nz: "ht_size ht \<noteq> 0" using cs(1) by (simp add: ht_ok_def)
  have i: "?i < unat (ht_size ht)" by (rule key_bucket_less [OF nz])
  have pi: "p \<in> set (cs ?i)" using p cs ht_ok_in_bucket [OF cs(1)] by blast
  have ch: "is_chain h (ht_buckets ht ?i) (cs ?i)" "distinct (map (key_at h) (cs ?i))"
    "\<And>q. q \<in> set (cs ?i) \<Longrightarrow> key_bucket ht (key_at h q) = ?i"
    using cs(1) i by (simp_all add: ht_ok_def)
  obtain us vs where sp: "cs ?i = us @ p # vs" using pi by (meson split_list)
  have us: "\<forall>u \<in> set us. key_at h u \<noteq> tuple_key key" 
  proof -
    have "tuple_key key \<notin> key_at h ` set us" using ch(2) unfolding sp by (simp add: p(2))
    then show ?thesis by (metis imageI)
  qed
  have dist: "distinct (us @ p # vs)" using ch(2) sp by (metis distinct_map)
  obtain h' p' where h': "chain_remove h (ht_buckets ht ?i) 0 (ht_buckets ht ?i) key = ret (True, h', p')"
    "is_chain h' p' (us @ vs)" "h' p = None" "\<And>x. x \<noteq> p \<Longrightarrow> same_but_next h h' x"
    "\<And>x. x \<notin> set (us @ [p]) \<Longrightarrow> h' x = h x"
    using chain_remove_some [OF ch(1) [unfolded sp] us p(2) dist] by blast
  let ?ht = "ht\<lparr>ht_buckets := (ht_buckets ht)(?i := p'), ht_entries := ht_entries ht - 1\<rparr>"
  have run: "hashtable_remove h (Some ht) key = ret (0, h', Some ?ht)"
    by (simp add: hashtable_remove_def bucket_idx_ok [OF nz] h'(1))
  have key: "key_at h' q = key_at h q" if "q \<in> set (cs j)" "q \<noteq> p" for q j
    using ht_ok_alloc [OF cs(1) that(1)] same_but_next_key [OF h'(4) [OF that(2)]] by blast
  have other: "q \<notin> set (us @ [p])" if "q \<in> set (cs j)" "j \<noteq> ?i" for q j
  proof
    assume "q \<in> set (us @ [p])"
    then have "q \<in> set (cs ?i)" using sp by auto
    then show False using ht_ok_key [OF cs(1) that(1)] ht_ok_key [OF cs(1), of q ?i] that(2) by simp
  qed
  have mk: "map (key_at h') (us @ vs) = map (key_at h) (us @ vs)"
    using key [of _ ?i] sp dist by auto
  have "ht_ok h' ?ht (cs(?i := us @ vs))"
    unfolding ht_ok_def
  proof (intro conjI allI impI)
    fix j assume j: "j < unat (ht_size ?ht)"
    show "is_chain h' (ht_buckets ?ht j) ((cs(?i := us @ vs)) j)"
    proof (cases "j = ?i")
      case False
      have "is_chain h (ht_buckets ht j) (cs j)" using cs(1) j by (simp add: ht_ok_def)
      then have "is_chain h' (ht_buckets ht j) (cs j)"
        by (rule is_chain_cong) (use other False h'(5) in blast)
      then show ?thesis using False by simp
    qed (simp add: h'(2))
    show "distinct (map (key_at h') ((cs(?i := us @ vs)) j))"
    proof (cases "j = ?i")
      case True
      then show ?thesis using ch(2) sp by (simp add: mk del: map_append) simp
    next
      case False
      have mj: "map (key_at h') (cs j) = map (key_at h) (cs j)"
        using key other False by (intro map_cong refl) (metis in_set_conv_decomp)
      have "distinct (map (key_at h) (cs j))" using cs(1) j by (simp add: ht_ok_def)
      then show ?thesis by (simp only: fun_upd_other [OF False] mj)
    qed
    show "\<forall>q \<in> set ((cs(?i := us @ vs)) j). key_bucket ?ht (key_at h' q) = j"
    proof (cases "j = ?i")
      case True
      have "key_bucket ht (key_at h' q) = ?i" if "q \<in> set (us @ vs)" for q
      proof -
        have "q \<in> set (cs ?i)" "q \<noteq> p" using that sp dist by auto
        then show ?thesis using ch(3) key by simp
      qed
      with True show ?thesis by simp
    next
      case False
      then have "key_at h' q = key_at h q" if "q \<in> set (cs j)" for q
        using that key other by (metis in_set_conv_decomp)
      then show ?thesis using cs(1) j False by (simp add: ht_ok_def)
    qed
  qed (use nz cs(1) i in \<open>auto simp: ht_ok_def\<close>)
  moreover have "P - {p} = (\<Union>j. set ((cs(?i := us @ vs)) j))"
  proof -
    have "p \<notin> set (cs j)" if "j \<noteq> ?i" for j using other [of p j] that by auto
    then show ?thesis using cs(2) sp dist by (auto split: if_splits) (metis Un_iff insert_iff list.simps(15) set_append)+
  qed
  ultimately have "ht_rep h' ?ht (P - {p})" unfolding ht_rep_def by blast
  moreover have "h' q = h q" if "q \<notin> P" for q
    using that cs(2) sp h'(5) [of q] by (metis UN_I UNIV_I Un_iff empty_iff empty_set insert_iff list.simps(15) set_append)
  ultimately show ?thesis using run h' by (intro exI [of _ h'] exI [of _ ?ht]) simp
qed

lemma hashtable_remove_miss:
  assumes rep: "ht_rep h ht P" and "\<forall>q \<in> P. key_at h q \<noteq> tuple_key key"
  shows "hashtable_remove h (Some ht) key = ret (-1, h, Some ht)"
proof -
  obtain cs where cs: "ht_ok h ht cs" "P = (\<Union>i. set (cs i))" using rep by (auto simp: ht_rep_def)
  let ?i = "key_bucket ht key"
  have nz: "ht_size ht \<noteq> 0" using cs(1) by (simp add: ht_ok_def)
  have "?i < unat (ht_size ht)" by (rule key_bucket_less [OF nz])
  then have "is_chain h (ht_buckets ht ?i) (cs ?i)" using cs(1) by (simp add: ht_ok_def)
  then show ?thesis using assms(2) cs(2)
    by (simp add: hashtable_remove_def bucket_idx_ok [OF nz] chain_remove_none)
qed

section \<open>Freeing and visiting every entry\<close>

definition free_all :: "conn_heap \<Rightarrow> nat set \<Rightarrow> conn_heap" where
  "free_all h P = (\<lambda>x. if x \<in> P then None else h x)"

lemma free_all_simps [simp]:
  "x \<in> P \<Longrightarrow> free_all h P x = None" "x \<notin> P \<Longrightarrow> free_all h P x = h x" "free_all h {} = h"
  by (simp_all add: free_all_def)

lemma free_all_Un: "free_all (free_all h P) Q = free_all h (P \<union> Q)"
  by (auto simp: free_all_def)

lemma chain_free_eq: "is_chain h p qs \<Longrightarrow> distinct qs \<Longrightarrow> chain_free h p = ret (free_all h (set qs))"
proof (induction qs arbitrary: h p)
  case Nil
  then show ?case by (simp add: chain_free.simps)
next
  case (Cons q qs)
  then obtain e where e: "p = q" "q \<noteq> 0" "h q = Some e" "is_chain h (ce_next e) qs" by auto
  have "is_chain (h(q := None)) (ce_next e) qs"
    by (rule is_chain_cong [OF e(4)]) (use Cons.prems(2) in auto)
  from Cons.IH [OF this] Cons.prems(2)
  have "chain_free (h(q := None)) (ce_next e) = ret (free_all (h(q := None)) (set qs))"
    by (simp del: fun_upd_apply)
  moreover have "free_all (h(q := None)) (set qs) = free_all h (set (q # qs))" by (auto simp: free_all_def)
  ultimately show ?case by (subst chain_free.simps) (simp add: e)
qed

lemma ht_ok_chain:
  "ht_ok h ht cs \<Longrightarrow> i < unat (ht_size ht) \<Longrightarrow> is_chain h (ht_buckets ht i) (cs i) \<and> distinct (cs i)"
  unfolding ht_ok_def by (metis distinct_map)

lemma ht_ok_disjoint: "ht_ok h ht cs \<Longrightarrow> i \<noteq> j \<Longrightarrow> set (cs i) \<inter> set (cs j) = {}"
  using ht_ok_key by blast

lemma free_buckets_eq:
  assumes "ht_ok h0 ht cs" "distinct is" "\<forall>i \<in> set is. i < unat (ht_size ht)"
    "\<forall>i \<in> set is. \<forall>q \<in> set (cs i). h q = h0 q"
  shows "free_buckets h (ht_buckets ht) is = ret (free_all h (\<Union>i \<in> set is. set (cs i)))"
  using assms
proof (induction "is" arbitrary: h)
  case (Cons i "is")
  have ch: "is_chain h0 (ht_buckets ht i) (cs i)" "distinct (cs i)" using ht_ok_chain Cons.prems by auto
  have "is_chain h (ht_buckets ht i) (cs i)" by (rule is_chain_cong [OF ch(1)]) (use Cons.prems(4) in auto)
  then have f: "chain_free h (ht_buckets ht i) = ret (free_all h (set (cs i)))" using ch(2) by (rule chain_free_eq)
  have "free_buckets (free_all h (set (cs i))) (ht_buckets ht) is =
      ret (free_all (free_all h (set (cs i))) (\<Union>i \<in> set is. set (cs i)))"
  proof (rule Cons.IH [OF Cons.prems(1)])
    show "\<forall>j \<in> set is. \<forall>q \<in> set (cs j). free_all h (set (cs i)) q = h0 q"
    proof (intro ballI)
      fix j q assume jq: "j \<in> set is" "q \<in> set (cs j)"
      then have "j \<noteq> i" using Cons.prems(2) by auto
      then have "q \<notin> set (cs i)" using ht_ok_disjoint [OF Cons.prems(1)] jq(2) by blast
      then show "free_all h (set (cs i)) q = h0 q" using Cons.prems(4) jq by simp
    qed
  qed (use Cons.prems in auto)
  then show ?case using f by (simp add: free_all_Un)
qed simp

lemma ht_ok_union: "ht_ok h ht cs \<Longrightarrow> (\<Union>i. set (cs i)) = (\<Union>i \<in> set [0..<unat (ht_size ht)]. set (cs i))"
  using ht_ok_range by fastforce

lemma hashtable_free_spec:
  assumes "ht_rep h ht P"
  shows "free_buckets h (ht_buckets ht) [0..<unat (ht_size ht)] = ret (free_all h P)"
proof -
  obtain cs where cs: "ht_ok h ht cs" "P = (\<Union>i. set (cs i))" using assms by (auto simp: ht_rep_def)
  have "P = (\<Union>i \<in> set [0..<unat (ht_size ht)]. set (cs i))"
    using cs(2) ht_ok_union [OF cs(1)] by simp
  with free_buckets_eq [OF cs(1), of "[0..<unat (ht_size ht)]" h] show ?thesis by simp
qed

text \<open>A callback that only reads visits each entry once.\<close>

lemma foreach_chain_eq:
  "is_chain h p qs \<Longrightarrow> foreach_chain (\<lambda>q h s. (0, h, f q s)) h s n p =
    ret (None, n + int (length qs), h, fold f qs s)"
proof (induction qs arbitrary: p s n)
  case Nil
  then show ?case by (simp add: foreach_chain.simps)
next
  case (Cons q qs)
  then obtain e where e: "p = q" "q \<noteq> 0" "h q = Some e" "is_chain h (ce_next e) qs" by auto
  show ?case by (subst foreach_chain.simps) (simp add: e Cons.IH [OF e(4)] algebra_simps)
qed

lemma foreach_buckets_eq:
  assumes "ht_ok h ht cs" "\<forall>i \<in> set is. i < unat (ht_size ht)"
  shows "foreach_buckets (\<lambda>q h s. (0, h, f q s)) (ht_buckets ht) is h s n =
    ret (n + int (length (concat (map cs is))), h, fold f (concat (map cs is)) s)"
  using assms(2)
proof (induction "is" arbitrary: s n)
  case (Cons i "is")
  have "is_chain h (ht_buckets ht i) (cs i)" using ht_ok_chain [OF assms(1)] Cons.prems by auto
  from foreach_chain_eq [OF this, of f s n] Cons show ?case by (simp add: algebra_simps)
qed simp

lemma hashtable_foreach_spec:
  assumes "ht_rep h ht P"
  shows "\<exists>ps. hashtable_foreach (\<lambda>q h s. (0, h, f q s)) h (Some ht) s = ret (int (card P), h, fold f ps s) \<and>
    set ps = P \<and> distinct ps"
proof -
  obtain cs where cs: "ht_ok h ht cs" "P = (\<Union>i. set (cs i))" using assms by (auto simp: ht_rep_def)
  let ?ps = "concat (map cs [0..<unat (ht_size ht)])"
  have "P = (\<Union>i \<in> set [0..<unat (ht_size ht)]. set (cs i))"
    using cs(2) ht_ok_union [OF cs(1)] by simp
  then have ps: "set ?ps = P" by simp
  have "distinct (concat (map cs is))" if "distinct is" "\<forall>i \<in> set is. i < unat (ht_size ht)" for "is"
    using that
  proof (induction "is")
    case (Cons i "is")
    have "set (cs i) \<inter> set (cs j) = {}" if "j \<in> set is" for j
      by (rule ht_ok_disjoint [OF cs(1)]) (use that Cons.prems(1) in auto)
    then have "set (cs i) \<inter> (\<Union>j \<in> set is. set (cs j)) = {}" by blast
    with Cons ht_ok_chain [OF cs(1), of i] show ?case by simp
  qed simp
  then have d: "distinct ?ps" by simp
  have "int (length ?ps) = int (card P)" using ps distinct_card [OF d] by simp
  then show ?thesis using ps d foreach_buckets_eq [OF cs(1), of "[0..<unat (ht_size ht)]" f s 0]
    by (intro exI [of _ ?ps]) (simp add: hashtable_foreach_def)
qed

section \<open>The table as a map\<close>

lemma lookup_0D:
  assumes "ht_rep h ht P" "hashtable_lookup h (Some ht) key = ret 0"
  shows "\<forall>q \<in> P. key_at h q \<noteq> tuple_key key"
  using hashtable_lookup_spec [OF assms(1), of key] assms(2) ht_rep_alloc [OF assms(1)] by fastforce

lemma lookup_ptrD:
  assumes "ht_rep h ht P" "hashtable_lookup h (Some ht) key = ret p" "p \<noteq> 0"
  shows "p \<in> P" "key_at h p = tuple_key key"
  using hashtable_lookup_spec [OF assms(1), of key] assms(2,3) by auto

text \<open>C11: on a well-formed table, \<open>hashtable_insert\<close> of an allocated entry for a key that is not in
  the table makes exactly that key lead to the entry: every other lookup answers as before, the
  invariant holds for one more entry, the counter grows by one, and of the heap only the \<open>next\<close>
  field of the new entry changes.\<close>

theorem hashtable_insert_lookup:
  assumes "ht_rep h ht P" and "p \<noteq> 0" and "p \<notin> P" and "h p = Some e" and "ce_tuple e = key"
    and "hashtable_lookup h (Some ht) key = ret 0"
  shows "\<exists>n ht'. hashtable_insert h (Some ht) key p = ret (0, h(p \<mapsto> e\<lparr>ce_next := n\<rparr>), Some ht') \<and>
    ht_rep (h(p \<mapsto> e\<lparr>ce_next := n\<rparr>)) ht' (insert p P) \<and>
    hashtable_size (Some ht') = hashtable_size (Some ht) + 1 \<and>
    (\<forall>k. hashtable_lookup (h(p \<mapsto> e\<lparr>ce_next := n\<rparr>)) (Some ht') k =
       (if conn_tuple_compare k key = 0 then ret p else hashtable_lookup h (Some ht) k))"
proof -
  note new = lookup_0D [OF assms(1,6)]
  obtain n ht' where r: "hashtable_insert h (Some ht) key p = ret (0, h(p \<mapsto> e\<lparr>ce_next := n\<rparr>), Some ht')"
    "ht_rep (h(p \<mapsto> e\<lparr>ce_next := n\<rparr>)) ht' (insert p P)" "ht_entries ht' = ht_entries ht + 1"
    using hashtable_insert_spec [OF assms(1-4) _ new] assms(5) by blast
  let ?h = "h(p \<mapsto> e\<lparr>ce_next := n\<rparr>)"
  have kp: "key_at ?h p = tuple_key key" using assms(5) by (simp add: key_at_def)
  have ko: "key_at ?h q = key_at h q" if "q \<in> P" for q using that assms(3) by (auto simp: key_at_def)
  have "hashtable_lookup ?h (Some ht') k =
       (if tuple_key k = tuple_key key then ret p else hashtable_lookup h (Some ht) k)" for k
  proof (cases "tuple_key k = tuple_key key")
    case True
    with kp lookup_hit [OF r(2), of p k] show ?thesis by simp
  next
    case False
    consider "\<forall>q \<in> P. key_at h q \<noteq> tuple_key k" | q where "q \<in> P" "key_at h q = tuple_key k" by blast
    then show ?thesis
    proof cases
      case 1
      then have "\<forall>q \<in> insert p P. key_at ?h q \<noteq> tuple_key k" using kp ko False by auto
      with False 1 lookup_miss [OF r(2)] lookup_miss [OF assms(1)] show ?thesis by simp
    next
      case 2
      with ko have "q \<in> insert p P" "key_at ?h q = tuple_key k" by auto
      with False 2 lookup_hit [OF r(2)] lookup_hit [OF assms(1)] show ?thesis by simp
    qed
  qed
  with r show ?thesis by (intro exI [of _ n] exI [of _ ht']) (simp add: hashtable_size_def conn_tuple_compare_0)
qed

text \<open>C12: \<open>hashtable_remove\<close> of a key that a lookup finds unlinks and frees that entry, makes exactly
  that key disappear from later lookups, and changes nothing but \<open>next\<close> fields in the entries that
  remain; of a key that is absent it changes nothing and returns -1.\<close>

theorem hashtable_remove_lookup:
  assumes "ht_rep h ht P" and "hashtable_lookup h (Some ht) key = ret p"
  shows "if p = 0 then hashtable_remove h (Some ht) key = ret (-1, h, Some ht)
    else \<exists>h' ht'. hashtable_remove h (Some ht) key = ret (0, h', Some ht') \<and>
      ht_rep h' ht' (P - {p}) \<and> h' p = None \<and> (\<forall>q. q \<noteq> p \<longrightarrow> same_but_next h h' q) \<and>
      hashtable_size (Some ht') = hashtable_size (Some ht) - 1 \<and>
      (\<forall>k. hashtable_lookup h' (Some ht') k =
         (if conn_tuple_compare k key = 0 then ret 0 else hashtable_lookup h (Some ht) k))"
proof (cases "p = 0")
  case True
  then have "\<forall>q \<in> P. key_at h q \<noteq> tuple_key key" using lookup_0D [OF assms(1)] assms(2) by simp
  with hashtable_remove_miss [OF assms(1)] True show ?thesis by simp
next
  case False
  note p = lookup_ptrD [OF assms False]
  obtain h' ht' where r: "hashtable_remove h (Some ht) key = ret (0, h', Some ht')"
    "ht_rep h' ht' (P - {p})" "h' p = None" "\<forall>q. q \<noteq> p \<longrightarrow> same_but_next h h' q"
    "ht_entries ht' = ht_entries ht - 1"
    using hashtable_remove_spec [OF assms(1) p] by blast
  have ko: "key_at h' q = key_at h q" if q: "q \<in> P - {p}" for q
  proof -
    obtain e where e: "h q = Some e" using ht_rep_alloc [OF assms(1), of q] q by auto
    have "same_but_next h h' q" using r(4) q by simp
    then show ?thesis using e by (rule same_but_next_key)
  qed
  have "hashtable_lookup h' (Some ht') k =
       (if tuple_key k = tuple_key key then ret 0 else hashtable_lookup h (Some ht) k)" for k
  proof (cases "\<exists>q \<in> P. key_at h q = tuple_key k")
    case None: False
    then have "\<forall>q \<in> P - {p}. key_at h' q \<noteq> tuple_key k" using ko by auto
    with None lookup_miss [OF r(2)] lookup_miss [OF assms(1)] show ?thesis by simp
  next
    case True
    then obtain q where q: "q \<in> P" "key_at h q = tuple_key k" by blast
    show ?thesis
    proof (cases "q = p")
      case True
      have "key_at h' x \<noteq> tuple_key k" if x: "x \<in> P - {p}" for x
        using ko [OF x] q True ht_rep_inj [OF assms(1), of x p] p(1) x by auto
      then have "\<forall>x \<in> P - {p}. key_at h' x \<noteq> tuple_key k" by blast
      with lookup_miss [OF r(2)] True q(2) p(2) show ?thesis by simp
    next
      case ne: False
      then have "tuple_key k \<noteq> tuple_key key" using ht_rep_inj [OF assms(1) q(1) p(1)] q(2) p(2) by auto
      with ne q ko lookup_hit [OF r(2), of q k] lookup_hit [OF assms(1) q] show ?thesis by simp
    qed
  qed
  then have "\<forall>k. hashtable_lookup h' (Some ht') k =
       (if conn_tuple_compare k key = 0 then ret 0 else hashtable_lookup h (Some ht) k)"
    by (simp add: conn_tuple_compare_0)
  moreover have "hashtable_size (Some ht') = hashtable_size (Some ht) - 1"
    using r(5) by (simp add: hashtable_size_def)
  ultimately show ?thesis using r(1-4) False
    by (intro if_not_P [THEN iffD2] exI [of _ h'] exI [of _ ht'] conjI) 
qed

text \<open>\<open>hashtable_clear\<close> and \<open>hashtable_destroy\<close> end, free every linked entry exactly once and
  nothing else, and a cleared table is empty again; a walk with \<open>hashtable_foreach\<close> visits every
  linked entry exactly once and returns their number.\<close>

theorem hashtable_clear_foreach:
  assumes "ht_rep h ht P"
  shows "hashtable_destroy h (Some ht) = ret (free_all h P) \<and>
    (\<exists>ht'. hashtable_clear h (Some ht) = ret (free_all h P, Some ht') \<and> ht_rep (free_all h P) ht' {} \<and>
      hashtable_size (Some ht') = 0) \<and>
    (\<exists>ps. hashtable_foreach (\<lambda>q h s. (0, h, s @ [q])) h (Some ht) [] = ret (int (card P), h, ps) \<and>
      set ps = P \<and> distinct ps)"
proof (intro conjI)
  note f = hashtable_free_spec [OF assms]
  show "hashtable_destroy h (Some ht) = ret (free_all h P)" by (simp add: hashtable_destroy_def f)
  have "ht_size ht \<noteq> 0" using assms by (auto simp: ht_rep_def ht_ok_def)
  then have "ht_rep (free_all h P)
      (ht\<lparr>ht_buckets := (\<lambda>i. if i < unat (ht_size ht) then 0 else ht_buckets ht i), ht_entries := 0\<rparr>) {}"
    unfolding ht_rep_def ht_ok_def by (intro exI [of _ "\<lambda>_. []"]) simp
  then show "\<exists>ht'. hashtable_clear h (Some ht) = ret (free_all h P, Some ht') \<and> ht_rep (free_all h P) ht' {} \<and>
      hashtable_size (Some ht') = 0"
    by (simp add: hashtable_clear_def f hashtable_size_def)
  have fold: "fold (\<lambda>q s. s @ [q]) ps s = s @ ps" for ps :: "nat list" and s
    by (induction ps arbitrary: s) simp_all
  show "\<exists>ps. hashtable_foreach (\<lambda>q h s. (0, h, s @ [q])) h (Some ht) [] = ret (int (card P), h, ps) \<and>
      set ps = P \<and> distinct ps"
    using hashtable_foreach_spec [OF assms, of "\<lambda>q s. s @ [q]" "[]"] by (simp add: fold)
qed

text \<open>\<open>hashtable_insert\<close> for a key that is already in the table copies the new entry over the old
  one, its \<open>next\<close> field included (the line meant to preserve the list assigns the field to itself):
  when the new entry is fresh, every entry that followed in the chain is lost to later lookups.\<close>

theorem hashtable_insert_update_drops_chain:
  assumes "ht_ok h ht cs" and "cs i = us @ p # vs" and "q \<in> set vs" and "i < unat (ht_size ht)"
    and "key_at h p = tuple_key key" and "r \<noteq> 0" and "h r = Some e" and "ce_tuple e = key" and "ce_next e = 0"
  shows "hashtable_lookup h (Some ht) (ce_tuple (the (h q))) = ret q \<and>
    (\<exists>h'. hashtable_insert h (Some ht) key r = ret (0, h', Some ht) \<and>
       hashtable_lookup h' (Some ht) (ce_tuple (the (h q))) = ret 0)"
proof -
  let ?P = "\<Union>i. set (cs i)"
  have rep: "ht_rep h ht ?P" using assms(1) by (auto simp: ht_rep_def)
  have nz: "ht_size ht \<noteq> 0" using assms(1) by (simp add: ht_ok_def)
  have inP: "p \<in> ?P" "q \<in> ?P" "\<forall>u \<in> set us. u \<in> ?P"
    using assms(2,3) by (auto intro!: exI [of _ i])
  have ip: "i = key_bucket ht key" using ht_ok_in_bucket [OF assms(1), of p i key] assms(2,5) by simp
  let ?kq = "ce_tuple (the (h q))"
  have iq: "i = key_bucket ht ?kq"
    using ht_ok_in_bucket [OF assms(1), of q i ?kq] assms(2,3) by (simp add: key_at_def)
  have ch: "is_chain h (ht_buckets ht i) (cs i)" "distinct (cs i)" using ht_ok_chain [OF assms(1,4)] by auto
  have p0: "p \<noteq> 0" using ht_rep_alloc [OF rep inP(1)] by blast
  have kd: "key_at h x \<noteq> key_at h q" if "x \<in> set us \<union> {p}" for x
  proof
    assume "key_at h x = key_at h q"
    moreover have "x \<in> ?P" using that inP(1,3) by auto
    ultimately have "x = q" using ht_rep_inj [OF rep _ inP(2)] by blast
    then show False using that ch(2) assms(2,3) by auto
  qed
  have "hashtable_lookup h (Some ht) key = ret p" by (rule lookup_hit [OF rep inP(1) assms(5)])
  then have cf: "chain_find h (ht_buckets ht i) key = ret p"
    by (simp add: hashtable_lookup_def bucket_idx_ok [OF nz] ip)
  obtain ep where ep: "h p = Some ep" using ht_rep_alloc [OF rep inP(1)] by blast
  let ?h = "h(p \<mapsto> e)"
  have run: "hashtable_insert h (Some ht) key r = ret (0, ?h, Some ht)"
    using cf p0 assms(6,7) ep
    by (simp add: hashtable_insert_def bucket_idx_ok [OF nz] ip [symmetric] hread_def hwrite_def)
  have cut: "is_chain ?h x (us @ [p])" if "is_chain h x (us @ p # vs)" "p \<notin> set us" for x
    using that
  proof (induction us arbitrary: x)
    case Nil
    then show ?case using assms(9) by simp
  qed auto
  have c': "is_chain ?h (ht_buckets ht i) (us @ [p])" using cut ch assms(2) by auto
  have "key_at ?h x \<noteq> tuple_key ?kq" if "x \<in> set (us @ [p])" for x
  proof -
    have "key_at ?h x = key_at h x" using assms(5,8) by (cases "x = p") (auto simp: key_at_def)
    moreover have "tuple_key ?kq = key_at h q" by (simp add: key_at_def)
    ultimately show ?thesis using kd that by auto
  qed
  then have "find (\<lambda>x. key_at ?h x = tuple_key ?kq) (us @ [p]) = None"
    unfolding find_None_iff by blast
  then have "chain_find ?h (ht_buckets ht i) ?kq = ret 0" by (simp only: chain_find_eq [OF c'] option.case)
  then have "hashtable_lookup ?h (Some ht) ?kq = ret 0"
    by (simp add: hashtable_lookup_def bucket_idx_ok [OF nz] iq [symmetric] del: fun_upd_apply)
  moreover have "hashtable_lookup h (Some ht) ?kq = ret q"
    by (rule lookup_hit [OF rep inP(2)]) (simp add: key_at_def)
  ultimately show ?thesis using run by blast
qed

section \<open>A concrete table\<close>

text \<open>One bucket, the chain of two connections at addresses 7 and 8, and an unlinked entry at 9.\<close>

definition example_tuple :: "u16 \<Rightarrow> conn_tuple" where
  "example_tuple port = \<lparr>ct_src_ip = \<lparr>family = AF_INET, ip_bits = 0x010200C0\<rparr>,
     ct_dst_ip = \<lparr>family = AF_INET, ip_bits = 0x0100000A\<rparr>, ct_src_port = port, ct_dst_port = 443,
     ct_protocol = PROTO_TCP\<rparr>"

definition example_conn :: "u16 \<Rightarrow> nat \<Rightarrow> nat \<Rightarrow> nat \<Rightarrow> conn_entry" where
  "example_conn port nxt prv lnx = \<lparr>ce_tuple = example_tuple port, ce_state = TCP_STATE_CLOSED,
     ce_first_seen = 0, ce_last_seen = 0, ce_packets = 0, ce_bytes = 0, ce_flags = 0, ce_next = nxt,
     lru_prev = prv, lru_next = lnx\<rparr>"

definition example_heap :: conn_heap where
  "example_heap = [7 \<mapsto> example_conn 1 8 0 0, 8 \<mapsto> example_conn 2 0 0 0, 9 \<mapsto> example_conn 1 0 0 0,
     10 \<mapsto> example_conn 3 0 0 0]"

definition example_table :: hashtable where
  "example_table = \<lparr>ht_buckets = (\<lambda>_. 7), ht_size = 1, ht_entries = 2\<rparr>"

definition example_chains :: "nat \<Rightarrow> nat list" where
  "example_chains i = (if i = 0 then [7, 8] else [])"

lemma tuple_key_example: "tuple_key (example_tuple p) = tuple_key (example_tuple q) \<longleftrightarrow> p = q"
  by (simp add: tuple_key_def example_tuple_def)

lemma key_bucket_1 [simp]: "ht_size ht = 1 \<Longrightarrow> key_bucket ht k = 0"
  by (simp add: key_bucket_def)

lemma example_conn_simps [simp]:
  "ce_tuple (example_conn p n a b) = example_tuple p" "ce_next (example_conn p n a b) = n"
  "lru_prev (example_conn p n a b) = a" "lru_next (example_conn p n a b) = b"
  by (simp_all add: example_conn_def)

lemma example_ht_ok: "ht_ok example_heap example_table example_chains"
  by (simp add: ht_ok_def example_table_def example_chains_def example_heap_def key_at_def
      tuple_key_example)

lemma example_ht_rep: "ht_rep example_heap example_table {7, 8}"
proof -
  have "{7, 8} = (\<Union>i. set (example_chains i))"
    by (auto simp: example_chains_def split: if_splits)
  then show ?thesis using example_ht_ok unfolding ht_rep_def by blast
qed

lemma example_lookup:
  "hashtable_lookup example_heap (Some example_table) (example_tuple 3) = ret 0"
  "hashtable_lookup example_heap (Some example_table) (example_tuple 2) = ret 8"
  by (rule lookup_miss [OF example_ht_rep], simp add: key_at_def example_heap_def tuple_key_example)
    (rule lookup_hit [OF example_ht_rep], simp_all add: key_at_def example_heap_def)

theorem hashtable_insert_lookup_witness:
  "\<exists>h ht'. hashtable_insert example_heap (Some example_table) (example_tuple 3) 10 = ret (0, h, Some ht') \<and>
     ht_rep h ht' {7, 8, 10} \<and>
     hashtable_lookup h (Some ht') (example_tuple 3) = ret 10 \<and>
     hashtable_lookup h (Some ht') (example_tuple 2) = ret 8"
proof -
  have c: "conn_tuple_compare (example_tuple 3) (example_tuple 3) = 0"
    "conn_tuple_compare (example_tuple 2) (example_tuple 3) \<noteq> 0"
    by (simp_all add: conn_tuple_compare_0 tuple_key_example)
  have "insert 10 {7, 8} = {7, 8, 10 :: nat}" by auto
  then show ?thesis
    using hashtable_insert_lookup [OF example_ht_rep, of 10 "example_conn 3 0 0 0" "example_tuple 3"]
      example_lookup c
    by (auto simp: example_heap_def)
qed

theorem hashtable_remove_lookup_witness:
  "\<exists>h ht'. hashtable_remove example_heap (Some example_table) (example_tuple 2) = ret (0, h, Some ht') \<and>
     ht_rep h ht' {7} \<and> h 8 = None \<and> hashtable_lookup h (Some ht') (example_tuple 2) = ret 0"
proof -
  have "{7, 8} - {8} = {7 :: nat}" by auto
  moreover have "conn_tuple_compare (example_tuple 2) (example_tuple 2) = 0"
    by (simp add: conn_tuple_compare_0)
  ultimately show ?thesis
    using hashtable_remove_lookup [OF example_ht_rep example_lookup(2)] by auto
qed

theorem hashtable_clear_foreach_witness:
  "\<exists>ht'. hashtable_clear example_heap (Some example_table) = ret (free_all example_heap {7, 8}, Some ht') \<and>
     hashtable_size (Some ht') = 0"
  using hashtable_clear_foreach [OF example_ht_rep] by blast

theorem hashtable_insert_update_drops_chain_witness:
  "\<exists>h'. hashtable_insert example_heap (Some example_table) (example_tuple 1) 9 = ret (0, h', Some example_table) \<and>
     hashtable_lookup h' (Some example_table) (example_tuple 2) = ret 0"
  using hashtable_insert_update_drops_chain [OF example_ht_ok, of 0 "[]" 7 "[8]" 8 "example_tuple 1" 9
      "example_conn 1 0 0 0"]
  by (simp add: example_chains_def example_table_def example_heap_def key_at_def)

end
