(* ===== verification/LruCache.thy ===== *)
theory LruCache
  imports ConnTable
begin

text \<open>
  \<open>src/storage/lru_cache.c\<close>: the connection cache, a hash table whose entries are also linked in
  a doubly linked list from the most to the least recently used. \<open>time(NULL)\<close> and the address
  that \<open>calloc\<close> returns (0: it failed) are arguments.
\<close>

section \<open>State and operations\<close>

record lru_cache =
  lru_table :: "hashtable option"
  lru_head :: nat
  lru_tail :: nat
  lru_max_size :: u32
  lru_current_size :: u32

definition zero_conn :: "conn_tuple \<Rightarrow> conn_entry" where
  "zero_conn key = \<lparr>ce_tuple = key, ce_state = TCP_STATE_SYN_SENT, ce_first_seen = 0, ce_last_seen = 0,
     ce_packets = 0, ce_bytes = 0, ce_flags = 0, ce_next = 0, lru_prev = 0, lru_next = 0\<rparr>"

definition lru_cache_create :: "bool \<Rightarrow> bool \<Rightarrow> bool \<Rightarrow> u32 \<Rightarrow> lru_cache option" where
  "lru_cache_create calloc_ok table_ok buckets_ok limit =
     (if \<not> calloc_ok then None
      else case hashtable_create table_ok buckets_ok limit of
        None \<Rightarrow> None
      | Some t \<Rightarrow> Some \<lparr>lru_table = Some t, lru_head = 0, lru_tail = 0, lru_max_size = limit,
                        lru_current_size = 0\<rparr>)"

text \<open>The loop of \<open>lru_cache_destroy\<close> over the list, and the destruction of the table after it.\<close>

partial_function (option) list_free :: "conn_heap \<Rightarrow> nat \<Rightarrow> conn_heap run" where
  "list_free h p =
     (if p = 0 then ret h
      else case h p of
        None \<Rightarrow> fail UseAfterFree
      | Some e \<Rightarrow> list_free (h(p := None)) (lru_next e))"

definition lru_cache_destroy :: "conn_heap \<Rightarrow> lru_cache option \<Rightarrow> conn_heap run" where
  "lru_cache_destroy h cp =
     (case cp of
        None \<Rightarrow> ret h
      | Some c \<Rightarrow> bindM (list_free h (lru_head c)) (\<lambda>h1. hashtable_destroy h1 (lru_table c)))"

text \<open>\<open>if (p) p->field = v\<close>.\<close>

definition hwrite_if :: "conn_heap \<Rightarrow> nat \<Rightarrow> (conn_entry \<Rightarrow> conn_entry) \<Rightarrow> conn_heap run" where
  "hwrite_if h p f = (if p \<noteq> 0 then hwrite h p f else ret h)"

definition lru_move_to_head :: "conn_heap \<Rightarrow> lru_cache \<Rightarrow> nat \<Rightarrow> (conn_heap \<times> lru_cache) run" where
  "lru_move_to_head h c p =
     (if lru_head c = p then ret (h, c)
      else
        bindM (hread h p) (\<lambda>e.
        bindM (hwrite_if h (lru_prev e) (\<lambda>x. x\<lparr>lru_next := lru_next e\<rparr>)) (\<lambda>h1.
        bindM (hread h1 p) (\<lambda>e.
        bindM (hwrite_if h1 (lru_next e) (\<lambda>x. x\<lparr>lru_prev := lru_prev e\<rparr>)) (\<lambda>h2.
        bindM (hread h2 p) (\<lambda>e.
          (let c1 = (if lru_tail c = p then c\<lparr>lru_tail := lru_prev e\<rparr> else c)
           in bindM (hwrite h2 p (\<lambda>x. x\<lparr>lru_next := lru_head c1, lru_prev := 0\<rparr>)) (\<lambda>h3.
              bindM (hwrite_if h3 (lru_head c1) (\<lambda>x. x\<lparr>lru_prev := p\<rparr>)) (\<lambda>h4.
                (let c2 = c1\<lparr>lru_head := p\<rparr>;
                     c3 = (if lru_tail c2 = 0 then c2\<lparr>lru_tail := p\<rparr> else c2)
                 in ret (h4, c3)))))))))))"

text \<open>\<open>lru_evict_lru\<close>: the address of the evicted entry (0: the list is empty).\<close>

definition lru_evict_lru :: "conn_heap \<Rightarrow> lru_cache \<Rightarrow> (nat \<times> conn_heap \<times> lru_cache) run" where
  "lru_evict_lru h c =
     (let p = lru_tail c
      in if p = 0 then ret (0, h, c)
         else
           bindM (hread h p) (\<lambda>e.
           bindM (hwrite_if h (lru_prev e) (\<lambda>x. x\<lparr>lru_next := 0\<rparr>)) (\<lambda>h1.
           bindM (hread h1 p) (\<lambda>e.
             (let c1 = c\<lparr>lru_tail := lru_prev e\<rparr>;
                  c2 = (if lru_head c1 = p then c1\<lparr>lru_head := 0\<rparr> else c1)
              in bindM (hashtable_remove h1 (lru_table c2) (ce_tuple e)) (\<lambda>(_, h2, t).
                   ret (p, h2, c2\<lparr>lru_table := t, lru_current_size := lru_current_size c2 - 1\<rparr>)))))))"

definition lru_cache_get ::
    "time_t \<Rightarrow> nat \<Rightarrow> conn_heap \<Rightarrow> lru_cache option \<Rightarrow> conn_tuple \<Rightarrow> (nat \<times> conn_heap \<times> lru_cache option) run"
where
  "lru_cache_get now fresh h cp key =
     (case cp of
        None \<Rightarrow> ret (0, h, None)
      | Some c \<Rightarrow>
          bindM (hashtable_lookup h (lru_table c) key) (\<lambda>p.
            if p \<noteq> 0 then
              bindM (lru_move_to_head h c p) (\<lambda>(h1, c1).
              bindM (hwrite h1 p (\<lambda>x. x\<lparr>ce_last_seen := now\<rparr>)) (\<lambda>h2. ret (p, h2, Some c1)))
            else if fresh = 0 then ret (0, h, Some c)
            else
              (let e = (zero_conn key)\<lparr>ce_first_seen := now, ce_last_seen := now, ce_packets := 0,
                         ce_bytes := 0, ce_state := TCP_STATE_CLOSED\<rparr>;
                   h0 = h(fresh \<mapsto> e)
               in bindM
                    (if lru_max_size c \<le> lru_current_size c then
                       bindM (lru_evict_lru h0 c) (\<lambda>(evicted, h1, c1).
                         if evicted \<noteq> 0 then bindM (hfree h1 evicted) (\<lambda>h2. ret (h2, c1))
                         else ret (h1, c1))
                     else ret (h0, c))
                    (\<lambda>(h3, c3).
                      bindM (hashtable_insert h3 (lru_table c3) key fresh) (\<lambda>(_, h4, t).
                      bindM (hwrite h4 fresh (\<lambda>x. x\<lparr>lru_next := lru_head c3, lru_prev := 0\<rparr>)) (\<lambda>h5.
                      bindM (hwrite_if h5 (lru_head c3) (\<lambda>x. x\<lparr>lru_prev := fresh\<rparr>)) (\<lambda>h6.
                        (let c4 = c3\<lparr>lru_table := t, lru_head := fresh\<rparr>;
                             c5 = (if lru_tail c4 = 0 then c4\<lparr>lru_tail := fresh\<rparr> else c4);
                             c6 = c5\<lparr>lru_current_size := lru_current_size c5 + 1\<rparr>
                         in ret (fresh, h6, Some c6)))))))))"

definition lru_cache_update ::
    "time_t \<Rightarrow> conn_heap \<Rightarrow> lru_cache option \<Rightarrow> nat \<Rightarrow> (int \<times> conn_heap \<times> lru_cache option) run" where
  "lru_cache_update now h cp p =
     (case cp of
        None \<Rightarrow> ret (-1, h, None)
      | Some c \<Rightarrow>
          if p = 0 then ret (-1, h, Some c)
          else
            bindM (lru_move_to_head h c p) (\<lambda>(h1, c1).
            bindM (hwrite h1 p (\<lambda>x. x\<lparr>ce_last_seen := now\<rparr>)) (\<lambda>h2. ret (0, h2, Some c1))))"

text \<open>The unlinking that \<open>lru_cache_remove\<close> and \<open>lru_cache_cleanup_expired\<close> repeat.\<close>

definition lru_unlink :: "conn_heap \<Rightarrow> lru_cache \<Rightarrow> nat \<Rightarrow> (conn_heap \<times> lru_cache) run" where
  "lru_unlink h c p =
     bindM (hread h p) (\<lambda>e.
     bindM (hwrite_if h (lru_prev e) (\<lambda>x. x\<lparr>lru_next := lru_next e\<rparr>)) (\<lambda>h1.
     bindM (hread h1 p) (\<lambda>e.
     bindM (hwrite_if h1 (lru_next e) (\<lambda>x. x\<lparr>lru_prev := lru_prev e\<rparr>)) (\<lambda>h2.
     bindM (hread h2 p) (\<lambda>e.
       (let c1 = (if lru_head c = p then c\<lparr>lru_head := lru_next e\<rparr> else c);
            c2 = (if lru_tail c1 = p then c1\<lparr>lru_tail := lru_prev e\<rparr> else c1)
        in ret (h2, c2)))))))"

definition lru_cache_remove ::
    "conn_heap \<Rightarrow> lru_cache option \<Rightarrow> conn_tuple \<Rightarrow> (int \<times> conn_heap \<times> lru_cache option) run" where
  "lru_cache_remove h cp key =
     (case cp of
        None \<Rightarrow> ret (-1, h, None)
      | Some c \<Rightarrow>
          bindM (hashtable_lookup h (lru_table c) key) (\<lambda>p.
            if p = 0 then ret (-1, h, Some c)
            else
              bindM (lru_unlink h c p) (\<lambda>(h1, c1).
              bindM (hashtable_remove h1 (lru_table c1) key) (\<lambda>(_, h2, t).
              bindM (hfree h2 p) (\<lambda>h3.
                ret (0, h3, Some (c1\<lparr>lru_table := t, lru_current_size := lru_current_size c1 - 1\<rparr>)))))))"

definition lru_cache_size :: "lru_cache option \<Rightarrow> u32" where
  "lru_cache_size cp = (case cp of None \<Rightarrow> 0 | Some c \<Rightarrow> lru_current_size c)"

definition TCP_SYN_TIMEOUT :: time_t where "TCP_SYN_TIMEOUT = 30"
definition TCP_ESTABLISHED_TIMEOUT :: time_t where "TCP_ESTABLISHED_TIMEOUT = 7200"
definition TCP_FIN_TIMEOUT :: time_t where "TCP_FIN_TIMEOUT = 30"
definition UDP_TIMEOUT :: time_t where "UDP_TIMEOUT = 60"
definition ICMP_TIMEOUT :: time_t where "ICMP_TIMEOUT = 10"

lemmas timeout_defs = TCP_SYN_TIMEOUT_def TCP_ESTABLISHED_TIMEOUT_def TCP_FIN_TIMEOUT_def
  UDP_TIMEOUT_def ICMP_TIMEOUT_def

definition conn_timeout :: "conn_entry \<Rightarrow> time_t" where
  "conn_timeout e =
     (if ct_protocol (ce_tuple e) = PROTO_TCP then
        (case ce_state e of
           TCP_STATE_SYN_SENT \<Rightarrow> TCP_SYN_TIMEOUT
         | TCP_STATE_SYN_RECEIVED \<Rightarrow> TCP_SYN_TIMEOUT
         | TCP_STATE_ESTABLISHED \<Rightarrow> TCP_ESTABLISHED_TIMEOUT
         | TCP_STATE_FIN_WAIT \<Rightarrow> TCP_FIN_TIMEOUT
         | TCP_STATE_CLOSE_WAIT \<Rightarrow> TCP_FIN_TIMEOUT
         | _ \<Rightarrow> TCP_SYN_TIMEOUT)
      else if ct_protocol (ce_tuple e) = PROTO_UDP then UDP_TIMEOUT
      else if ct_protocol (ce_tuple e) = PROTO_ICMP then ICMP_TIMEOUT
      else UDP_TIMEOUT)"

text \<open>The sweep of \<open>lru_cache_cleanup_expired\<close>, from the tail towards the head.\<close>

definition sweep_entry :: "conn_heap \<Rightarrow> lru_cache \<Rightarrow> nat \<Rightarrow> conn_tuple \<Rightarrow> (conn_heap \<times> lru_cache) run" where
  "sweep_entry h c p key =
     bindM (lru_unlink h c p) (\<lambda>(h1, c1).
     bindM (hashtable_remove h1 (lru_table c1) key) (\<lambda>(_, h2, t).
     bindM (hfree h2 p) (\<lambda>h3. ret (h3, c1\<lparr>lru_table := t, lru_current_size := lru_current_size c1 - 1\<rparr>))))"

partial_function (option) sweep_expired ::
    "time_t \<Rightarrow> nat \<Rightarrow> conn_heap \<Rightarrow> lru_cache \<Rightarrow> int \<Rightarrow> (int \<times> conn_heap \<times> lru_cache) run" where
  "sweep_expired now p h c cleaned =
     (if p = 0 then ret (cleaned, h, c)
      else case h p of
        None \<Rightarrow> fail UseAfterFree
      | Some e \<Rightarrow>
          if now - ce_last_seen e > conn_timeout e then
            (case sweep_entry h c p (ce_tuple e) of
               None \<Rightarrow> None
             | Some (Inl f) \<Rightarrow> fail f
             | Some (Inr r) \<Rightarrow> sweep_expired now (lru_prev e) (fst r) (snd r) (cleaned + 1))
          else sweep_expired now (lru_prev e) h c cleaned)"

definition lru_cache_cleanup_expired ::
    "conn_heap \<Rightarrow> lru_cache option \<Rightarrow> time_t \<Rightarrow> (int \<times> conn_heap \<times> lru_cache option) run" where
  "lru_cache_cleanup_expired h cp now =
     (case cp of
        None \<Rightarrow> ret (-1, h, None)
      | Some c \<Rightarrow>
          bindM (sweep_expired now (lru_tail c) h c 0) (\<lambda>(cleaned, h1, c1). ret (cleaned, h1, Some c1)))"

section \<open>The doubly linked list\<close>

text \<open>\<open>dseg h a xs b\<close>: the entries \<open>xs\<close> are linked in this order, after \<open>a\<close> and before \<open>b\<close>.\<close>

fun dseg :: "conn_heap \<Rightarrow> nat \<Rightarrow> nat list \<Rightarrow> nat \<Rightarrow> bool" where
  "dseg h a [] b \<longleftrightarrow> True"
| "dseg h a (x # xs) b \<longleftrightarrow> x \<noteq> 0 \<and>
     (\<exists>e. h x = Some e \<and> lru_prev e = a \<and> lru_next e = hd (xs @ [b])) \<and> dseg h x xs b"

lemma dseg_append: "dseg h a (xs @ ys) b \<longleftrightarrow> dseg h a xs (hd (ys @ [b])) \<and> dseg h (last (a # xs)) ys b"
  by (induction xs arbitrary: a) (auto simp: hd_append)

lemma dseg_frame: "(\<And>x. x \<in> set xs \<Longrightarrow> h' x = h x) \<Longrightarrow> dseg h' a xs b = dseg h a xs b"
  by (induction xs arbitrary: a) auto

lemma dseg_nonzero: "dseg h a xs b \<Longrightarrow> 0 \<notin> set xs"
  by (induction xs arbitrary: a) auto

text \<open>The two heaps have the same entries up to the links of the list.\<close>

definition relinked :: "conn_entry \<Rightarrow> conn_entry \<Rightarrow> bool" where
  "relinked e e' \<longleftrightarrow> (\<exists>p n. e' = e\<lparr>lru_prev := p, lru_next := n\<rparr>)"

definition links_only :: "conn_heap \<Rightarrow> conn_heap \<Rightarrow> bool" where
  "links_only h h' \<longleftrightarrow> (\<forall>x. rel_option relinked (h x) (h' x))"

lemma relinked_refl [intro, simp]: "relinked e e"
  unfolding relinked_def by (rule exI [of _ "lru_prev e"], rule exI [of _ "lru_next e"]) simp

lemma relinked_trans: "relinked a b \<Longrightarrow> relinked b c \<Longrightarrow> relinked a c"
  unfolding relinked_def by (elim exE, hypsubst) (rule exI, rule exI, simp)

lemma relinked_upd [simp]:
  "relinked e (e\<lparr>lru_prev := p\<rparr>)" "relinked e (e\<lparr>lru_next := n\<rparr>)"
  "relinked e (e\<lparr>lru_next := n, lru_prev := p\<rparr>)"
  unfolding relinked_def
  by (rule exI [of _ p], rule exI [of _ "lru_next e"], simp)
    (rule exI [of _ "lru_prev e"], rule exI [of _ n], simp,
      rule exI [of _ p], rule exI [of _ n], simp)

lemma relinked_fields:
  "relinked e e' \<Longrightarrow> ce_tuple e' = ce_tuple e \<and> ce_next e' = ce_next e \<and> ce_state e' = ce_state e \<and>
    ce_first_seen e' = ce_first_seen e \<and> ce_last_seen e' = ce_last_seen e \<and>
    ce_packets e' = ce_packets e \<and> ce_bytes e' = ce_bytes e \<and> ce_flags e' = ce_flags e"
  by (auto simp: relinked_def)

lemma links_only_refl [intro, simp]: "links_only h h"
  by (simp add: links_only_def option.rel_refl)

lemma links_only_trans: "links_only h h1 \<Longrightarrow> links_only h1 h2 \<Longrightarrow> links_only h h2"
  unfolding links_only_def
proof
  fix x
  assume a: "\<forall>x. rel_option relinked (h x) (h1 x)" "\<forall>x. rel_option relinked (h1 x) (h2 x)"
  show "rel_option relinked (h x) (h2 x)"
    using a [THEN spec [of _ x]]
    by (cases "h x"; cases "h1 x"; cases "h2 x") (auto intro: relinked_trans)
qed

lemma links_only_upd: "h x = Some e \<Longrightarrow> relinked e e' \<Longrightarrow> links_only h (h(x \<mapsto> e'))"
  by (simp add: links_only_def option.rel_refl)

lemma links_only_Some: "links_only h h' \<Longrightarrow> h x = Some e \<Longrightarrow> \<exists>e'. h' x = Some e' \<and> relinked e e'"
  unfolding links_only_def by (metis option_rel_Some1)

lemma links_only_None: "links_only h h' \<Longrightarrow> h x = None \<Longrightarrow> h' x = None"
  unfolding links_only_def by (metis option.rel_distinct(1) option.exhaust)

lemma ht_rep_links:
  assumes "ht_rep h t P" "links_only h h'"
  shows "ht_rep h' t P"
proof (rule ht_rep_cong [OF assms(1)])
  fix q assume "q \<in> P"
  then obtain e where e: "h q = Some e" using ht_rep_alloc [OF assms(1)] by blast
  from links_only_Some [OF assms(2) e] e
  show "\<exists>e e'. h q = Some e \<and> h' q = Some e' \<and> ce_tuple e' = ce_tuple e \<and> ce_next e' = ce_next e"
    by (auto dest: relinked_fields)
qed

lemma key_at_links: "links_only h h' \<Longrightarrow> h q = Some e \<Longrightarrow> key_at h' q = key_at h q"
  by (auto simp: key_at_def dest!: links_only_Some dest: relinked_fields)

text \<open>Writing the forward link of the last entry, and the backward link of the first.\<close>

lemma set_last_next:
  assumes "dseg h a us c" "distinct us"
  shows "\<exists>h1. hwrite_if h (last (0 # us)) (\<lambda>x. x\<lparr>lru_next := b\<rparr>) = ret h1 \<and> dseg h1 a us b \<and>
    (\<forall>x. x \<notin> set us \<longrightarrow> h1 x = h x) \<and> links_only h h1"
proof (cases us rule: rev_cases)
  case Nil
  then show ?thesis by (auto simp: hwrite_if_def)
next
  case (snoc ys y)
  with assms obtain e where e: "y \<noteq> 0" "h y = Some e" "lru_prev e = last (a # ys)" "dseg h a ys y"
    by (auto simp: dseg_append)
  let ?h = "h(y \<mapsto> e\<lparr>lru_next := b\<rparr>)"
  have "dseg ?h a ys y" using e(4) assms(2) snoc by (subst dseg_frame [of _ _ h]) auto
  then have "dseg ?h a us b" using e snoc by (simp add: dseg_append)
  moreover have "links_only h ?h"
    using e(2) by (rule links_only_upd) simp
  ultimately show ?thesis using e snoc
    by (intro exI [of _ ?h]) (auto simp: hwrite_if_def hwrite_def hread_def)
qed

lemma set_first_prev:
  assumes "dseg h c vs 0" "distinct vs"
  shows "\<exists>h1. hwrite_if h (hd (vs @ [0])) (\<lambda>x. x\<lparr>lru_prev := a\<rparr>) = ret h1 \<and> dseg h1 a vs 0 \<and>
    (\<forall>x. x \<notin> set vs \<longrightarrow> h1 x = h x) \<and> links_only h h1"
proof (cases vs)
  case Nil
  then show ?thesis by (auto simp: hwrite_if_def)
next
  case (Cons y ys)
  with assms obtain e where e: "y \<noteq> 0" "h y = Some e" "lru_next e = hd (ys @ [0])" "dseg h y ys 0" by auto
  let ?h = "h(y \<mapsto> e\<lparr>lru_prev := a\<rparr>)"
  have "dseg ?h y ys 0" using e(4) assms(2) Cons by (subst dseg_frame [of _ _ h]) auto
  then have "dseg ?h a vs 0" using e Cons by simp
  moreover have "links_only h ?h"
    using e(2) by (rule links_only_upd) simp
  ultimately show ?thesis using e Cons
    by (intro exI [of _ ?h]) (auto simp: hwrite_if_def hwrite_def hread_def)
qed

text \<open>Unlinking \<open>p\<close>, and putting it back in front.\<close>

lemma unlink_links:
  assumes d: "dseg h 0 (us @ p # vs) 0" and dist: "distinct (us @ p # vs)"
  shows "\<exists>e h1 h2. h p = Some e \<and> p \<noteq> 0 \<and> lru_prev e = last (0 # us) \<and> lru_next e = hd (vs @ [0]) \<and>
    hwrite_if h (lru_prev e) (\<lambda>x. x\<lparr>lru_next := lru_next e\<rparr>) = ret h1 \<and> h1 p = Some e \<and>
    hwrite_if h1 (lru_next e) (\<lambda>x. x\<lparr>lru_prev := lru_prev e\<rparr>) = ret h2 \<and> h2 p = Some e \<and>
    dseg h2 0 (us @ vs) 0 \<and> links_only h h2 \<and> (\<forall>x. x \<notin> set (us @ vs) \<longrightarrow> h2 x = h x)"
proof -
  have d': "dseg h 0 us p" "dseg h p vs 0" using d by (auto simp: dseg_append)
  obtain e where e: "h p = Some e" "p \<noteq> 0" "lru_prev e = last (0 # us)" "lru_next e = hd (vs @ [0])"
    using d by (auto simp: dseg_append)
  obtain h1 where h1: "hwrite_if h (lru_prev e) (\<lambda>x. x\<lparr>lru_next := lru_next e\<rparr>) = ret h1"
    "dseg h1 0 us (lru_next e)" "\<And>x. x \<notin> set us \<Longrightarrow> h1 x = h x" "links_only h h1"
    using set_last_next [OF d'(1), of "lru_next e"] dist e(3) by auto
  have d1: "dseg h1 p vs 0"
    using d'(2) dist by (subst dseg_frame [of _ _ h]) (auto intro!: h1(3))
  obtain h2 where h2: "hwrite_if h1 (lru_next e) (\<lambda>x. x\<lparr>lru_prev := lru_prev e\<rparr>) = ret h2"
    "dseg h2 (lru_prev e) vs 0" "\<And>x. x \<notin> set vs \<Longrightarrow> h2 x = h1 x" "links_only h1 h2"
    using set_first_prev [OF d1, of "lru_prev e"] dist e(4) by auto
  have "dseg h2 0 us (lru_next e)"
    using h1(2) dist by (subst dseg_frame [of _ _ h1]) (auto intro!: h2(3))
  then have "dseg h2 0 (us @ vs) 0" using h2(2) e(3,4) by (simp add: dseg_append)
  moreover have "h1 p = Some e" using h1(3) e(1) dist by simp
  moreover have "h2 p = Some e" using h2(3) h1(3) e(1) dist by simp
  moreover have "\<forall>x. x \<notin> set (us @ vs) \<longrightarrow> h2 x = h x" using h1(3) h2(3) by simp
  ultimately show ?thesis
    using e h1(1) h2(1) links_only_trans [OF h1(4) h2(4)] by blast
qed

lemma push_links:
  assumes d: "dseg h 0 xs 0" and p: "p \<noteq> 0" "p \<notin> set xs" "h p = Some e" and dist: "distinct xs"
  shows "\<exists>h3 h4. hwrite h p (\<lambda>x. x\<lparr>lru_next := hd (xs @ [0]), lru_prev := 0\<rparr>) = ret h3 \<and>
    hwrite_if h3 (hd (xs @ [0])) (\<lambda>x. x\<lparr>lru_prev := p\<rparr>) = ret h4 \<and>
    dseg h4 0 (p # xs) 0 \<and> links_only h h4 \<and> (\<forall>x. x \<notin> set (p # xs) \<longrightarrow> h4 x = h x)"
proof -
  let ?h3 = "h(p \<mapsto> e\<lparr>lru_next := hd (xs @ [0]), lru_prev := 0\<rparr>)"
  have w: "hwrite h p (\<lambda>x. x\<lparr>lru_next := hd (xs @ [0]), lru_prev := 0\<rparr>) = ret ?h3"
    using p by (simp add: hwrite_def hread_def)
  have d3: "dseg ?h3 0 xs 0" using d p by (subst dseg_frame [of _ _ h]) auto
  obtain h4 where h4: "hwrite_if ?h3 (hd (xs @ [0])) (\<lambda>x. x\<lparr>lru_prev := p\<rparr>) = ret h4"
    "dseg h4 p xs 0" "\<And>x. x \<notin> set xs \<Longrightarrow> h4 x = ?h3 x" "links_only ?h3 h4"
    using set_first_prev [OF d3 dist, of p] by auto
  have "h4 p = ?h3 p" by (rule h4(3) [OF p(2)])
  then have "dseg h4 0 (p # xs) 0" using h4(2) p(1) by simp
  moreover have "links_only h ?h3"
    using p(3) by (rule links_only_upd) simp
  ultimately show ?thesis using w h4 links_only_trans [OF _ h4(4)] by (intro exI [of _ ?h3] exI [of _ h4]) auto
qed

section \<open>The cache invariant\<close>

text \<open>
  \<open>lru_ok h c xs\<close>: the list of the cache \<open>c\<close> is \<open>xs\<close> (most recently used first), its entries are
  those of the table, and \<open>current_size\<close> counts them.
\<close>

definition lru_ok :: "conn_heap \<Rightarrow> lru_cache \<Rightarrow> nat list \<Rightarrow> bool" where
  "lru_ok h c xs \<longleftrightarrow>
     (\<exists>t. lru_table c = Some t \<and> ht_rep h t (set xs) \<and> ht_size t = lru_max_size c \<and>
          unat (ht_entries t) = length xs) \<and>
     dseg h 0 xs 0 \<and> distinct xs \<and> lru_head c = hd (xs @ [0]) \<and> lru_tail c = last (0 # xs) \<and>
     unat (lru_current_size c) = length xs \<and> lru_current_size c \<le> lru_max_size c"

text \<open>The connections a cache holds, most recently used first.\<close>

definition lru_keys :: "conn_heap \<Rightarrow> nat list \<Rightarrow> conn_tuple list" where
  "lru_keys h xs = map (key_at h) xs"

lemma lru_ok_table: "lru_ok h c xs \<Longrightarrow> \<exists>t. lru_table c = Some t \<and> ht_rep h t (set xs) \<and>
    ht_size t = lru_max_size c \<and> unat (ht_entries t) = length xs"
  by (auto simp: lru_ok_def)

lemma lru_ok_alloc: "lru_ok h c xs \<Longrightarrow> x \<in> set xs \<Longrightarrow> x \<noteq> 0 \<and> (\<exists>e. h x = Some e)"
  using lru_ok_table ht_rep_alloc by blast

lemma lru_ok_head: "lru_ok h c xs \<Longrightarrow> lru_head c = hd (xs @ [0])"
  by (simp add: lru_ok_def)

lemma lru_ok_keys_distinct:
  assumes "lru_ok h c xs"
  shows "distinct (lru_keys h xs)"
proof -
  obtain t where "ht_rep h t (set xs)" using lru_ok_table [OF assms] by blast
  then have "inj_on (key_at h) (set xs)" by (intro inj_onI) (rule ht_rep_inj)
  then show ?thesis using assms by (simp add: lru_keys_def distinct_map lru_ok_def)
qed

lemma lru_create_ok:
  "lru_cache_create True True True n = Some c \<Longrightarrow> n \<noteq> 0 \<Longrightarrow> lru_ok h c []"
  by (auto simp: lru_cache_create_def hashtable_create_def lru_ok_def intro!: ht_rep_create [of n])

lemma hd_last_nonempty:
  "us \<noteq> [] \<Longrightarrow> hd (us @ p # vs) = hd us" "us \<noteq> [] \<Longrightarrow> hd us \<in> set us"
  by (cases us; simp)+

lemma move_to_head_spec:
  assumes ok: "lru_ok h c xs" and p: "p \<in> set xs"
  shows "\<exists>h' c'. lru_move_to_head h c p = ret (h', c') \<and> lru_ok h' c' (p # remove1 p xs) \<and>
    links_only h h' \<and> (\<forall>x. x \<notin> set xs \<longrightarrow> h' x = h x) \<and> lru_max_size c' = lru_max_size c \<and>
    lru_current_size c' = lru_current_size c"
proof -
  obtain us vs where sp: "xs = us @ p # vs" using p by (meson split_list)
  obtain t where t: "lru_table c = Some t" "ht_rep h t (set xs)" "ht_size t = lru_max_size c"
    "unat (ht_entries t) = length xs" using lru_ok_table [OF ok] by blast
  have ok': "dseg h 0 (us @ p # vs) 0" "distinct (us @ p # vs)" "lru_head c = hd ((us @ p # vs) @ [0])"
    "lru_tail c = last (0 # us @ p # vs)" using ok sp by (auto simp: lru_ok_def)
  have rm: "remove1 p xs = us @ vs" using ok'(2) sp by (simp add: remove1_append)
  show ?thesis
  proof (cases "us = []")
    case True
    then have "lru_head c = p" using ok' by simp
    then have "lru_move_to_head h c p = ret (h, c)" by (simp add: lru_move_to_head_def)
    moreover have "p # remove1 p xs = xs" using sp True by simp
    ultimately show ?thesis using ok by auto
  next
    case False
    obtain e h1 h2 where u: "h p = Some e" "p \<noteq> 0" "lru_prev e = last (0 # us)" "lru_next e = hd (vs @ [0])"
      "hwrite_if h (lru_prev e) (\<lambda>x. x\<lparr>lru_next := lru_next e\<rparr>) = ret h1" "h1 p = Some e"
      "hwrite_if h1 (lru_next e) (\<lambda>x. x\<lparr>lru_prev := lru_prev e\<rparr>) = ret h2" "h2 p = Some e"
      "dseg h2 0 (us @ vs) 0" "links_only h h2" "\<forall>x. x \<notin> set (us @ vs) \<longrightarrow> h2 x = h x"
      using unlink_links [OF ok'(1,2)] by blast
    have pn: "p \<notin> set (us @ vs)" "distinct (us @ vs)" using ok'(2) by auto
    have hd: "lru_head c = hd ((us @ vs) @ [0])" "lru_head c \<noteq> p"
      using ok'(2,3) False by (cases us; auto)+
    obtain h3 h4 where w: "hwrite h2 p (\<lambda>x. x\<lparr>lru_next := hd ((us @ vs) @ [0]), lru_prev := 0\<rparr>) = ret h3"
      "hwrite_if h3 (hd ((us @ vs) @ [0])) (\<lambda>x. x\<lparr>lru_prev := p\<rparr>) = ret h4"
      "dseg h4 0 (p # us @ vs) 0" "links_only h2 h4" "\<forall>x. x \<notin> set (p # us @ vs) \<longrightarrow> h4 x = h2 x"
      using push_links [OF u(9) u(2) pn(1) u(8) pn(2)] by blast
    let ?c1 = "if lru_tail c = p then c\<lparr>lru_tail := lru_prev e\<rparr> else c"
    let ?c2 = "?c1\<lparr>lru_head := p\<rparr>"
    have lp: "lru_prev e \<noteq> 0"
      using u(3) False dseg_nonzero [OF ok'(1)] by (cases us rule: rev_cases) auto
    have tl: "lru_tail ?c2 = last (0 # p # us @ vs)"
    proof (cases "vs = []")
      case True
      then have "lru_tail c = p" using ok'(4) by simp
      then show ?thesis using True u(3) False by simp
    next
      case False
      then have "lru_tail c = last vs" using ok'(4) by simp
      moreover have "last vs \<noteq> p" using False ok'(2) by (metis distinct.simps(2) distinct_append last_in_set)
      ultimately show ?thesis using False by simp
    qed
    have tnz: "lru_tail ?c2 \<noteq> 0"
      using tl dseg_nonzero [OF w(3)] by (metis last_ConsR last_in_set list.distinct(1))
    note w' = w(1,2) [folded hd(1)]
    have run: "lru_move_to_head h c p = ret (h4, ?c2)"
    proof (cases "lru_tail c = p")
      case True
      then show ?thesis using hd(2) lp
        by (simp add: lru_move_to_head_def hread_def u(1,2,5-8) w' Let_def)
    next
      case False
      then have "lru_tail c \<noteq> 0" using tnz by simp
      with False show ?thesis using hd(2)
        by (simp add: lru_move_to_head_def hread_def u(1,2,5-8) w' Let_def)
    qed
    have "links_only h h4" by (rule links_only_trans [OF u(10) w(4)])
    moreover have "lru_ok h4 ?c2 (p # us @ vs)"
      unfolding lru_ok_def
    proof (intro conjI)
      have "set (p # us @ vs) = set xs" "length (p # us @ vs) = length xs" using sp by auto
      then show "\<exists>t. lru_table ?c2 = Some t \<and> ht_rep h4 t (set (p # us @ vs)) \<and> ht_size t = lru_max_size ?c2 \<and>
          unat (ht_entries t) = length (p # us @ vs)"
        using t ht_rep_links [OF t(2) \<open>links_only h h4\<close>] by (intro exI [of _ t]) simp
      show "lru_tail ?c2 = last (0 # p # us @ vs)" by (rule tl)
    qed (use w(3) pn ok sp in \<open>auto simp: lru_ok_def\<close>)
    moreover have "\<forall>x. x \<notin> set xs \<longrightarrow> h4 x = h x" using u(11) w(5) sp by auto
    ultimately show ?thesis using run unfolding rm by (intro exI [of _ h4] exI [of _ ?c2]) auto
  qed
qed

text \<open>Changes of the data of entries, outside keys and links, keep the invariant.\<close>

definition same_links :: "conn_entry \<Rightarrow> conn_entry \<Rightarrow> bool" where
  "same_links e e' \<longleftrightarrow> ce_tuple e' = ce_tuple e \<and> ce_next e' = ce_next e \<and>
     lru_prev e' = lru_prev e \<and> lru_next e' = lru_next e"

lemma dseg_same_links:
  "dseg h a xs b \<Longrightarrow> (\<And>x e. x \<in> set xs \<Longrightarrow> h x = Some e \<Longrightarrow> \<exists>e'. h' x = Some e' \<and> same_links e e') \<Longrightarrow>
    dseg h' a xs b"
proof (induction xs arbitrary: a)
  case (Cons x xs)
  then obtain e where e: "x \<noteq> 0" "h x = Some e" "lru_prev e = a" "lru_next e = hd (xs @ [b])" "dseg h x xs b"
    by auto
  obtain e' where "h' x = Some e'" "same_links e e'" using Cons.prems(2) e(2) by (meson list.set_intros(1))
  moreover have "dseg h' x xs b" by (rule Cons.IH [OF e(5)]) (use Cons.prems(2) in auto)
  ultimately show ?case using e by (auto simp: same_links_def)
qed simp

lemma lru_ok_data:
  assumes ok: "lru_ok h c xs"
    and same: "\<And>x e. x \<in> set xs \<Longrightarrow> h x = Some e \<Longrightarrow> \<exists>e'. h' x = Some e' \<and> same_links e e'"
  shows "lru_ok h' c xs \<and> lru_keys h' xs = lru_keys h xs"
proof -
  obtain t where t: "lru_table c = Some t" "ht_rep h t (set xs)" "ht_size t = lru_max_size c"
    "unat (ht_entries t) = length xs" using lru_ok_table [OF ok] by blast
  have "ht_rep h' t (set xs)"
  proof (rule ht_rep_cong [OF t(2)])
    fix q assume q: "q \<in> set xs"
    obtain e where "h q = Some e" using lru_ok_alloc [OF ok q] by blast
    with same [OF q this]
    show "\<exists>e e'. h q = Some e \<and> h' q = Some e' \<and> ce_tuple e' = ce_tuple e \<and> ce_next e' = ce_next e"
      by (auto simp: same_links_def)
  qed
  moreover have "dseg h' 0 xs 0"
    using ok by (auto simp: lru_ok_def intro: dseg_same_links [OF _ same])
  moreover have "key_at h' q = key_at h q" if q: "q \<in> set xs" for q
  proof -
    obtain e where "h q = Some e" using lru_ok_alloc [OF ok q] by blast
    with same [OF q this] show ?thesis by (auto simp: key_at_def same_links_def)
  qed
  ultimately show ?thesis using ok t by (auto simp: lru_ok_def lru_keys_def)
qed

lemma lru_ok_fresh:
  "lru_ok h c xs \<Longrightarrow> h p = None \<Longrightarrow> lru_ok (h(p \<mapsto> e)) c xs \<and> lru_keys (h(p \<mapsto> e)) xs = lru_keys h xs"
  by (rule lru_ok_data) (auto simp: same_links_def)

lemma lru_keys_notin: "k \<notin> set (lru_keys h xs) \<longleftrightarrow> (\<forall>q \<in> set xs. key_at h q \<noteq> k)"
  by (simp add: lru_keys_def image_iff) metis

lemma relinked_last_seen: "relinked e e' \<Longrightarrow> relinked (e\<lparr>ce_last_seen := t\<rparr>) (e'\<lparr>ce_last_seen := t\<rparr>)"
proof -
  assume "relinked e e'"
  then obtain p n where "e' = e\<lparr>lru_prev := p, lru_next := n\<rparr>" by (auto simp: relinked_def)
  then show ?thesis unfolding relinked_def by (intro exI [of _ p] exI [of _ n]) (cases e, simp)
qed

lemma lru_lookup:
  assumes ok: "lru_ok h c xs"
  shows "\<exists>p. hashtable_lookup h (lru_table c) key = ret p \<and>
    (p = 0 \<and> tuple_key key \<notin> set (lru_keys h xs) \<or> p \<in> set xs \<and> key_at h p = tuple_key key)"
proof -
  obtain t where t: "lru_table c = Some t" "ht_rep h t (set xs)" using lru_ok_table [OF ok] by blast
  show ?thesis using hashtable_lookup_spec [OF t(2), of key] t(1) unfolding lru_keys_notin by simp
qed

lemma lru_keys_move:
  assumes ok: "lru_ok h c xs" and p: "p \<in> set xs" and l: "links_only h h'"
  shows "lru_keys h' (p # remove1 p xs) = key_at h p # remove1 (key_at h p) (lru_keys h xs)"
proof -
  have k: "key_at h' q = key_at h q" if "q \<in> set xs" for q
    using lru_ok_alloc [OF ok that] key_at_links [OF l] by blast
  obtain us vs where sp: "xs = us @ p # vs" using p by (meson split_list)
  have d: "distinct (map (key_at h) xs)" using lru_ok_keys_distinct [OF ok] by (simp add: lru_keys_def)
  have "distinct xs" using ok by (simp add: lru_ok_def)
  then have "remove1 p xs = us @ vs" using sp by (simp add: remove1_append)
  moreover have "remove1 (key_at h p) (map (key_at h) xs) = map (key_at h) (us @ vs)"
  proof -
    have "key_at h p \<notin> set (map (key_at h) us)" using d unfolding sp by simp
    then show ?thesis unfolding sp map_append list.map remove1_append by simp
  qed
  ultimately show ?thesis using k sp by (simp add: lru_keys_def)
qed

text \<open>Keys and connection states stay.\<close>

definition same_state :: "conn_heap \<Rightarrow> conn_heap \<Rightarrow> bool" where
  "same_state h h' \<longleftrightarrow> (\<forall>x e. h x = Some e \<longrightarrow>
     (\<exists>e'. h' x = Some e' \<and> ce_state e' = ce_state e \<and> ce_tuple e' = ce_tuple e))"

lemma same_stateI:
  "(\<And>x e. h x = Some e \<Longrightarrow> \<exists>e'. h' x = Some e' \<and> ce_state e' = ce_state e \<and> ce_tuple e' = ce_tuple e) \<Longrightarrow>
    same_state h h'"
  by (simp add: same_state_def)

lemma same_stateD:
  "same_state h h' \<Longrightarrow> h x = Some e \<Longrightarrow> \<exists>e'. h' x = Some e' \<and> ce_state e' = ce_state e \<and> ce_tuple e' = ce_tuple e"
  by (simp add: same_state_def)

lemma links_only_state: "links_only h h' \<Longrightarrow> same_state h h'"
  by (rule same_stateI) (auto dest!: links_only_Some dest: relinked_fields)

lemma same_state_trans:
  assumes "same_state h h1" "same_state h1 h2"
  shows "same_state h h2"
proof (rule same_stateI)
  fix x e assume "h x = Some e"
  from same_stateD [OF assms(1) this]
  obtain e1 where e1: "h1 x = Some e1" "ce_state e1 = ce_state e" "ce_tuple e1 = ce_tuple e" by blast
  from same_stateD [OF assms(2) e1(1)] e1(2,3)
  show "\<exists>e'. h2 x = Some e' \<and> ce_state e' = ce_state e \<and> ce_tuple e' = ce_tuple e" by auto
qed

lemma same_state_upd:
  "h p = Some e \<Longrightarrow> ce_state e' = ce_state e \<Longrightarrow> ce_tuple e' = ce_tuple e \<Longrightarrow> same_state h (h(p \<mapsto> e'))"
  by (auto simp: same_state_def)

lemma same_state_new: "h p = None \<Longrightarrow> same_state h (h(p \<mapsto> e))"
  by (auto simp: same_state_def)

lemma lru_get_hit:
  assumes ok: "lru_ok h c xs" and hit: "tuple_key key \<in> set (lru_keys h xs)"
  shows "\<exists>p h' c'. lru_cache_get now fresh h (Some c) key = ret (p, h', Some c') \<and> p \<in> set xs \<and>
    lru_ok h' c' (p # remove1 p xs) \<and> lru_max_size c' = lru_max_size c \<and>
    lru_keys h' (p # remove1 p xs) = tuple_key key # remove1 (tuple_key key) (lru_keys h xs) \<and>
    (\<exists>e e'. h p = Some e \<and> h' p = Some e' \<and> relinked (e\<lparr>ce_last_seen := now\<rparr>) e') \<and>
    same_state h h' \<and> (\<forall>x. x \<notin> set xs \<longrightarrow> h' x = h x)"
proof -
  obtain p where p: "hashtable_lookup h (lru_table c) key = ret p" "p \<in> set xs" "key_at h p = tuple_key key"
    using lru_lookup [OF ok, of key] hit by auto
  obtain h1 c1 where m: "lru_move_to_head h c p = ret (h1, c1)" "lru_ok h1 c1 (p # remove1 p xs)"
    "links_only h h1" "\<forall>x. x \<notin> set xs \<longrightarrow> h1 x = h x" "lru_max_size c1 = lru_max_size c"
    using move_to_head_spec [OF ok p(2)] by blast
  obtain e where e: "p \<noteq> 0" "h p = Some e" using lru_ok_alloc [OF ok p(2)] by blast
  obtain e1 where e1: "h1 p = Some e1" "relinked e e1" using links_only_Some [OF m(3) e(2)] by blast
  let ?h = "h1(p \<mapsto> e1\<lparr>ce_last_seen := now\<rparr>)"
  have run: "lru_cache_get now fresh h (Some c) key = ret (p, ?h, Some c1)"
    using e e1 by (simp add: lru_cache_get_def p(1) m(1) hwrite_def hread_def)
  have "lru_ok ?h c1 (p # remove1 p xs) \<and> lru_keys ?h (p # remove1 p xs) = lru_keys h1 (p # remove1 p xs)"
    using e1(1) by (intro lru_ok_data [OF m(2)]) (auto simp: same_links_def)
  moreover have "relinked (e\<lparr>ce_last_seen := now\<rparr>) (e1\<lparr>ce_last_seen := now\<rparr>)"
    using e1(2) by (rule relinked_last_seen)
  moreover have "\<forall>x. x \<notin> set xs \<longrightarrow> ?h x = h x" using m(4) p(2) by auto
  moreover have "same_state h ?h"
    by (rule same_state_trans [OF links_only_state [OF m(3)] same_state_upd [where h = h1, OF e1(1)]]) simp_all
  ultimately show ?thesis
    using run m(5) e lru_keys_move [OF ok p(2) m(3)] p
    by (intro exI [of _ p] exI [of _ ?h] exI [of _ c1]) auto
qed

text \<open>The entry \<open>lru_cache_get\<close> makes for a new connection.\<close>

definition new_conn :: "time_t \<Rightarrow> conn_tuple \<Rightarrow> conn_entry" where
  "new_conn now key = (zero_conn key)\<lparr>ce_first_seen := now, ce_last_seen := now, ce_packets := 0,
     ce_bytes := 0, ce_state := TCP_STATE_CLOSED\<rparr>"

lemma new_conn_tuple [simp]: "ce_tuple (new_conn now key) = key"
  by (simp add: new_conn_def zero_conn_def)

lemma unat_entries_less:
  assumes "lru_ok h c xs" "lru_table c = Some t"
  shows "unat (ht_entries t + 1) = unat (ht_entries t) + 1"
proof -
  have "unat (ht_entries t) = length xs" "unat (lru_current_size c) = length xs" using assms by (auto simp: lru_ok_def)
  moreover have "unat (lru_current_size c) < 2 ^ LENGTH(32)" by (rule unsigned_less)
  ultimately show ?thesis by (intro unat_inc) simp
qed

lemma lru_get_miss:
  assumes ok: "lru_ok h c xs" and miss: "tuple_key key \<notin> set (lru_keys h xs)"
    and room: "length xs < unat (lru_max_size c)" and fresh: "fresh \<noteq> 0" "h fresh = None"
  shows "\<exists>h' c'. lru_cache_get now fresh h (Some c) key = ret (fresh, h', Some c') \<and>
    lru_ok h' c' (fresh # xs) \<and> lru_max_size c' = lru_max_size c \<and>
    lru_keys h' (fresh # xs) = tuple_key key # lru_keys h xs \<and>
    (\<exists>e n. h' fresh = Some e \<and> relinked ((new_conn now key)\<lparr>ce_next := n\<rparr>) e) \<and>
    same_state h h' \<and> (\<forall>x. x \<notin> set (fresh # xs) \<longrightarrow> h' x = h x)"
proof -
  obtain t where t: "lru_table c = Some t" "ht_rep h t (set xs)" "ht_size t = lru_max_size c"
    "unat (ht_entries t) = length xs" using lru_ok_table [OF ok] by blast
  have look: "hashtable_lookup h (lru_table c) key = ret 0"
    using lru_lookup [OF ok, of key] miss unfolding lru_keys_notin by metis
  let ?e = "new_conn now key"
  let ?h0 = "h(fresh \<mapsto> ?e)"
  have ok0: "lru_ok ?h0 c xs" "lru_keys ?h0 xs = lru_keys h xs" using lru_ok_fresh [OF ok fresh(2)] by auto
  have nin: "fresh \<notin> set xs" using lru_ok_alloc [OF ok, of fresh] fresh by auto
  have rep0: "ht_rep ?h0 t (set xs)" using lru_ok_table [OF ok0(1)] t(1) by auto
  have "\<forall>q \<in> set xs. key_at ?h0 q \<noteq> tuple_key key"
    using miss unfolding ok0(2) [symmetric] lru_keys_notin .
  then obtain n t' where ins: "hashtable_insert ?h0 (Some t) key fresh = ret (0, ?h0(fresh \<mapsto> ?e\<lparr>ce_next := n\<rparr>), Some t')"
    "ht_rep (?h0(fresh \<mapsto> ?e\<lparr>ce_next := n\<rparr>)) t' (insert fresh (set xs))"
    "ht_entries t' = ht_entries t + 1" "ht_size t' = ht_size t"
    using hashtable_insert_spec [OF rep0 fresh(1) nin, of ?e key] by auto
  let ?h4 = "?h0(fresh \<mapsto> ?e\<lparr>ce_next := n\<rparr>)"
  have dist: "distinct xs" and d: "dseg h 0 xs 0" and hd: "lru_head c = hd (xs @ [0])"
    and tl: "lru_tail c = last (0 # xs)" and cnt: "unat (lru_current_size c) = length xs"
    using ok by (auto simp: lru_ok_def)
  have d4: "dseg ?h4 0 xs 0" using d nin by (subst dseg_frame [of _ _ h]) auto
  have at4: "?h4 fresh = Some (?e\<lparr>ce_next := n\<rparr>)" by simp
  obtain h5 h6 where w: "hwrite ?h4 fresh (\<lambda>x. x\<lparr>lru_next := hd (xs @ [0]), lru_prev := 0\<rparr>) = ret h5"
    "hwrite_if h5 (hd (xs @ [0])) (\<lambda>x. x\<lparr>lru_prev := fresh\<rparr>) = ret h6"
    "dseg h6 0 (fresh # xs) 0" "links_only ?h4 h6" "\<forall>x. x \<notin> set (fresh # xs) \<longrightarrow> h6 x = ?h4 x"
    using push_links [OF d4 fresh(1) nin at4 dist] by blast
  let ?c4 = "c\<lparr>lru_table := Some t', lru_head := fresh\<rparr>"
  let ?c5 = "if lru_tail c = 0 then ?c4\<lparr>lru_tail := fresh\<rparr> else ?c4"
  let ?c6 = "?c5\<lparr>lru_current_size := lru_current_size c + 1\<rparr>"
  have lt: "lru_current_size c < lru_max_size c" using room cnt by (simp add: word_less_nat_alt)
  note w' = w(1,2) [folded hd, unfolded fun_upd_upd]
  have full: "\<not> lru_max_size c \<le> lru_current_size c" using lt by simp
  have run: "lru_cache_get now fresh h (Some c) key = ret (fresh, h6, Some ?c6)"
    using full fresh(1) look
    by (simp add: lru_cache_get_def new_conn_def [symmetric] Let_def t(1) ins(1) [unfolded fun_upd_upd] w'
        del: fun_upd_apply)
  have "lru_ok h6 ?c6 (fresh # xs)"
    unfolding lru_ok_def
  proof (intro conjI)
    have "ht_rep h6 t' (set (fresh # xs))" using ht_rep_links [OF ins(2) w(4)] by simp
    then show "\<exists>u. lru_table ?c6 = Some u \<and> ht_rep h6 u (set (fresh # xs)) \<and> ht_size u = lru_max_size ?c6 \<and>
        unat (ht_entries u) = length (fresh # xs)"
      using t ins(3,4) unat_entries_less [OF ok t(1)] by simp
    show "lru_tail ?c6 = last (0 # fresh # xs)"
    proof (cases "xs = []")
      case True
      then show ?thesis using tl by simp
    next
      case False
      then have "last xs \<noteq> 0" using dseg_nonzero [OF d] by (metis last_in_set)
      then show ?thesis using tl False by simp
    qed
    show "unat (lru_current_size ?c6) = length (fresh # xs)" using unat_inc_less [OF lt] cnt by simp
    have "unat (lru_current_size c + 1) \<le> unat (lru_max_size c)" using unat_inc_less [OF lt] cnt room by simp
    then show "lru_current_size ?c6 \<le> lru_max_size ?c6" by (simp add: word_le_nat_alt)
  qed (use w(3) nin dist in auto)
  moreover have "lru_keys h6 (fresh # xs) = tuple_key key # lru_keys h xs"
  proof -
    have "key_at h6 q = key_at h q" if q: "q \<in> set xs" for q
    proof -
      obtain e where e: "h q = Some e" using lru_ok_alloc [OF ok q] by blast
      then have "?h4 q = Some e" using q nin by auto
      from key_at_links [OF w(4) this] this e show ?thesis by (simp add: key_at_def del: fun_upd_apply)
    qed
    moreover have "key_at h6 fresh = tuple_key key"
      using key_at_links [OF w(4) at4] by (simp add: key_at_def)
    ultimately show ?thesis by (simp add: lru_keys_def)
  qed
  moreover have "\<exists>e n. h6 fresh = Some e \<and> relinked (?e\<lparr>ce_next := n\<rparr>) e"
    using links_only_Some [OF w(4) at4] by blast
  moreover have "\<forall>x. x \<notin> set (fresh # xs) \<longrightarrow> h6 x = h x" using w(5) by auto
  moreover have "same_state h h6"
    using same_state_trans [OF same_state_new [where h = h, OF fresh(2)] links_only_state [OF w(4) [unfolded fun_upd_upd]]] .
  ultimately show ?thesis using run by (intro exI [of _ h6] exI [of _ ?c6]) simp
qed

section \<open>The full cache\<close>

text \<open>\<open>hashtable_remove\<close> frees the entry, and so does its caller.\<close>

lemma evict_frees:
  assumes ok: "lru_ok h c (us @ [p])" and max0: "lru_max_size c \<noteq> 0"
  shows "\<exists>h' c'. lru_evict_lru h c = ret (p, h', c') \<and> h' p = None \<and> p \<noteq> 0"
proof -
  obtain t where t: "lru_table c = Some t" "ht_rep h t (set (us @ [p]))" using lru_ok_table [OF ok] by blast
  have d: "dseg h 0 (us @ [p]) 0" "distinct (us @ [p])" "lru_tail c = p" using ok by (auto simp: lru_ok_def)
  obtain e h1 h2 where u: "h p = Some e" "p \<noteq> 0" "lru_prev e = last (0 # us)" "lru_next e = hd ([] @ [0])"
    "hwrite_if h (lru_prev e) (\<lambda>x. x\<lparr>lru_next := lru_next e\<rparr>) = ret h1" "h1 p = Some e"
    "hwrite_if h1 (lru_next e) (\<lambda>x. x\<lparr>lru_prev := lru_prev e\<rparr>) = ret h2" "h2 p = Some e"
    "links_only h h2"
    using unlink_links [OF d(1,2)] by blast
  have "h2 = h1" using u(4,7) by (simp add: hwrite_if_def)
  have nx: "lru_next e = 0" using u(4) by simp
  have "ht_rep h1 t (set (us @ [p]))" using ht_rep_links [OF t(2) u(9)] \<open>h2 = h1\<close> by simp
  then obtain h3 t' where r: "hashtable_remove h1 (Some t) (ce_tuple e) = ret (0, h3, Some t')" "h3 p = None"
    using hashtable_remove_spec [of h1 t "set (us @ [p])" p "ce_tuple e"] u(6) by (auto simp: key_at_def)
  show ?thesis using u(1,2,6) u(5) [unfolded nx] r
    by (simp add: lru_evict_lru_def Let_def d(3) hread_def t(1))
qed

lemma lru_get_full:
  assumes ok: "lru_ok h c xs" and miss: "tuple_key key \<notin> set (lru_keys h xs)"
    and full: "length xs = unat (lru_max_size c)" and fresh: "fresh \<noteq> 0" "h fresh = None"
  shows "lru_cache_get now fresh h (Some c) key = fail DoubleFree"
proof -
  obtain t where t: "lru_table c = Some t" "ht_size t = lru_max_size c" "ht_rep h t (set xs)"
    using lru_ok_table [OF ok] by blast
  then have m0: "lru_max_size c \<noteq> 0" by (auto simp: ht_rep_def ht_ok_def)
  then have "unat (lru_max_size c) \<noteq> 0" by (simp add: unat_eq_zero)
  with full have "xs \<noteq> []" by auto
  then obtain us p where sp: "xs = us @ [p]" by (metis rev_exhaust)
  have look: "hashtable_lookup h (lru_table c) key = ret 0"
    using lru_lookup [OF ok, of key] miss unfolding lru_keys_notin by metis
  let ?h0 = "h(fresh \<mapsto> new_conn now key)"
  have "lru_ok ?h0 c (us @ [p])" using lru_ok_fresh [OF ok fresh(2)] sp by blast
  from evict_frees [OF this m0]
  obtain h1 c1 where e: "lru_evict_lru ?h0 c = ret (p, h1, c1)" "h1 p = None" "p \<noteq> 0" by blast
  have "lru_max_size c \<le> lru_current_size c"
    using ok full by (auto simp: lru_ok_def word_le_nat_alt)
  then show ?thesis using look fresh(1) e
    by (simp add: lru_cache_get_def new_conn_def [symmetric] Let_def hfree_def del: fun_upd_apply)
qed

lemma lru_remove_crash:
  assumes ok: "lru_ok h c xs" and hit: "tuple_key key \<in> set (lru_keys h xs)"
  shows "lru_cache_remove h (Some c) key = fail DoubleFree"
proof -
  obtain p where p: "hashtable_lookup h (lru_table c) key = ret p" "p \<in> set xs" "key_at h p = tuple_key key"
    using lru_lookup [OF ok, of key] hit by auto
  obtain us vs where sp: "xs = us @ p # vs" using p(2) by (meson split_list)
  obtain t where t: "lru_table c = Some t" "ht_rep h t (set xs)" using lru_ok_table [OF ok] by blast
  have d: "dseg h 0 (us @ p # vs) 0" "distinct (us @ p # vs)" using ok sp by (auto simp: lru_ok_def)
  obtain e h1 h2 where u: "h p = Some e" "p \<noteq> 0"
    "hwrite_if h (lru_prev e) (\<lambda>x. x\<lparr>lru_next := lru_next e\<rparr>) = ret h1" "h1 p = Some e"
    "hwrite_if h1 (lru_next e) (\<lambda>x. x\<lparr>lru_prev := lru_prev e\<rparr>) = ret h2" "h2 p = Some e"
    "links_only h h2"
    using unlink_links [OF d] by blast
  have "key_at h2 p = tuple_key key" using key_at_links [OF u(7,1)] p(3) by simp
  then obtain h3 t' where r: "hashtable_remove h2 (Some t) key = ret (0, h3, Some t')" "h3 p = None"
    using hashtable_remove_spec [OF ht_rep_links [OF t(2) u(7)] p(2)] by blast
  show ?thesis using u r p(1)
    by (simp add: lru_cache_remove_def lru_unlink_def hread_def Let_def t(1) hfree_def)
qed

lemma lru_remove_miss:
  assumes ok: "lru_ok h c xs" and miss: "tuple_key key \<notin> set (lru_keys h xs)"
  shows "lru_cache_remove h (Some c) key = ret (-1, h, Some c)"
  using lru_lookup [OF ok, of key] miss unfolding lru_keys_notin
  by (auto simp: lru_cache_remove_def)

section \<open>The sweep\<close>

definition conn_expired :: "time_t \<Rightarrow> conn_entry \<Rightarrow> bool" where
  "conn_expired now e \<longleftrightarrow> now - ce_last_seen e > conn_timeout e"

text \<open>Walking back from the tail: nothing happens before the first expired entry.\<close>

lemma sweep_none:
  assumes "dseg h a us b" "\<And>x e. x \<in> set us \<Longrightarrow> h x = Some e \<Longrightarrow> \<not> conn_expired now e"
  shows "sweep_expired now (last (a # us)) h c n = sweep_expired now a h c n"
  using assms
proof (induction us arbitrary: b rule: rev_induct)
  case (snoc y ys)
  then obtain e where e: "y \<noteq> 0" "h y = Some e" "lru_prev e = last (a # ys)" "dseg h a ys y"
    by (auto simp: dseg_append)
  have "\<not> conn_expired now e" using snoc.prems(2) e(2) by auto
  then have "sweep_expired now y h c n = sweep_expired now (last (a # ys)) h c n"
    by (subst sweep_expired.simps) (simp add: e conn_expired_def)
  also have "\<dots> = sweep_expired now a h c n" by (rule snoc.IH [OF e(4)]) (use snoc.prems(2) in auto)
  finally show ?case by simp
qed simp

lemma sweep_crash:
  assumes ok: "lru_ok h c xs" and sp: "xs = us @ p # vs" and e: "h p = Some e" "conn_expired now e"
  shows "sweep_expired now p h c n = fail DoubleFree"
proof -
  obtain t where t: "lru_table c = Some t" "ht_rep h t (set xs)" using lru_ok_table [OF ok] by blast
  have d: "dseg h 0 (us @ p # vs) 0" "distinct (us @ p # vs)" using ok sp by (auto simp: lru_ok_def)
  obtain e' h1 h2 where u: "h p = Some e'" "p \<noteq> 0"
    "hwrite_if h (lru_prev e') (\<lambda>x. x\<lparr>lru_next := lru_next e'\<rparr>) = ret h1" "h1 p = Some e'"
    "hwrite_if h1 (lru_next e') (\<lambda>x. x\<lparr>lru_prev := lru_prev e'\<rparr>) = ret h2" "h2 p = Some e'"
    "links_only h h2"
    using unlink_links [OF d] by blast
  have ee: "e' = e" using u(1) e(1) by simp
  have pp: "p \<in> set xs" using sp by simp
  have "key_at h2 p = tuple_key (ce_tuple e)" using u(6) ee by (simp add: key_at_def)
  then obtain h3 t' where r: "hashtable_remove h2 (Some t) (ce_tuple e) = ret (0, h3, Some t')" "h3 p = None"
    using hashtable_remove_spec [OF ht_rep_links [OF t(2) u(7)] pp] by blast
  have "sweep_entry h c p (ce_tuple e) = fail DoubleFree" using u r ee
    by (simp add: sweep_entry_def lru_unlink_def hread_def Let_def t(1) hfree_def)
  then show ?thesis using u(2) e
    by (subst sweep_expired.simps) (simp add: conn_expired_def)
qed

lemma cleanup_spec:
  assumes ok: "lru_ok h c xs"
  shows "lru_cache_cleanup_expired h (Some c) now =
    (if \<exists>x \<in> set xs. conn_expired now (the (h x)) then fail DoubleFree else ret (0, h, Some c))"
proof (cases "\<exists>x \<in> set xs. conn_expired now (the (h x))")
  case True
  then obtain us p vs where sp: "xs = us @ p # vs" "conn_expired now (the (h p))"
    "\<forall>v \<in> set vs. \<not> conn_expired now (the (h v))" using split_list_last_prop [OF True] by blast
  have d: "dseg h p vs 0" "lru_tail c = last (0 # xs)" using ok sp by (auto simp: lru_ok_def dseg_append)
  have "sweep_expired now (last (p # vs)) h c 0 = sweep_expired now p h c 0"
    by (rule sweep_none [OF d(1)]) (use sp(3) in force)
  moreover have "lru_tail c = last (p # vs)" using d(2) sp(1) by simp
  moreover obtain e where "h p = Some e" using lru_ok_alloc [OF ok, of p] sp(1) by auto
  ultimately have "lru_cache_cleanup_expired h (Some c) now = fail DoubleFree"
    using sweep_crash [OF ok sp(1), of e now 0] sp(2) by (simp add: lru_cache_cleanup_expired_def)
  with True show ?thesis by simp
next
  case False
  have d: "dseg h 0 xs 0" "lru_tail c = last (0 # xs)" using ok by (auto simp: lru_ok_def)
  have "sweep_expired now (last (0 # xs)) h c 0 = sweep_expired now 0 h c 0"
    by (rule sweep_none [OF d(1)]) (use False in force)
  then have "sweep_expired now (lru_tail c) h c 0 = sweep_expired now 0 h c 0" using d(2) by simp
  also have "\<dots> = ret (0, h, c)" by (subst sweep_expired.simps) simp
  finally have "lru_cache_cleanup_expired h (Some c) now = ret (0, h, Some c)"
    by (simp add: lru_cache_cleanup_expired_def)
  with False show ?thesis by simp
qed

section \<open>The cache as a list of connections\<close>

text \<open>The abstract move-to-front list with a capacity.\<close>

definition mru_get :: "nat \<Rightarrow> conn_tuple list \<Rightarrow> conn_tuple \<Rightarrow> conn_tuple list option" where
  "mru_get limit ks k =
     (if k \<in> set ks then Some (k # remove1 k ks)
      else if length ks < limit then Some (k # ks) else None)"

lemma lru_get_refines:
  assumes ok: "lru_ok h c xs" and fresh: "fresh \<noteq> 0" "h fresh = None"
  shows "case mru_get (unat (lru_max_size c)) (lru_keys h xs) (tuple_key key) of
      None \<Rightarrow> lru_cache_get now fresh h (Some c) key = fail DoubleFree
    | Some ks \<Rightarrow> \<exists>p h' c' xs'. lru_cache_get now fresh h (Some c) key = ret (p, h', Some c') \<and>
        lru_ok h' c' (p # xs') \<and> lru_keys h' (p # xs') = ks \<and> lru_max_size c' = lru_max_size c \<and>
        set (p # xs') \<subseteq> insert fresh (set xs) \<and> (\<forall>x. x \<notin> insert fresh (set xs) \<longrightarrow> h' x = h x)"
proof -
  have len: "length (lru_keys h xs) = length xs" by (simp add: lru_keys_def)
  consider (hit) "tuple_key key \<in> set (lru_keys h xs)"
    | (miss) "tuple_key key \<notin> set (lru_keys h xs)" "length xs < unat (lru_max_size c)"
    | (full) "tuple_key key \<notin> set (lru_keys h xs)" "\<not> length xs < unat (lru_max_size c)" by blast
  then show ?thesis
  proof cases
    case hit
    obtain p h' c' where r: "lru_cache_get now fresh h (Some c) key = ret (p, h', Some c')" "p \<in> set xs"
      "lru_ok h' c' (p # remove1 p xs)" "lru_max_size c' = lru_max_size c"
      "lru_keys h' (p # remove1 p xs) = tuple_key key # remove1 (tuple_key key) (lru_keys h xs)"
      "\<forall>x. x \<notin> set xs \<longrightarrow> h' x = h x"
      using lru_get_hit [OF ok hit] by blast
    have "set (p # remove1 p xs) \<subseteq> insert fresh (set xs)" using r(2) set_remove1_subset [of p xs] by auto
    with r hit show ?thesis by (simp add: mru_get_def) blast
  next
    case miss
    from lru_get_miss [OF ok miss fresh] miss len show ?thesis by (fastforce simp: mru_get_def)
  next
    case full
    have "length xs \<le> unat (lru_max_size c)" using ok by (auto simp: lru_ok_def word_le_nat_alt)
    with full have "length xs = unat (lru_max_size c)" by simp
    from lru_get_full [OF ok full(1) this fresh] full len show ?thesis by (simp add: mru_get_def)
  qed
qed

text \<open>A sequence of lookups, each with the clock's and the allocator's answers.\<close>

fun lru_run :: "conn_heap \<Rightarrow> lru_cache option \<Rightarrow> (time_t \<times> nat \<times> conn_tuple) list \<Rightarrow> (conn_heap \<times> lru_cache option) run" where
  "lru_run h cp [] = ret (h, cp)"
| "lru_run h cp ((now, fresh, key) # rest) =
     bindM (lru_cache_get now fresh h cp key) (\<lambda>(_, h1, cp1). lru_run h1 cp1 rest)"

lemma mru_front:
  "distinct ks \<Longrightarrow> k # remove1 k ks = k # filter (\<lambda>x. x \<noteq> k) ks"
  by (auto simp: distinct_remove1_removeAll removeAll_filter_not_eq intro!: filter_cong)

lemma rev_remdups_Cons:
  "rev (remdups (keys @ [k])) = k # filter (\<lambda>x. x \<noteq> k) (rev (remdups keys))"
  by (induction keys) auto

lemma lru_run_ok:
  assumes "lru_ok h c xs" and "lru_keys h xs = rev (remdups done)"
    and "distinct (map (fst \<circ> snd) gets)" and "\<forall>g \<in> set gets. fst (snd g) \<noteq> 0 \<and> h (fst (snd g)) = None"
  shows "let keys = done @ map (tuple_key \<circ> snd \<circ> snd) gets in
    if card (set keys) \<le> unat (lru_max_size c) then
      \<exists>h' c' xs'. lru_run h (Some c) gets = ret (h', Some c') \<and> lru_ok h' c' xs' \<and>
        lru_keys h' xs' = rev (remdups keys)
    else lru_run h (Some c) gets = fail DoubleFree"
  using assms
proof (induction gets arbitrary: h c xs "done")
  case Nil
  have "card (set done) = length xs"
    using arg_cong [OF Nil.prems(2), of length] by (simp add: lru_keys_def length_remdups_card_conv)
  moreover have "length xs \<le> unat (lru_max_size c)"
    using Nil.prems(1) by (auto simp: lru_ok_def word_le_nat_alt)
  ultimately show ?case using Nil.prems by (auto simp: Let_def)
next
  case (Cons g gets)
  obtain now fresh key where g: "g = (now, fresh, key)" by (cases g)
  let ?k = "tuple_key key"
  have fr: "fresh \<noteq> 0" "h fresh = None" using Cons.prems(4) g by auto
  have lk: "set (lru_keys h xs) = set done" "length (lru_keys h xs) = card (set done)"
    by (simp_all add: Cons.prems(2) length_remdups_card_conv)
  have keys: "done @ map (tuple_key \<circ> snd \<circ> snd) (g # gets) = (done @ [?k]) @ map (tuple_key \<circ> snd \<circ> snd) gets"
    using g by simp
  note ref = lru_get_refines [OF Cons.prems(1) fr, where key = key and now = now]
  show ?case
  proof (cases "mru_get (unat (lru_max_size c)) (lru_keys h xs) ?k")
    case None
    then have "?k \<notin> set done" "unat (lru_max_size c) \<le> card (set done)"
      using lk by (auto simp: mru_get_def split: if_splits)
    moreover have "card (insert ?k (set done)) \<le> card (set (done @ map (tuple_key \<circ> snd \<circ> snd) (g # gets)))"
      using g by (intro card_mono) auto
    ultimately have "\<not> card (set (done @ map (tuple_key \<circ> snd \<circ> snd) (g # gets))) \<le> unat (lru_max_size c)"
      by simp
    moreover have "lru_run h (Some c) (g # gets) = fail DoubleFree"
      using ref None g by simp
    ultimately show ?thesis by (simp only: Let_def if_False)
  next
    case (Some ks)
    then obtain p h' c' xs' where r: "lru_cache_get now fresh h (Some c) key = ret (p, h', Some c')"
      "lru_ok h' c' (p # xs')" "lru_keys h' (p # xs') = ks" "lru_max_size c' = lru_max_size c"
      "\<forall>x. x \<notin> insert fresh (set xs) \<longrightarrow> h' x = h x" using ref by auto
    have "ks = rev (remdups (done @ [?k]))"
      using Some Cons.prems(2) unfolding rev_remdups_Cons
      by (auto simp: mru_get_def mru_front split: if_splits intro!: filter_id_conv [THEN iffD2, symmetric])
    with r(3) have k: "lru_keys h' (p # xs') = rev (remdups (done @ [?k]))" by simp
    have al: "\<forall>g' \<in> set gets. fst (snd g') \<noteq> 0 \<and> h' (fst (snd g')) = None"
    proof
      fix g' assume g': "g' \<in> set gets"
      then have n: "fst (snd g') \<noteq> 0" "h (fst (snd g')) = None" using Cons.prems(4) by auto
      have "fst (snd g') \<noteq> fresh" using Cons.prems(3) g g' by force
      moreover have "fst (snd g') \<notin> set xs" using lru_ok_alloc [OF Cons.prems(1), of "fst (snd g')"] n(2) by auto
      ultimately show "fst (snd g') \<noteq> 0 \<and> h' (fst (snd g')) = None" using r(5) n by simp
    qed
    have run: "lru_run h (Some c) (g # gets) = lru_run h' (Some c') gets" using r(1) g by simp
    show ?thesis unfolding keys run
      using Cons.IH [OF r(2) k _ al] Cons.prems(3) r(4) by (simp add: comp_def)
  qed
qed

section \<open>What the cache promises\<close>

text \<open>C10: a cache made by \<open>lru_cache_create\<close>, asked for a sequence of connections (the allocator
  answering with distinct new addresses), keeps exactly the connections asked for, each once and
  the most recently used first, as long as there are at most \<open>max_size\<close> different ones. The first
  request beyond that evicts an entry that \<open>hashtable_remove\<close> has already freed: \<open>free\<close> is called
  on it a second time.\<close>

theorem lru_cache_runs:
  assumes "limit \<noteq> 0" and "distinct (map (fst \<circ> snd) gets)" and "0 \<notin> set (map (fst \<circ> snd) gets)"
  shows "if card (set (map (tuple_key \<circ> snd \<circ> snd) gets)) \<le> unat limit then
      \<exists>h c xs. lru_run Map.empty (lru_cache_create True True True limit) gets = ret (h, Some c) \<and>
        lru_ok h c xs \<and> lru_keys h xs = rev (remdups (map (tuple_key \<circ> snd \<circ> snd) gets)) \<and>
        unat (lru_cache_size (Some c)) = card (set (map (tuple_key \<circ> snd \<circ> snd) gets))
    else lru_run Map.empty (lru_cache_create True True True limit) gets = fail DoubleFree"
proof -
  obtain c where c: "lru_cache_create True True True limit = Some c" "lru_max_size c = limit"
    by (simp add: lru_cache_create_def hashtable_create_def)
  have ok: "lru_ok Map.empty c []" by (rule lru_create_ok [OF c(1) assms(1)])
  have "\<forall>g \<in> set gets. fst (snd g) \<noteq> 0 \<and> Map.empty (fst (snd g)) = None" using assms(3) by force
  with lru_run_ok [OF ok _ assms(2), of "[]"] have "let keys = [] @ map (tuple_key \<circ> snd \<circ> snd) gets in
    if card (set keys) \<le> unat (lru_max_size c) then
      \<exists>h' c' xs'. lru_run Map.empty (Some c) gets = ret (h', Some c') \<and> lru_ok h' c' xs' \<and>
        lru_keys h' xs' = rev (remdups keys)
    else lru_run Map.empty (Some c) gets = fail DoubleFree"
    by (simp add: lru_keys_def)
  then
  have "if card (set (map (tuple_key \<circ> snd \<circ> snd) gets)) \<le> unat limit then
      \<exists>h c' xs. lru_run Map.empty (Some c) gets = ret (h, Some c') \<and> lru_ok h c' xs \<and>
        lru_keys h xs = rev (remdups (map (tuple_key \<circ> snd \<circ> snd) gets))
    else lru_run Map.empty (Some c) gets = fail DoubleFree"
    by (simp only: Let_def append_Nil c(2))
  moreover have "unat (lru_cache_size (Some c')) = card (set ks)"
    if "lru_ok h c' xs" "lru_keys h xs = rev (remdups ks)" for h c' xs ks
  proof -
    have "length xs = card (set ks)" using arg_cong [OF that(2), of length]
      by (simp add: lru_keys_def length_remdups_card_conv)
    then show ?thesis using that(1) by (simp add: lru_ok_def lru_cache_size_def)
  qed
  ultimately show ?thesis
    by (cases "card (set (map (tuple_key \<circ> snd \<circ> snd) gets)) \<le> unat limit") (simp_all only: c(1) if_True if_False, blast)
qed

text \<open>On every well-formed cache, \<open>lru_cache_remove\<close> of a connection the cache holds frees its
  entry twice (\<open>hashtable_remove\<close> frees it first); of any other it returns -1 and changes nothing.\<close>

theorem lru_cache_remove_frees_twice:
  assumes "lru_ok h c xs"
  shows "lru_cache_remove h (Some c) key =
    (if tuple_key key \<in> set (lru_keys h xs) then fail DoubleFree else ret (-1, h, Some c))"
  using lru_remove_crash [OF assms] lru_remove_miss [OF assms] by simp

text \<open>On every well-formed cache the sweep ends; it returns 0 and changes nothing when no entry has
  outlived its timeout, and otherwise frees the first expired entry it meets twice.\<close>

theorem lru_cleanup_frees_twice:
  assumes "lru_ok h c xs"
  shows "lru_cache_cleanup_expired h (Some c) now =
    (if \<exists>x \<in> set xs. now - ce_last_seen (the (h x)) > conn_timeout (the (h x))
     then fail DoubleFree else ret (0, h, Some c))"
  using cleanup_spec [OF assms] by (simp add: conn_expired_def)

lemma list_free_eq: "dseg h a xs 0 \<Longrightarrow> distinct xs \<Longrightarrow> list_free h (hd (xs @ [0])) = ret (free_all h (set xs))"
proof (induction xs arbitrary: h a)
  case Nil
  then show ?case by (simp add: list_free.simps)
next
  case (Cons x xs)
  then obtain e where e: "x \<noteq> 0" "h x = Some e" "lru_next e = hd (xs @ [0])" "dseg h x xs 0" by auto
  have "dseg (h(x := None)) x xs 0" using e(4) Cons.prems(2) by (subst dseg_frame [of _ _ h]) auto
  from Cons.IH [OF this] Cons.prems(2)
  have "list_free (h(x := None)) (hd (xs @ [0])) = ret (free_all (h(x := None)) (set xs))"
    by (simp del: fun_upd_apply)
  moreover have "free_all (h(x := None)) (set xs) = free_all h (set (x # xs))" by (auto simp: free_all_def)
  ultimately show ?case using e by (subst list_free.simps) simp
qed

lemma free_buckets_freed:
  assumes "ht_ok h ht cs" "\<forall>i \<in> set is. i < unat (ht_size ht)"
    "\<And>i q. q \<in> set (cs i) \<Longrightarrow> h' q = None"
  shows "free_buckets h' (ht_buckets ht) is = (if \<forall>i \<in> set is. cs i = [] then ret h' else fail UseAfterFree)"
  using assms(2)
proof (induction "is")
  case (Cons i "is")
  have ch: "is_chain h (ht_buckets ht i) (cs i)" using ht_ok_chain [OF assms(1)] Cons.prems by auto
  show ?case
  proof (cases "cs i")
    case Nil
    with ch have "chain_free h' (ht_buckets ht i) = ret h'" by (simp add: chain_free.simps)
    with Cons Nil show ?thesis by simp
  next
    case (Cons q qs)
    with ch have q: "ht_buckets ht i = q" "q \<noteq> 0" by auto
    have "h' q = None" using assms(3) [of q i] Cons by simp
    with q have "chain_free h' (ht_buckets ht i) = fail UseAfterFree" by (subst chain_free.simps) simp
    with Cons show ?thesis by simp
  qed
qed simp

text \<open>\<open>lru_cache_destroy\<close> frees the list and then lets \<open>hashtable_destroy\<close> walk the chains of the
  same entries: on every well-formed cache that is not empty it reads a freed entry.\<close>

theorem lru_destroy_use_after_free:
  assumes "lru_ok h c xs"
  shows "lru_cache_destroy h (Some c) = (if xs = [] then ret h else fail UseAfterFree)"
proof -
  obtain t where t: "lru_table c = Some t" "ht_rep h t (set xs)" using lru_ok_table [OF assms] by blast
  obtain cs where cs: "ht_ok h t cs" "set xs = (\<Union>i. set (cs i))" using t(2) by (auto simp: ht_rep_def)
  have d: "dseg h 0 xs 0" "distinct xs" "lru_head c = hd (xs @ [0])" using assms by (auto simp: lru_ok_def)
  have f: "free_all h (set xs) q = None" if "q \<in> set (cs i)" for q i
  proof -
    have "q \<in> set xs" using that cs(2) by blast
    then show ?thesis by simp
  qed
  have "(\<forall>i \<in> set [0..<unat (ht_size t)]. cs i = []) \<longleftrightarrow> set xs = {}"
    unfolding cs(2) ht_ok_union [OF cs(1)] by auto
  then have "hashtable_destroy (free_all h (set xs)) (Some t) =
      (if xs = [] then ret h else fail UseAfterFree)"
    using free_buckets_freed [OF cs(1), of "[0..<unat (ht_size t)]" "free_all h (set xs)", OF _ f]
    by (simp add: hashtable_destroy_def)
  then show ?thesis
    using list_free_eq [OF d(1,2)] by (simp add: lru_cache_destroy_def d(3) t(1))
qed

text \<open>C13: the three ways to give up connections. On every well-formed cache, \<open>lru_cache_remove\<close> of a
  connection the cache holds, and the sweep when some entry has outlived its timeout, free an entry
  twice (otherwise they answer -1 or 0 and change nothing); destroying a cache that is not empty
  reads freed entries.\<close>

theorem lru_releases_fault:
  assumes "lru_ok h c xs"
  shows "lru_cache_remove h (Some c) key =
      (if tuple_key key \<in> set (lru_keys h xs) then fail DoubleFree else ret (-1, h, Some c)) \<and>
    lru_cache_cleanup_expired h (Some c) now =
      (if \<exists>x \<in> set xs. now - ce_last_seen (the (h x)) > conn_timeout (the (h x))
       then fail DoubleFree else ret (0, h, Some c)) \<and>
    lru_cache_destroy h (Some c) = (if xs = [] then ret h else fail UseAfterFree)"
  using lru_cache_remove_frees_twice [OF assms] lru_cleanup_frees_twice [OF assms]
    lru_destroy_use_after_free [OF assms] by blast

section \<open>A concrete cache\<close>

definition example_cache :: lru_cache where
  "example_cache = \<lparr>lru_table = Some \<lparr>ht_buckets = (\<lambda>_. 7), ht_size = 1, ht_entries = 1\<rparr>,
     lru_head = 7, lru_tail = 7, lru_max_size = 1, lru_current_size = 1\<rparr>"

definition one_conn_heap :: conn_heap where
  "one_conn_heap = [7 \<mapsto> example_conn 1 0 0 0]"

lemma example_cache_ok: "lru_ok one_conn_heap example_cache [7]"
proof -
  let ?t = "\<lparr>ht_buckets = (\<lambda>_. 7), ht_size = 1, ht_entries = 1\<rparr> :: hashtable"
  have "ht_ok one_conn_heap ?t (\<lambda>i. if i = 0 then [7] else [])"
    by (simp add: ht_ok_def one_conn_heap_def)
  moreover have "set [7] = (\<Union>i :: nat. set (if i = 0 then [7] else [] :: nat list))" by auto
  ultimately have "ht_rep one_conn_heap ?t (set [7])" unfolding ht_rep_def by blast
  then show ?thesis by (simp add: lru_ok_def example_cache_def one_conn_heap_def)
qed

lemma example_cache_keys: "lru_keys one_conn_heap [7] = [tuple_key (example_tuple 1)]"
  by (simp add: lru_keys_def key_at_def one_conn_heap_def)

theorem lru_cache_runs_witness:
  "(\<exists>h c. lru_run Map.empty (lru_cache_create True True True 2)
      [(0, 7, example_tuple 1), (1, 8, example_tuple 2), (2, 9, example_tuple 1)] = ret (h, Some c) \<and>
      lru_cache_size (Some c) = 2) \<and>
   lru_run Map.empty (lru_cache_create True True True 1)
      [(0, 7, example_tuple 1), (1, 8, example_tuple 2)] = fail DoubleFree"
proof
  have "card {tuple_key (example_tuple 1), tuple_key (example_tuple 2)} = 2"
    by (simp add: tuple_key_example)
  then show "\<exists>h c. lru_run Map.empty (lru_cache_create True True True 2)
      [(0, 7, example_tuple 1), (1, 8, example_tuple 2), (2, 9, example_tuple 1)] = ret (h, Some c) \<and>
      lru_cache_size (Some c) = 2"
    using lru_cache_runs [of 2 "[(0, 7, example_tuple 1), (1, 8, example_tuple 2), (2, 9, example_tuple 1)]"]
    by (auto simp: insert_commute word_unat_eq_iff)
  show "lru_run Map.empty (lru_cache_create True True True 1)
      [(0, 7, example_tuple 1), (1, 8, example_tuple 2)] = fail DoubleFree"
    using lru_cache_runs [of 1 "[(0, 7, example_tuple 1), (1, 8, example_tuple 2)]"]
    by (simp add: tuple_key_example)
qed

theorem lru_cache_remove_frees_twice_witness:
  "lru_cache_remove one_conn_heap (Some example_cache) (example_tuple 1) = fail DoubleFree"
  using lru_cache_remove_frees_twice [OF example_cache_ok, of "example_tuple 1"]
  by (simp add: example_cache_keys)

theorem lru_cleanup_frees_twice_witness:
  "lru_cache_cleanup_expired one_conn_heap (Some example_cache) 30 = ret (0, one_conn_heap, Some example_cache) \<and>
   lru_cache_cleanup_expired one_conn_heap (Some example_cache) 31 = fail DoubleFree"
  using lru_cleanup_frees_twice [OF example_cache_ok, of 30] lru_cleanup_frees_twice [OF example_cache_ok, of 31]
  by (simp add: one_conn_heap_def conn_timeout_def example_conn_def example_tuple_def timeout_defs)

theorem lru_destroy_use_after_free_witness:
  "lru_cache_destroy one_conn_heap (Some example_cache) = fail UseAfterFree"
  using lru_destroy_use_after_free [OF example_cache_ok] by simp

theorem lru_releases_fault_witness:
  "lru_cache_remove one_conn_heap (Some example_cache) (example_tuple 1) = fail DoubleFree \<and>
   lru_cache_destroy one_conn_heap (Some example_cache) = fail UseAfterFree"
  using lru_releases_fault [OF example_cache_ok, of "example_tuple 1"] by (simp add: example_cache_keys)

end
