(* ===== verification/TcpProtect.thy ===== *)
theory TcpProtect
  imports Detector LruCache
begin

text \<open>
  \<open>src/detection/tcp_protect.c\<close>: the connection table entry of the packet, SYN, ACK, PSH+ACK, RST
  and FIN floods, Slowloris, the nearly full table, malformed packets and flag scans. The function
  works on the connection cache through the pointer \<open>lru_cache_get\<close> returns; \<open>time(NULL)\<close> is
  called three times and its answers are three arguments.
\<close>

section \<open>Context\<close>

record tcp_protect_ctx =
  total_tcp_packets :: u64
  syn_packets :: u64
  ack_packets :: u64
  rst_packets :: u64
  fin_packets :: u64
  tcp_dropped :: u64
  tcp_last_update :: time_t

definition tcp_protect_init :: "bool \<Rightarrow> time_t \<Rightarrow> int \<times> tcp_protect_ctx option" where
  "tcp_protect_init calloc_ok now =
     (if \<not> calloc_ok then (-1, None)
      else (0, Some \<lparr>total_tcp_packets = 0, syn_packets = 0, ack_packets = 0, rst_packets = 0,
                     fin_packets = 0, tcp_dropped = 0, tcp_last_update = now\<rparr>))"

definition tcp_protect_cleanup :: "tcp_protect_ctx option \<Rightarrow> tcp_protect_ctx option" where
  "tcp_protect_cleanup t = None"

definition is_slowloris_attack :: "time_t \<Rightarrow> conn_entry \<Rightarrow> bool" where
  "is_slowloris_attack now conn =
     (if ce_state conn = TCP_STATE_SYN_RECEIVED \<or> ce_state conn = TCP_STATE_ESTABLISHED then
        if 60 < now - ce_first_seen conn \<and> ce_packets conn < 10 then True
        else if 30 < now - ce_first_seen conn \<and> ce_bytes conn < 100 then True
        else False
      else False)"

section \<open>Analysis of one packet\<close>

text \<open>The state the function works on, and what the environment answers it.\<close>

record tcp_world =
  tw_ctx :: "tcp_protect_ctx option"
  tw_heap :: conn_heap
  tw_cache :: "lru_cache option"
  tw_glob :: global_stats
  tw_stats :: ip_stats

record tcp_env =
  te_cfg :: config
  te_get_time :: time_t
  te_now :: time_t
  te_slow_time :: time_t
  te_fresh :: nat

definition packet_tuple :: "packet \<Rightarrow> conn_tuple" where
  "packet_tuple pkt = \<lparr>ct_src_ip = src_ip pkt, ct_dst_ip = dst_ip pkt, ct_src_port = src_port pkt,
     ct_dst_port = dst_port pkt, ct_protocol = PROTO_TCP\<rparr>"

definition tcp_count :: "(tcp_protect_ctx \<Rightarrow> tcp_protect_ctx) \<Rightarrow> tcp_world \<Rightarrow> tcp_world" where
  "tcp_count f w = w\<lparr>tw_ctx := map_option f (tw_ctx w)\<rparr>"

definition tcp_drop :: "tcp_world \<Rightarrow> tcp_world" where
  "tcp_drop = tcp_count (\<lambda>t. t\<lparr>tcp_dropped := tcp_dropped t + 1\<rparr>)"

definition tcp_alarm :: "attack_type \<Rightarrow> tcp_world \<Rightarrow> tcp_world" where
  "tcp_alarm a w = w\<lparr>tw_glob := alarm a (tw_glob w)\<rparr>"

definition on_stats :: "(ip_stats \<Rightarrow> ip_stats) \<Rightarrow> tcp_world \<Rightarrow> tcp_world" where
  "on_stats f w = w\<lparr>tw_stats := f (tw_stats w)\<rparr>"

definition set_conn :: "nat \<Rightarrow> (conn_entry \<Rightarrow> conn_entry) \<Rightarrow> tcp_world \<Rightarrow> tcp_world run" where
  "set_conn p f w = bindM (hwrite (tw_heap w) p f) (\<lambda>h. ret (w\<lparr>tw_heap := h\<rparr>))"

text \<open>One transition of the connection state, for each branch of the flag analysis.\<close>

definition syn_ack_state :: "tcp_state \<Rightarrow> tcp_state" where
  "syn_ack_state s = (if s = TCP_STATE_SYN_SENT then TCP_STATE_SYN_RECEIVED else s)"

definition ack_state :: "tcp_state \<Rightarrow> tcp_state" where
  "ack_state s = (if s = TCP_STATE_SYN_RECEIVED then TCP_STATE_ESTABLISHED else s)"

definition fin_state :: "tcp_state \<Rightarrow> tcp_state" where
  "fin_state s = (if s = TCP_STATE_ESTABLISHED then TCP_STATE_FIN_WAIT else s)"

text \<open>The branches: \<open>Some v\<close> is an early return with that verdict.\<close>

definition on_syn :: "config \<Rightarrow> time_t \<Rightarrow> nat \<Rightarrow> tcp_world \<Rightarrow> (verdict option \<times> tcp_world) run" where
  "on_syn cfg now p w0 =
     (let w = on_stats (\<lambda>st. st\<lparr>tcp_syn_pps := tcp_syn_pps st + 1\<rparr>)
                (tcp_count (\<lambda>t. t\<lparr>syn_packets := syn_packets t + 1\<rparr>) w0)
      in bindM (set_conn p (\<lambda>e. e\<lparr>ce_state := TCP_STATE_SYN_SENT\<rparr>) w) (\<lambda>w.
           if 1 \<le> now - last_update (tw_stats w) then
             if ucast (tcp_syn_pps_threshold cfg) < tcp_syn_pps (tw_stats w) then
               ret (Some VERDICT_DROP, tcp_drop (tcp_alarm ATTACK_TCP_SYN_FLOOD
                      (on_stats (count_attack ATTACK_TCP_SYN_FLOOD) w)))
             else ret (None, on_stats (\<lambda>st. st\<lparr>tcp_syn_pps := 0, last_update := now\<rparr>) w)
           else ret (None, w)))"

definition on_psh_ack :: "u8 \<Rightarrow> tcp_world \<Rightarrow> verdict option \<times> tcp_world" where
  "on_psh_ack flags w =
     (if flags = TCP_FLAG_ACK OR TCP_FLAG_PSH \<and> 1000 < st_packets (tw_stats w) ATTACK_TCP_PSH_ACK_FLOOD then
        (Some VERDICT_DROP, tcp_drop (tcp_alarm ATTACK_TCP_PSH_ACK_FLOOD
           (on_stats (count_attack ATTACK_TCP_PSH_ACK_FLOOD) w)))
      else (None, w))"

definition on_ack :: "config \<Rightarrow> time_t \<Rightarrow> nat \<Rightarrow> u8 \<Rightarrow> tcp_world \<Rightarrow> (verdict option \<times> tcp_world) run" where
  "on_ack cfg now p flags w0 =
     (let w = on_stats (\<lambda>st. st\<lparr>tcp_ack_pps := tcp_ack_pps st + 1\<rparr>)
                (tcp_count (\<lambda>t. t\<lparr>ack_packets := ack_packets t + 1\<rparr>) w0)
      in bindM (set_conn p (\<lambda>e. e\<lparr>ce_state := ack_state (ce_state e)\<rparr>) w) (\<lambda>w.
           if 1 \<le> now - last_update (tw_stats w) then
             if ucast (tcp_ack_pps_threshold cfg) < tcp_ack_pps (tw_stats w) then
               ret (Some VERDICT_DROP, tcp_drop (tcp_alarm ATTACK_TCP_ACK_FLOOD
                      (on_stats (count_attack ATTACK_TCP_ACK_FLOOD) w)))
             else ret (on_psh_ack flags (on_stats (\<lambda>st. st\<lparr>tcp_ack_pps := 0\<rparr>) w))
           else ret (on_psh_ack flags w)))"

text \<open>RST and FIN count the packet under their attack type first and compare with 5000.\<close>

definition tcp_counted :: "attack_type \<Rightarrow> tcp_world \<Rightarrow> verdict option \<times> tcp_world" where
  "tcp_counted a w0 =
     (let w = on_stats (count_attack a) w0
      in if 5000 < st_packets (tw_stats w) a then (Some VERDICT_DROP, tcp_drop (tcp_alarm a w))
         else (None, w))"

definition on_rst :: "nat \<Rightarrow> tcp_world \<Rightarrow> (verdict option \<times> tcp_world) run" where
  "on_rst p w =
     bindM (set_conn p (\<lambda>e. e\<lparr>ce_state := TCP_STATE_CLOSED\<rparr>)
              (tcp_count (\<lambda>t. t\<lparr>rst_packets := rst_packets t + 1\<rparr>) w))
       (\<lambda>w. ret (tcp_counted ATTACK_TCP_RST_FLOOD w))"

definition on_fin :: "nat \<Rightarrow> tcp_world \<Rightarrow> (verdict option \<times> tcp_world) run" where
  "on_fin p w =
     bindM (set_conn p (\<lambda>e. e\<lparr>ce_state := fin_state (ce_state e)\<rparr>)
              (tcp_count (\<lambda>t. t\<lparr>fin_packets := fin_packets t + 1\<rparr>) w))
       (\<lambda>w. ret (tcp_counted ATTACK_TCP_FIN_FLOOD w))"

definition tcp_flag_analysis ::
    "config \<Rightarrow> time_t \<Rightarrow> nat \<Rightarrow> u8 \<Rightarrow> tcp_world \<Rightarrow> (verdict option \<times> tcp_world) run" where
  "tcp_flag_analysis cfg now p flags w =
     (if flags = TCP_FLAG_SYN then on_syn cfg now p w
      else if flags AND (TCP_FLAG_SYN OR TCP_FLAG_ACK) = TCP_FLAG_SYN OR TCP_FLAG_ACK then
        bindM (set_conn p (\<lambda>e. e\<lparr>ce_state := syn_ack_state (ce_state e)\<rparr>) w) (\<lambda>w. ret (None, w))
      else if flags = TCP_FLAG_ACK \<or> flags = TCP_FLAG_ACK OR TCP_FLAG_PSH then on_ack cfg now p flags w
      else if flags AND TCP_FLAG_RST \<noteq> 0 then on_rst p w
      else if flags AND TCP_FLAG_FIN \<noteq> 0 then on_fin p w
      else ret (None, w))"

text \<open>The checks after Slowloris: nearly full table, malformed packets, scans.\<close>

definition tcp_bad_flags :: "u8 \<Rightarrow> bool" where
  "tcp_bad_flags flags \<longleftrightarrow>
     flags AND (TCP_FLAG_SYN OR TCP_FLAG_FIN) = TCP_FLAG_SYN OR TCP_FLAG_FIN \<or>
     flags AND (TCP_FLAG_SYN OR TCP_FLAG_RST) = TCP_FLAG_SYN OR TCP_FLAG_RST \<or>
     flags = 0 \<or>
     flags AND (TCP_FLAG_FIN OR TCP_FLAG_PSH OR TCP_FLAG_URG) = TCP_FLAG_FIN OR TCP_FLAG_PSH OR TCP_FLAG_URG"

definition table_nearly_full :: "lru_cache option \<Rightarrow> bool" where
  "table_nearly_full cp \<longleftrightarrow> 9 * unat LRU_CACHE_SIZE < 10 * unat (lru_cache_size cp)"

definition tcp_final_checks :: "packet \<Rightarrow> tcp_world \<Rightarrow> (verdict \<times> tcp_world) run" where
  "tcp_final_checks pkt w =
     (if table_nearly_full (tw_cache w) \<and> tcp_flags pkt = TCP_FLAG_SYN \<and> reputation_score (tw_stats w) < 50
      then ret (VERDICT_DROP, tcp_drop w)
      else bindM (Some (packet_is_malformed pkt)) (\<lambda>bad.
        if bad then ret (VERDICT_DROP, tcp_drop w)
        else if tcp_bad_flags (tcp_flags pkt) then ret (VERDICT_DROP, tcp_drop w)
        else ret (VERDICT_ACCEPT, w)))"

definition tcp_protect_analyze :: "tcp_env \<Rightarrow> packet \<Rightarrow> tcp_world \<Rightarrow> (verdict \<times> tcp_world) run" where
  "tcp_protect_analyze env pkt w0 =
     (if protocol pkt \<noteq> PROTO_TCP then ret (VERDICT_ACCEPT, w0)
      else if tw_ctx w0 = None then fail NullDeref
      else
        (let w1 = tcp_count (\<lambda>t. t\<lparr>total_tcp_packets := total_tcp_packets t + 1\<rparr>) w0;
             tuple = packet_tuple pkt
         in bindM (lru_cache_get (te_get_time env) (te_fresh env) (tw_heap w1) (tw_cache w1) tuple) (\<lambda>(p, h, c).
            let w2 = w1\<lparr>tw_heap := h, tw_cache := c\<rparr>
            in if p = 0 then ret (VERDICT_ACCEPT, w2)
               else
                 bindM (set_conn p (\<lambda>e. e\<lparr>ce_packets := ce_packets e + 1,
                          ce_bytes := ce_bytes e + ucast (pkt_len pkt), ce_last_seen := te_now env\<rparr>) w2) (\<lambda>w3.
                 bindM (tcp_flag_analysis (te_cfg env) (te_now env) p (tcp_flags pkt) w3) (\<lambda>(early, w4).
                   case early of
                     Some v \<Rightarrow> ret (v, w4)
                   | None \<Rightarrow>
                       bindM (hread (tw_heap w4) p) (\<lambda>conn.
                         if is_slowloris_attack (te_slow_time env) conn then
                           (let w5 = tcp_drop (tcp_alarm ATTACK_SLOWLORIS
                                      (on_stats (count_attack ATTACK_SLOWLORIS) w4))
                            in bindM (lru_cache_remove (tw_heap w5) (tw_cache w5) tuple) (\<lambda>(_, h, c).
                                 ret (VERDICT_DROP, w5\<lparr>tw_heap := h, tw_cache := c\<rparr>)))
                         else tcp_final_checks pkt w4))))))"

section \<open>The contract\<close>

definition tcp_drops :: "tcp_world \<Rightarrow> u64" where
  "tcp_drops w = (case tw_ctx w of None \<Rightarrow> 0 | Some t \<Rightarrow> tcp_dropped t)"

text \<open>What a part of the analysis may do to counters: the context stays, and the outcome is counted.\<close>

definition tcp_outcome :: "tcp_world \<Rightarrow> verdict \<Rightarrow> tcp_world \<Rightarrow> bool" where
  "tcp_outcome w v w' \<longleftrightarrow> (tw_ctx w \<noteq> None \<longrightarrow> tw_ctx w' \<noteq> None) \<and>
     (tw_ctx w \<noteq> None \<longrightarrow> counted_outcome (tcp_drops w) (tw_glob w) v (tcp_drops w') (tw_glob w'))"

text \<open>Steps that leave the drop counter and the statistics of attacks alone.\<close>

definition tcp_quiet :: "tcp_world \<Rightarrow> tcp_world \<Rightarrow> bool" where
  "tcp_quiet w w' \<longleftrightarrow> map_option tcp_dropped (tw_ctx w') = map_option tcp_dropped (tw_ctx w) \<and> tw_glob w' = tw_glob w"

lemma tcp_quiet_refl [simp]: "tcp_quiet w w"
  by (simp add: tcp_quiet_def)

lemma tcp_quiet_trans: "tcp_quiet w w1 \<Longrightarrow> tcp_quiet w1 w2 \<Longrightarrow> tcp_quiet w w2"
  by (simp add: tcp_quiet_def)

lemma tcp_quiet_outcome: "tcp_quiet w w1 \<Longrightarrow> tcp_outcome w1 v w2 \<Longrightarrow> tcp_outcome w v w2"
  by (cases "tw_ctx w"; cases "tw_ctx w1") (auto simp: tcp_quiet_def tcp_outcome_def tcp_drops_def)

lemma tcp_quiet_count [simp]: "(\<And>t. tcp_dropped (f t) = tcp_dropped t) \<Longrightarrow> tcp_quiet w (tcp_count f w)"
  by (cases "tw_ctx w") (simp_all add: tcp_quiet_def tcp_count_def)

lemma tcp_quiet_stats [simp]: "tcp_quiet w (on_stats f w)"
  by (simp add: tcp_quiet_def on_stats_def)

lemma tcp_quiet_heap [simp]: "tcp_quiet w (w\<lparr>tw_heap := h\<rparr>)" "tcp_quiet w (w\<lparr>tw_heap := h, tw_cache := c\<rparr>)"
  by (simp_all add: tcp_quiet_def)

lemma set_conn_ret: "set_conn p f w = ret w' \<longleftrightarrow>
    p \<noteq> 0 \<and> (\<exists>e. tw_heap w p = Some e \<and> w' = w\<lparr>tw_heap := (tw_heap w)(p \<mapsto> f e)\<rparr>)"
  by (auto simp: set_conn_def hwrite_def hread_def split: option.splits)

lemma outcome_accept [simp]: "tcp_outcome w VERDICT_ACCEPT w"
  by (auto simp: tcp_outcome_def)

lemma outcome_drop [simp]: "tcp_outcome w VERDICT_DROP (tcp_drop w)"
  by (cases "tw_ctx w") (auto simp: tcp_outcome_def tcp_drop_def tcp_count_def tcp_drops_def)

lemma outcome_alarm [simp]: "a \<noteq> ATTACK_NONE \<Longrightarrow> tcp_outcome w VERDICT_DROP (tcp_drop (tcp_alarm a w))"
  by (cases "tw_ctx w") (auto simp: tcp_outcome_def tcp_drop_def tcp_count_def tcp_drops_def tcp_alarm_def)

lemma outcome_alarm_stats [simp]:
  "a \<noteq> ATTACK_NONE \<Longrightarrow> tcp_outcome w VERDICT_DROP (tcp_drop (tcp_alarm a (on_stats f w)))"
  using tcp_quiet_outcome [OF tcp_quiet_stats outcome_alarm] by blast

text \<open>The part of the connection state the flags decide.\<close>

definition tcp_next :: "u8 \<Rightarrow> tcp_state \<Rightarrow> tcp_state" where
  "tcp_next flags s =
     (if flags = TCP_FLAG_SYN then TCP_STATE_SYN_SENT
      else if flags AND (TCP_FLAG_SYN OR TCP_FLAG_ACK) = TCP_FLAG_SYN OR TCP_FLAG_ACK then syn_ack_state s
      else if flags = TCP_FLAG_ACK \<or> flags = TCP_FLAG_ACK OR TCP_FLAG_PSH then ack_state s
      else if flags AND TCP_FLAG_RST \<noteq> 0 then TCP_STATE_CLOSED
      else if flags AND TCP_FLAG_FIN \<noteq> 0 then fin_state s
      else s)"

definition early_outcome :: "tcp_world \<Rightarrow> verdict option \<Rightarrow> tcp_world \<Rightarrow> bool" where
  "early_outcome w early w' \<longleftrightarrow>
     (case early of None \<Rightarrow> tcp_quiet w w' | Some v \<Rightarrow> v = VERDICT_DROP \<and> tcp_outcome w v w')"

lemma early_quiet: "tcp_quiet w w1 \<Longrightarrow> early_outcome w1 early w' \<Longrightarrow> early_outcome w early w'"
  by (auto simp: early_outcome_def intro: tcp_quiet_trans tcp_quiet_outcome split: option.splits)

lemma on_psh_ack_outcome: "on_psh_ack flags w = (early, w') \<Longrightarrow> early_outcome w early w'"
  by (auto simp: on_psh_ack_def early_outcome_def split: if_splits)

lemma tcp_counted_outcome: "a \<noteq> ATTACK_NONE \<Longrightarrow> tcp_counted a w = (early, w') \<Longrightarrow> early_outcome w early w'"
  by (auto simp: tcp_counted_def early_outcome_def Let_def split: if_splits
      intro: tcp_quiet_outcome [OF tcp_quiet_stats])

text \<open>Each branch writes the state of the packet's connection and nothing else in the heap.\<close>

definition conn_written :: "nat \<Rightarrow> (tcp_state \<Rightarrow> tcp_state) \<Rightarrow> tcp_world \<Rightarrow> tcp_world \<Rightarrow> bool" where
  "conn_written p f w w' \<longleftrightarrow> tw_cache w' = tw_cache w \<and>
     (\<exists>e. tw_heap w p = Some e \<and> tw_heap w' = (tw_heap w)(p \<mapsto> e\<lparr>ce_state := f (ce_state e)\<rparr>))"

lemma world_simps [simp]:
  "tw_heap (tcp_count f w) = tw_heap w" "tw_heap (tcp_alarm a w) = tw_heap w"
  "tw_heap (on_stats g w) = tw_heap w" "tw_heap (tcp_drop w) = tw_heap w"
  "tw_cache (tcp_count f w) = tw_cache w" "tw_cache (tcp_alarm a w) = tw_cache w"
  "tw_cache (on_stats g w) = tw_cache w" "tw_cache (tcp_drop w) = tw_cache w"
  "tw_stats (on_stats g w) = g (tw_stats w)" "tw_stats (tcp_count f w) = tw_stats w"
  "tw_stats (tcp_alarm a w) = tw_stats w" "tw_stats (tcp_drop w) = tw_stats w"
  "tw_ctx (on_stats g w) = tw_ctx w" "tw_ctx (tcp_alarm a w) = tw_ctx w"
  "tw_glob (on_stats g w) = tw_glob w" "tw_glob (tcp_count f w) = tw_glob w"
  "tw_ctx (tcp_count f w) = map_option f (tw_ctx w)"
  by (simp_all add: tcp_count_def tcp_alarm_def on_stats_def tcp_drop_def)

lemma psh_ack_world: "on_psh_ack flags w = (early, w') \<Longrightarrow> tw_heap w' = tw_heap w \<and> tw_cache w' = tw_cache w"
  by (auto simp: on_psh_ack_def split: if_splits)

lemma counted_world: "tcp_counted a w = (early, w') \<Longrightarrow> tw_heap w' = tw_heap w \<and> tw_cache w' = tw_cache w"
  by (auto simp: tcp_counted_def Let_def split: if_splits)

lemma on_syn_spec:
  assumes "on_syn cfg now p w = ret (early, w')"
  shows "early_outcome w early w' \<and> conn_written p (\<lambda>_. TCP_STATE_SYN_SENT) w w'"
proof -
  let ?w = "on_stats (\<lambda>st. st\<lparr>tcp_syn_pps := tcp_syn_pps st + 1\<rparr>)
                (tcp_count (\<lambda>t. t\<lparr>syn_packets := syn_packets t + 1\<rparr>) w)"
  have q: "tcp_quiet w ?w" by (rule tcp_quiet_trans [of _ "tcp_count (\<lambda>t. t\<lparr>syn_packets := syn_packets t + 1\<rparr>) w"]) simp_all
  obtain w1 where w1: "set_conn p (\<lambda>e. e\<lparr>ce_state := TCP_STATE_SYN_SENT\<rparr>) ?w = ret w1"
    using assms by (auto simp: on_syn_def Let_def bindM_ret)
  then have h: "conn_written p (\<lambda>_. TCP_STATE_SYN_SENT) w w1" "tcp_quiet ?w w1"
    by (auto simp: set_conn_ret conn_written_def)
  have "early_outcome w1 early w' \<and> tw_heap w' = tw_heap w1 \<and> tw_cache w' = tw_cache w1"
    using assms w1 by (auto simp: on_syn_def Let_def early_outcome_def split: if_splits)
  with h early_quiet [OF tcp_quiet_trans [OF q h(2)]] show ?thesis by (auto simp: conn_written_def)
qed

lemma on_ack_spec:
  assumes "on_ack cfg now p flags w = ret (early, w')"
  shows "early_outcome w early w' \<and> conn_written p ack_state w w'"
proof -
  let ?w = "on_stats (\<lambda>st. st\<lparr>tcp_ack_pps := tcp_ack_pps st + 1\<rparr>)
                (tcp_count (\<lambda>t. t\<lparr>ack_packets := ack_packets t + 1\<rparr>) w)"
  have q: "tcp_quiet w ?w" by (rule tcp_quiet_trans [of _ "tcp_count (\<lambda>t. t\<lparr>ack_packets := ack_packets t + 1\<rparr>) w"]) simp_all
  obtain w1 where w1: "set_conn p (\<lambda>e. e\<lparr>ce_state := ack_state (ce_state e)\<rparr>) ?w = ret w1"
    using assms by (auto simp: on_ack_def Let_def bindM_ret)
  then have h: "conn_written p ack_state w w1" "tcp_quiet ?w w1"
    by (auto simp: set_conn_ret conn_written_def)
  consider (flood) "early = Some VERDICT_DROP" "w' = tcp_drop (tcp_alarm ATTACK_TCP_ACK_FLOOD
        (on_stats (count_attack ATTACK_TCP_ACK_FLOOD) w1))"
    | (psh) w2 where "on_psh_ack flags w2 = (early, w')" "w2 = w1 \<or> w2 = on_stats (\<lambda>st. st\<lparr>tcp_ack_pps := 0\<rparr>) w1"
    using assms w1 by (auto simp: on_ack_def Let_def split: if_splits)
  then have "early_outcome w1 early w' \<and> tw_heap w' = tw_heap w1 \<and> tw_cache w' = tw_cache w1"
  proof cases
    case flood
    then show ?thesis by (simp add: early_outcome_def)
  next
    case psh
    from on_psh_ack_outcome [OF psh(1)] psh_ack_world [OF psh(1)] psh(2) show ?thesis
      by (auto intro: early_quiet [OF tcp_quiet_stats])
  qed
  with h early_quiet [OF tcp_quiet_trans [OF q h(2)]] show ?thesis by (auto simp: conn_written_def)
qed

lemma set_counted_spec:
  assumes "bindM (set_conn p (\<lambda>e. e\<lparr>ce_state := f (ce_state e)\<rparr>) (tcp_count g w))
      (\<lambda>w. ret (tcp_counted a w)) = ret (early, w')"
    and "\<And>t. tcp_dropped (g t) = tcp_dropped t" and "a \<noteq> ATTACK_NONE"
  shows "early_outcome w early w' \<and> conn_written p f w w'"
proof -
  obtain w1 where w1: "set_conn p (\<lambda>e. e\<lparr>ce_state := f (ce_state e)\<rparr>) (tcp_count g w) = ret w1"
    "tcp_counted a w1 = (early, w')" using assms(1) by (auto simp: bindM_ret)
  then have h: "conn_written p f w w1" "tcp_quiet (tcp_count g w) w1"
    by (auto simp: set_conn_ret conn_written_def)
  have "tcp_quiet w w1" by (rule tcp_quiet_trans [OF tcp_quiet_count h(2)]) (rule assms(2))
  then have "early_outcome w early w'" by (rule early_quiet) (rule tcp_counted_outcome [OF assms(3) w1(2)])
  with h counted_world [OF w1(2)] show ?thesis by (auto simp: conn_written_def)
qed

lemma flag_analysis_spec:
  assumes "tcp_flag_analysis cfg now p flags w = ret (early, w')" "p \<noteq> 0" "tw_heap w p = Some e"
  shows "early_outcome w early w' \<and> conn_written p (tcp_next flags) w w'"
proof -
  have upd: "conn_written p f w w' \<Longrightarrow> (\<And>s. tcp_next flags s = f s) \<Longrightarrow> conn_written p (tcp_next flags) w w'" for f
    by (simp add: conn_written_def)
  consider (syn) "flags = TCP_FLAG_SYN"
    | (synack) "flags \<noteq> TCP_FLAG_SYN" "flags AND (TCP_FLAG_SYN OR TCP_FLAG_ACK) = TCP_FLAG_SYN OR TCP_FLAG_ACK"
    | (ack) "flags \<noteq> TCP_FLAG_SYN" "flags AND (TCP_FLAG_SYN OR TCP_FLAG_ACK) \<noteq> TCP_FLAG_SYN OR TCP_FLAG_ACK"
        "flags = TCP_FLAG_ACK \<or> flags = TCP_FLAG_ACK OR TCP_FLAG_PSH"
    | (rest) "flags \<noteq> TCP_FLAG_SYN" "flags AND (TCP_FLAG_SYN OR TCP_FLAG_ACK) \<noteq> TCP_FLAG_SYN OR TCP_FLAG_ACK"
        "\<not> (flags = TCP_FLAG_ACK \<or> flags = TCP_FLAG_ACK OR TCP_FLAG_PSH)" by blast
  then show ?thesis
  proof cases
    case syn
    then have "on_syn cfg now p w = ret (early, w')" using assms by (simp add: tcp_flag_analysis_def)
    from on_syn_spec [OF this] syn upd show ?thesis by (auto simp: tcp_next_def)
  next
    case synack
    then obtain "early = None" "set_conn p (\<lambda>e. e\<lparr>ce_state := syn_ack_state (ce_state e)\<rparr>) w = ret w'"
      using assms by (auto simp: tcp_flag_analysis_def bindM_ret)
    then have "early_outcome w early w' \<and> conn_written p syn_ack_state w w'"
      by (auto simp: early_outcome_def conn_written_def set_conn_ret)
    with synack upd show ?thesis by (auto simp: tcp_next_def)
  next
    case ack
    then have "on_ack cfg now p flags w = ret (early, w')" using assms by (simp add: tcp_flag_analysis_def)
    from on_ack_spec [OF this] ack upd [of ack_state] show ?thesis by (simp add: tcp_next_def)
  next
    case rest
    consider (rst) "flags AND TCP_FLAG_RST \<noteq> 0"
      | (fin) "flags AND TCP_FLAG_RST = 0" "flags AND TCP_FLAG_FIN \<noteq> 0"
      | (none) "flags AND TCP_FLAG_RST = 0" "flags AND TCP_FLAG_FIN = 0" by blast
    then show ?thesis
    proof cases
      case rst
      then have "on_rst p w = ret (early, w')" using assms rest by (simp add: tcp_flag_analysis_def)
      from set_counted_spec [where f = "\<lambda>_. TCP_STATE_CLOSED", OF this [unfolded on_rst_def]] rest rst upd [of "\<lambda>_. TCP_STATE_CLOSED"]
      show ?thesis by (simp add: tcp_next_def)
    next
      case fin
      then have "on_fin p w = ret (early, w')" using assms rest by (simp add: tcp_flag_analysis_def)
      from set_counted_spec [where f = fin_state, OF this [unfolded on_fin_def]] rest fin upd [of fin_state]
      show ?thesis by (simp add: tcp_next_def)
    next
      case none
      then have "early = None" "w' = w" using assms rest by (simp_all add: tcp_flag_analysis_def)
      moreover have "(tw_heap w)(p \<mapsto> e\<lparr>ce_state := ce_state e\<rparr>) = tw_heap w" using assms(3) by auto
      ultimately show ?thesis using none rest assms(3)
        by (simp add: early_outcome_def conn_written_def tcp_next_def)
    qed
  qed
qed

lemma tcp_final_outcome:
  "tcp_final_checks pkt w = ret (v, w') \<Longrightarrow> tcp_outcome w v w' \<and> tw_heap w' = tw_heap w \<and> tw_cache w' = tw_cache w"
  by (auto simp: tcp_final_checks_def bindM_ret split: if_splits)

text \<open>A successful analysis of a TCP packet, step by step.\<close>

lemma tcp_analyze_steps:
  assumes "tcp_protect_analyze env pkt w = ret (v, w')" "protocol pkt = PROTO_TCP"
  obtains (no_conn) h c where "lru_cache_get (te_get_time env) (te_fresh env) (tw_heap w) (tw_cache w) (packet_tuple pkt) = ret (0, h, c)"
      "v = VERDICT_ACCEPT" "tcp_quiet w w'" "tw_heap w' = h" "tw_cache w' = c"
    | (conn) p h c e w3 early w4 where
      "lru_cache_get (te_get_time env) (te_fresh env) (tw_heap w) (tw_cache w) (packet_tuple pkt) = ret (p, h, c)"
      "p \<noteq> 0" "h p = Some e" "tcp_quiet w w3" "tw_stats w3 = tw_stats w"
      "tw_heap w3 = h(p \<mapsto> e\<lparr>ce_packets := ce_packets e + 1,
         ce_bytes := ce_bytes e + ucast (pkt_len pkt), ce_last_seen := te_now env\<rparr>)" "tw_cache w3 = c"
      "tcp_flag_analysis (te_cfg env) (te_now env) p (tcp_flags pkt) w3 = ret (early, w4)"
      "(early = Some v \<and> w' = w4) \<or> early = None \<and>
        (\<exists>e4. tw_heap w4 p = Some e4 \<and>
          (if is_slowloris_attack (te_slow_time env) e4 then
             v = VERDICT_DROP \<and> (\<exists>r h' c'. lru_cache_remove (tw_heap w4) (tw_cache w4) (packet_tuple pkt) = ret (r, h', c') \<and>
               w' = (tcp_drop (tcp_alarm ATTACK_SLOWLORIS (on_stats (count_attack ATTACK_SLOWLORIS) w4)))
                 \<lparr>tw_heap := h', tw_cache := c'\<rparr>)
           else tcp_final_checks pkt w4 = ret (v, w')))"
proof -
  let ?w1 = "tcp_count (\<lambda>t. t\<lparr>total_tcp_packets := total_tcp_packets t + 1\<rparr>) w"
  have ctx: "tw_ctx w \<noteq> None" using assms by (auto simp: tcp_protect_analyze_def split: if_splits)
  obtain p h c where g: "lru_cache_get (te_get_time env) (te_fresh env) (tw_heap w) (tw_cache w) (packet_tuple pkt) = ret (p, h, c)"
    using assms ctx by (auto simp: tcp_protect_analyze_def Let_def bindM_ret)
  let ?w2 = "?w1\<lparr>tw_heap := h, tw_cache := c\<rparr>"
  have q: "tcp_quiet w ?w2" by (rule tcp_quiet_trans [of _ ?w1]) simp_all
  show ?thesis
  proof (cases "p = 0")
    case True
    then have "v = VERDICT_ACCEPT" "w' = ?w2"
      using assms ctx g by (auto simp: tcp_protect_analyze_def Let_def)
    with g True q show ?thesis by (intro no_conn) auto
  next
    case False
    let ?f = "\<lambda>e. e\<lparr>ce_packets := ce_packets e + 1,
         ce_bytes := ce_bytes e + ucast (pkt_len pkt), ce_last_seen := te_now env\<rparr>"
    obtain w3 early w4 where w: "set_conn p ?f ?w2 = ret w3"
      "tcp_flag_analysis (te_cfg env) (te_now env) p (tcp_flags pkt) w3 = ret (early, w4)"
      "(case early of Some v \<Rightarrow> ret (v, w4)
        | None \<Rightarrow> bindM (hread (tw_heap w4) p) (\<lambda>conn.
             if is_slowloris_attack (te_slow_time env) conn then
               (let w5 = tcp_drop (tcp_alarm ATTACK_SLOWLORIS (on_stats (count_attack ATTACK_SLOWLORIS) w4))
                in bindM (lru_cache_remove (tw_heap w5) (tw_cache w5) (packet_tuple pkt)) (\<lambda>(_, h, c).
                     ret (VERDICT_DROP, w5\<lparr>tw_heap := h, tw_cache := c\<rparr>)))
             else tcp_final_checks pkt w4)) = ret (v, w')"
      using assms ctx g False by (auto simp: tcp_protect_analyze_def Let_def bindM_ret simp del: bindM_simps)
    obtain e where e: "h p = Some e" "w3 = ?w2\<lparr>tw_heap := h(p \<mapsto> ?f e)\<rparr>"
      using w(1) by (auto simp: set_conn_ret)
    have q3: "tcp_quiet w w3" using q e(2) by (simp add: tcp_quiet_def)
    have tail: "(early = Some v \<and> w' = w4) \<or> early = None \<and>
        (\<exists>e4. tw_heap w4 p = Some e4 \<and>
          (if is_slowloris_attack (te_slow_time env) e4 then
             v = VERDICT_DROP \<and> (\<exists>r h' c'. lru_cache_remove (tw_heap w4) (tw_cache w4) (packet_tuple pkt) = ret (r, h', c') \<and>
               w' = (tcp_drop (tcp_alarm ATTACK_SLOWLORIS (on_stats (count_attack ATTACK_SLOWLORIS) w4)))
                 \<lparr>tw_heap := h', tw_cache := c'\<rparr>)
           else tcp_final_checks pkt w4 = ret (v, w')))"
    proof (cases early)
      case None
      with w(3) obtain e4 where "hread (tw_heap w4) p = ret e4" by (auto simp: bindM_ret)
      with w(3) None show ?thesis
        by (cases "is_slowloris_attack (te_slow_time env) e4")
          (auto simp: bindM_ret hread_def Let_def split: if_splits option.splits)
    qed (use w(3) in auto)
    show ?thesis
      by (rule conn [OF g False e(1) q3 _ _ _ w(2) tail]) (simp_all add: e(2))
  qed
qed

lemma tcp_analyze_outcome:
  assumes "tcp_protect_analyze env pkt w = ret (v, w')"
  shows "tcp_outcome w v w'"
proof (cases "protocol pkt = PROTO_TCP")
  case False
  with assms show ?thesis by (auto simp: tcp_protect_analyze_def)
next
  case True
  from assms True show ?thesis
  proof (cases rule: tcp_analyze_steps)
    case no_conn
    then show ?thesis using tcp_quiet_outcome [OF no_conn(3) outcome_accept] by simp
  next
    case (conn p h c e w3 early w4)
    have fa: "early_outcome w3 early w4"
      using flag_analysis_spec [OF conn(8,2)] conn(6) by simp
    have "tcp_outcome w3 v w'"
    proof (cases early)
      case None
      then have q: "tcp_quiet w3 w4" using fa by (simp add: early_outcome_def)
      obtain e4 where t: "if is_slowloris_attack (te_slow_time env) e4 then
             v = VERDICT_DROP \<and> (\<exists>r h' c'. lru_cache_remove (tw_heap w4) (tw_cache w4) (packet_tuple pkt) = ret (r, h', c') \<and>
               w' = (tcp_drop (tcp_alarm ATTACK_SLOWLORIS (on_stats (count_attack ATTACK_SLOWLORIS) w4)))
                 \<lparr>tw_heap := h', tw_cache := c'\<rparr>)
           else tcp_final_checks pkt w4 = ret (v, w')" using conn(9) None by auto
      have "tcp_outcome w4 v w'"
      proof (cases "is_slowloris_attack (te_slow_time env) e4")
        case True
        with t obtain h' c' where "v = VERDICT_DROP"
          "w' = (tcp_drop (tcp_alarm ATTACK_SLOWLORIS (on_stats (count_attack ATTACK_SLOWLORIS) w4)))
                 \<lparr>tw_heap := h', tw_cache := c'\<rparr>" by auto
        moreover have "tcp_outcome w4 VERDICT_DROP (tcp_drop (tcp_alarm ATTACK_SLOWLORIS (on_stats (count_attack ATTACK_SLOWLORIS) w4)))"
          by simp
        ultimately show ?thesis by (simp add: tcp_outcome_def tcp_drops_def)
      next
        case False
        with t tcp_final_outcome show ?thesis by simp
      qed
      with q show ?thesis by (rule tcp_quiet_outcome)
    next
      case (Some v')
      with conn(9) fa show ?thesis by (auto simp: early_outcome_def)
    qed
    with conn(4) show ?thesis by (rule tcp_quiet_outcome)
  qed
qed

lemma tcp_analyze_counted:
  assumes "tcp_protect_analyze env pkt w = ret (v, w')"
  shows "counted_outcome (tcp_drops w) (tw_glob w) v (tcp_drops w') (tw_glob w')"
proof (cases "tw_ctx w")
  case None
  with assms have "v = VERDICT_ACCEPT" "w' = w" by (auto simp: tcp_protect_analyze_def split: if_splits)
  then show ?thesis by auto
next
  case (Some t)
  with tcp_analyze_outcome [OF assms] show ?thesis by (simp add: tcp_outcome_def)
qed

interpretation tcp: counting_detector tcp_protect_analyze tcp_drops tw_glob
  by (rule counting_detectorI) (rule tcp_analyze_counted)

section \<open>What is accepted\<close>

text \<open>C17: what \<open>tcp_protect_analyze\<close> lets through, when the cache delivers a connection entry: no
  accepted packet is malformed, carries SYN together with FIN or RST, carries no flag at all, or
  carries FIN, PSH and URG together; and an accepted SYN from a source with reputation below 50
  means that the cache was not nearly full.\<close>

theorem tcp_accept_safe:
  assumes "tcp_protect_analyze env pkt w = ret (VERDICT_ACCEPT, w')" and "protocol pkt = PROTO_TCP"
    and "lru_cache_get (te_get_time env) (te_fresh env) (tw_heap w) (tw_cache w) (packet_tuple pkt) = ret (p, h, c)"
    and "p \<noteq> 0"
  shows "packet_is_malformed pkt = Inr False \<and>
    tcp_flags pkt AND 0x03 \<noteq> 0x03 \<and> tcp_flags pkt AND 0x06 \<noteq> 0x06 \<and> tcp_flags pkt \<noteq> 0 \<and>
    tcp_flags pkt AND 0x29 \<noteq> 0x29 \<and>
    (tcp_flags pkt = TCP_FLAG_SYN \<and> reputation_score (tw_stats w') < 50 \<longrightarrow> unat (lru_cache_size c) \<le> 471859)"
  using assms(1,2)
proof (cases rule: tcp_analyze_steps)
  case no_conn
  with assms(3,4) show ?thesis by simp
next
  case (conn q h' c' e w3 early w4)
  have eq: "h' = h" "c' = c" "q = p" using conn(1) assms(3) by simp_all
  have fa: "early_outcome w3 early w4" "tw_cache w4 = tw_cache w3"
    using flag_analysis_spec [OF conn(8,2)] conn(6) by (auto simp: conn_written_def)
  then have "early = None" using conn(9) by (auto simp: early_outcome_def)
  with conn(9) have f: "tcp_final_checks pkt w4 = ret (VERDICT_ACCEPT, w')" by (auto split: if_splits)
  then have m: "packet_is_malformed pkt = Inr False" "\<not> tcp_bad_flags (tcp_flags pkt)" "w' = w4"
    "\<not> (table_nearly_full (tw_cache w4) \<and> tcp_flags pkt = TCP_FLAG_SYN \<and> reputation_score (tw_stats w4) < 50)"
    by (auto simp: tcp_final_checks_def bindM_ret split: if_splits)
  have "tw_cache w4 = c" using fa(2) conn(7) eq by simp
  with m show ?thesis
    by (auto simp: tcp_bad_flags_def tcp_flag_defs table_nearly_full_def LRU_CACHE_SIZE_def)
qed

section \<open>The connection state\<close>

text \<open>The state of a connection after the packets seen so far.\<close>

definition conn_state_after :: "packet list \<Rightarrow> conn_tuple \<Rightarrow> tcp_state" where
  "conn_state_after hist k =
     fold tcp_next (map tcp_flags (filter (\<lambda>p. tuple_key (packet_tuple p) = k) hist)) TCP_STATE_CLOSED"

definition tcp_tracked :: "packet list \<Rightarrow> tcp_world \<Rightarrow> bool" where
  "tcp_tracked hist w \<longleftrightarrow> (\<exists>c xs. tw_cache w = Some c \<and> lru_ok (tw_heap w) c xs \<and>
     set (lru_keys (tw_heap w) xs) = tuple_key ` packet_tuple ` set hist \<and>
     (\<forall>x \<in> set xs. \<exists>e. tw_heap w x = Some e \<and> ce_state e = conn_state_after hist (tuple_key (ce_tuple e))))"

lemma conn_state_snoc:
  "conn_state_after (hist @ [pkt]) k =
    (if tuple_key (packet_tuple pkt) = k then tcp_next (tcp_flags pkt) (conn_state_after hist k)
     else conn_state_after hist k)"
  by (simp add: conn_state_after_def)

lemma conn_state_new: "k \<notin> tuple_key ` packet_tuple ` set hist \<Longrightarrow> conn_state_after hist k = TCP_STATE_CLOSED"
proof -
  assume "k \<notin> tuple_key ` packet_tuple ` set hist"
  then have "filter (\<lambda>p. tuple_key (packet_tuple p) = k) hist = []" by (auto simp: filter_empty_conv)
  then show ?thesis unfolding conn_state_after_def by simp
qed

text \<open>After the lookup: the cache holds the packet's connection, all states as before.\<close>

lemma tracked_get:
  assumes tr: "tcp_tracked hist w" and fresh: "te_fresh env \<noteq> 0" "tw_heap w (te_fresh env) = None"
    and get: "lru_cache_get (te_get_time env) (te_fresh env) (tw_heap w) (tw_cache w) (packet_tuple pkt) = ret (p, h, c)"
  shows "\<exists>c' xs. c = Some c' \<and> lru_ok h c' xs \<and> p \<in> set xs \<and> key_at h p = tuple_key (packet_tuple pkt) \<and>
    set (lru_keys h xs) = insert (tuple_key (packet_tuple pkt)) (tuple_key ` packet_tuple ` set hist) \<and>
    (\<forall>x \<in> set xs. \<exists>e. h x = Some e \<and> ce_state e = conn_state_after hist (tuple_key (ce_tuple e))) \<and>
    (\<forall>x. x \<noteq> te_fresh env \<longrightarrow> tw_heap w x = None \<longrightarrow> h x = None)"
proof -
  let ?k = "tuple_key (packet_tuple pkt)"
  obtain c0 xs where t: "tw_cache w = Some c0" "lru_ok (tw_heap w) c0 xs"
    "set (lru_keys (tw_heap w) xs) = tuple_key ` packet_tuple ` set hist"
    "\<forall>x \<in> set xs. \<exists>e. tw_heap w x = Some e \<and> ce_state e = conn_state_after hist (tuple_key (ce_tuple e))"
    using tr by (auto simp: tcp_tracked_def)
  have keep: "\<exists>e. h x = Some e \<and> ce_state e = conn_state_after hist (tuple_key (ce_tuple e))"
    if "x \<in> set xs" "same_state (tw_heap w) h" for x
  proof -
    obtain e where e: "tw_heap w x = Some e" "ce_state e = conn_state_after hist (tuple_key (ce_tuple e))"
      using t(4) \<open>x \<in> set xs\<close> by blast
    from same_stateD [OF that(2) e(1)] e(2) show ?thesis by auto
  qed
  have un: "x \<notin> set xs" if "tw_heap w x = None" for x using lru_ok_alloc [OF t(2), of x] that by auto
  show ?thesis
  proof (cases "?k \<in> set (lru_keys (tw_heap w) xs)")
    case True
    from lru_get_hit [OF t(2) True, of "te_get_time env" "te_fresh env"] get t(1)
    obtain c' where r: "c = Some c'" "p \<in> set xs" "lru_ok h c' (p # remove1 p xs)"
      "lru_keys h (p # remove1 p xs) = ?k # remove1 ?k (lru_keys (tw_heap w) xs)" "same_state (tw_heap w) h"
      "\<forall>x. x \<notin> set xs \<longrightarrow> h x = tw_heap w x" by auto
    have d: "distinct (lru_keys (tw_heap w) xs)" by (rule lru_ok_keys_distinct [OF t(2)])
    have "set (lru_keys h (p # remove1 p xs)) = insert ?k (tuple_key ` packet_tuple ` set hist)"
      unfolding r(4) using d t(3) by (simp add: distinct_remove1_removeAll) 
    moreover have "key_at h p = ?k" using r(4) by (simp add: lru_keys_def)
    moreover have "\<forall>x \<in> set (p # remove1 p xs). x \<in> set xs" using r(2) by (auto dest: set_remove1_subset [THEN subsetD])
    moreover have "\<forall>x. tw_heap w x = None \<longrightarrow> h x = None" using r(6) un by simp
    ultimately show ?thesis using r keep by (intro exI [of _ c'] exI [of _ "p # remove1 p xs"]) auto
  next
    case False
    have len: "length xs \<le> unat (lru_max_size c0)" using t(2) by (auto simp: lru_ok_def word_le_nat_alt)
    have "length xs \<noteq> unat (lru_max_size c0)"
      using lru_get_full [OF t(2) False _ fresh, of "te_get_time env"] get t(1) by auto
    with len have room: "length xs < unat (lru_max_size c0)" by simp
    from lru_get_miss [OF t(2) False room fresh, of "te_get_time env"] get t(1)
    obtain c' e n where r: "c = Some c'" "p = te_fresh env" "lru_ok h c' (p # xs)"
      "lru_keys h (p # xs) = ?k # lru_keys (tw_heap w) xs" "same_state (tw_heap w) h"
      "h p = Some e" "relinked ((new_conn (te_get_time env) (packet_tuple pkt))\<lparr>ce_next := n\<rparr>) e"
      "\<forall>x. x \<notin> set (p # xs) \<longrightarrow> h x = tw_heap w x" by auto
    have e: "ce_state e = TCP_STATE_CLOSED" "ce_tuple e = packet_tuple pkt"
      using relinked_fields [OF r(7)] by (simp_all add: new_conn_def zero_conn_def)
    have "conn_state_after hist ?k = TCP_STATE_CLOSED" using False t(3) by (intro conn_state_new) simp
    then have "\<forall>x \<in> set (p # xs). \<exists>e. h x = Some e \<and> ce_state e = conn_state_after hist (tuple_key (ce_tuple e))"
      using keep r(5,6) e by auto
    moreover have "key_at h p = ?k" using r(4) by (simp add: lru_keys_def)
    moreover have "\<forall>x. x \<noteq> te_fresh env \<longrightarrow> tw_heap w x = None \<longrightarrow> h x = None"
      using r(2,8) un by simp
    ultimately show ?thesis using r(1,3,4) t(3) by (intro exI [of _ c'] exI [of _ "p # xs"]) simp
  qed
qed

text \<open>One packet of a run.\<close>

lemma tracked_step:
  assumes tr: "tcp_tracked hist w" and fresh: "te_fresh env \<noteq> 0" "tw_heap w (te_fresh env) = None"
    and an: "tcp_protect_analyze env pkt w = ret (v, w')" and tcp: "protocol pkt = PROTO_TCP"
  shows "tcp_tracked (hist @ [pkt]) w' \<and>
    (\<forall>x. x \<noteq> te_fresh env \<longrightarrow> tw_heap w x = None \<longrightarrow> tw_heap w' x = None)"
  using an tcp
proof (cases rule: tcp_analyze_steps)
  case no_conn
  from tracked_get [OF tr fresh no_conn(1)] show ?thesis using lru_ok_alloc by blast
next
  case (conn p h c e w3 early w4)
  let ?k = "tuple_key (packet_tuple pkt)"
  obtain c' xs where g: "c = Some c'" "lru_ok h c' xs" "p \<in> set xs" "key_at h p = ?k"
    "set (lru_keys h xs) = insert ?k (tuple_key ` packet_tuple ` set hist)"
    "\<forall>x \<in> set xs. \<exists>e. h x = Some e \<and> ce_state e = conn_state_after hist (tuple_key (ce_tuple e))"
    "\<forall>x. x \<noteq> te_fresh env \<longrightarrow> tw_heap w x = None \<longrightarrow> h x = None"
    using tracked_get [OF tr fresh conn(1)] by blast
  let ?e3 = "e\<lparr>ce_packets := ce_packets e + 1, ce_bytes := ce_bytes e + ucast (pkt_len pkt), ce_last_seen := te_now env\<rparr>"
  have h3: "tw_heap w3 p = Some ?e3" using conn(6) by simp
  have cw: "tw_cache w4 = Some c'" "tw_heap w4 = h(p \<mapsto> ?e3\<lparr>ce_state := tcp_next (tcp_flags pkt) (ce_state e)\<rparr>)"
    using flag_analysis_spec [OF conn(8,2) h3] conn(6,7) g(1) by (auto simp: conn_written_def)
  let ?e4 = "?e3\<lparr>ce_state := tcp_next (tcp_flags pkt) (ce_state e)\<rparr>"
  have kt: "tuple_key (ce_tuple e) = ?k" using g(4) conn(3) by (simp add: key_at_def)
  have ok4: "lru_ok (tw_heap w4) c' xs" "lru_keys (tw_heap w4) xs = lru_keys h xs"
  proof -
    have "lru_ok (tw_heap w4) c' xs \<and> lru_keys (tw_heap w4) xs = lru_keys h xs"
      unfolding cw(2) by (rule lru_ok_data [OF g(2)]) (use conn(3) in \<open>auto simp: same_links_def\<close>)
    then show "lru_ok (tw_heap w4) c' xs" "lru_keys (tw_heap w4) xs = lru_keys h xs" by simp_all
  qed
  have st4: "\<exists>e. tw_heap w4 x = Some e \<and> ce_state e = conn_state_after (hist @ [pkt]) (tuple_key (ce_tuple e))"
    if x: "x \<in> set xs" for x
  proof (cases "x = p")
    case True
    obtain e' where "h p = Some e'" "ce_state e' = conn_state_after hist (tuple_key (ce_tuple e'))"
      using g(3,6) by blast
    then show ?thesis using True conn(3) kt unfolding cw(2) by (simp add: conn_state_snoc)
  next
    case False
    obtain ex where ex: "h x = Some ex" "ce_state ex = conn_state_after hist (tuple_key (ce_tuple ex))"
      using g(6) x by blast
    have "tuple_key (ce_tuple ex) \<noteq> ?k"
    proof
      assume "tuple_key (ce_tuple ex) = ?k"
      then have "key_at h x = key_at h p" using ex(1) g(4) by (simp add: key_at_def)
      moreover obtain t where "ht_rep h t (set xs)" using lru_ok_table [OF g(2)] by blast
      ultimately show False using False ht_rep_inj x g(3) by blast
    qed
    then show ?thesis using ex False unfolding cw(2) by (simp add: conn_state_snoc)
  qed
  have tr4: "tcp_tracked (hist @ [pkt]) w4"
    unfolding tcp_tracked_def
    using cw(1) ok4 g(5) st4 by (intro exI [of _ c'] exI [of _ xs]) auto
  have fr4: "\<forall>x. x \<noteq> te_fresh env \<longrightarrow> tw_heap w x = None \<longrightarrow> tw_heap w4 x = None"
    using g(7) conn(3) unfolding cw(2) by auto
  have same: "tcp_tracked (hist @ [pkt]) w' \<and> (\<forall>x. x \<noteq> te_fresh env \<longrightarrow> tw_heap w x = None \<longrightarrow> tw_heap w' x = None)"
    if "tw_heap w' = tw_heap w4" "tw_cache w' = tw_cache w4"
    using that tr4 fr4 by (simp add: tcp_tracked_def)
  show ?thesis
  proof (cases early)
    case None
    obtain e4 where t: "if is_slowloris_attack (te_slow_time env) e4 then
           v = VERDICT_DROP \<and> (\<exists>r h' c'. lru_cache_remove (tw_heap w4) (tw_cache w4) (packet_tuple pkt) = ret (r, h', c') \<and>
             w' = (tcp_drop (tcp_alarm ATTACK_SLOWLORIS (on_stats (count_attack ATTACK_SLOWLORIS) w4)))
               \<lparr>tw_heap := h', tw_cache := c'\<rparr>)
         else tcp_final_checks pkt w4 = ret (v, w')" using conn(9) None by auto
    have "?k \<in> set (lru_keys (tw_heap w4) xs)" using ok4(2) g(5) by simp
    then have "lru_cache_remove (tw_heap w4) (tw_cache w4) (packet_tuple pkt) = fail DoubleFree"
      using lru_remove_crash [OF ok4(1)] cw(1) by simp
    with t have "tcp_final_checks pkt w4 = ret (v, w')" by (auto split: if_splits)
    from tcp_final_outcome [OF this] same show ?thesis by blast
  next
    case (Some v')
    with conn(9) same show ?thesis by auto
  qed
qed

lemma tracked_run:
  assumes "tcp_tracked hist w" and "run_steps tcp_protect_analyze ps w = ret (vs, w')"
    and "\<forall>(env, pkt) \<in> set ps. protocol pkt = PROTO_TCP \<and> te_fresh env \<noteq> 0 \<and> tw_heap w (te_fresh env) = None"
    and "distinct (map (te_fresh \<circ> fst) ps)"
  shows "tcp_tracked (hist @ map snd ps) w'"
  using assms
proof (induction ps arbitrary: hist w vs)
  case (Cons x ps)
  obtain env pkt where x: "x = (env, pkt)" by (cases x)
  obtain v vs' w1 where w1: "tcp_protect_analyze env pkt w = ret (v, w1)"
    "run_steps tcp_protect_analyze ps w1 = ret (vs', w')"
    using Cons.prems(2) unfolding x run_steps_Cons by blast
  have f: "te_fresh env \<noteq> 0" "tw_heap w (te_fresh env) = None" "protocol pkt = PROTO_TCP"
    using Cons.prems(3) x by auto
  note st = tracked_step [OF Cons.prems(1) f(1,2) w1(1) f(3)]
  have "tcp_tracked ((hist @ [pkt]) @ map snd ps) w'"
  proof (rule Cons.IH [OF conjunct1 [OF st] w1(2)])
    show "\<forall>(env', pkt') \<in> set ps. protocol pkt' = PROTO_TCP \<and> te_fresh env' \<noteq> 0 \<and> tw_heap w1 (te_fresh env') = None"
    proof (intro ballI, clarify)
      fix env' pkt' assume m: "(env', pkt') \<in> set ps"
      then have "te_fresh env' \<noteq> te_fresh env" using Cons.prems(4) x by force
      with m Cons.prems(3) st
      show "protocol pkt' = PROTO_TCP \<and> te_fresh env' \<noteq> 0 \<and> tw_heap w1 (te_fresh env') = None" by force
    qed
    show "distinct (map (te_fresh \<circ> fst) ps)" using Cons.prems(4) by (simp add: comp_def)
  qed
  then show ?case using x by simp
qed simp

text \<open>A run from an empty cache is tracked.\<close>

lemma tracked_from_empty:
  assumes "lru_cache_create True True True limit = Some c" and "limit \<noteq> 0"
    and "tw_cache w = Some c" and "tw_heap w = Map.empty"
    and "run_steps tcp_protect_analyze ps w = ret (vs, w')"
    and "\<forall>(env, pkt) \<in> set ps. protocol pkt = PROTO_TCP \<and> te_fresh env \<noteq> 0"
    and "distinct (map (te_fresh \<circ> fst) ps)"
  shows "tcp_tracked (map snd ps) w'"
proof -
  have "lru_ok (tw_heap w) c []" using lru_create_ok [OF assms(1,2)] by simp
  then have "tcp_tracked [] w" using assms(3) unfolding tcp_tracked_def
    by (intro exI [of _ c] exI [of _ "[]"]) (simp add: lru_keys_def)
  from tracked_run [OF this assms(5) _ assms(7)] assms(4,6) show ?thesis by fastforce
qed

text \<open>C14: connection tracking refines a state machine. After any run of TCP packets from an empty
  cache that ends without a memory fault, the cache holds exactly the connections of the packets
  (source and destination as they stand in the packet), and the state of each is that of the
  automaton \<open>tcp_next\<close> started in \<open>CLOSED\<close> and fed the flags of that connection's packets in order.\<close>

theorem tcp_tracking_refines:
  assumes "lru_cache_create True True True limit = Some c" and "limit \<noteq> 0"
    and "tw_cache w = Some c" and "tw_heap w = Map.empty"
    and "run_steps tcp_protect_analyze ps w = ret (vs, w')"
    and "\<forall>(env, pkt) \<in> set ps. protocol pkt = PROTO_TCP \<and> te_fresh env \<noteq> 0"
    and "distinct (map (te_fresh \<circ> fst) ps)"
  shows "\<exists>c' xs. tw_cache w' = Some c' \<and> lru_ok (tw_heap w') c' xs \<and>
    set (lru_keys (tw_heap w') xs) = tuple_key ` packet_tuple ` snd ` set ps \<and>
    (\<forall>x \<in> set xs. \<exists>e. tw_heap w' x = Some e \<and>
       ce_state e = fold tcp_next (map tcp_flags (filter (\<lambda>p. tuple_key (packet_tuple p) = tuple_key (ce_tuple e)) (map snd ps))) TCP_STATE_CLOSED)"
  using tracked_from_empty [OF assms] unfolding tcp_tracked_def conn_state_after_def by (simp add: image_image)

section \<open>New connections, and slow ones\<close>

text \<open>The first packet of a connection that the cache has room for.\<close>

lemma tcp_new_conn:
  assumes "tw_cache w = Some c" and "lru_ok (tw_heap w) c xs"
    and "tuple_key (packet_tuple pkt) \<notin> set (lru_keys (tw_heap w) xs)"
    and "length xs < unat (lru_max_size c)" and "te_fresh env \<noteq> 0" and "tw_heap w (te_fresh env) = None"
  shows "\<exists>h c'. lru_cache_get (te_get_time env) (te_fresh env) (tw_heap w) (tw_cache w) (packet_tuple pkt) =
      ret (te_fresh env, h, Some c') \<and> lru_ok h c' (te_fresh env # xs) \<and>
    (\<exists>e. h (te_fresh env) = Some e \<and> ce_state e = TCP_STATE_CLOSED)"
proof -
  obtain h c' e n where g: "lru_cache_get (te_get_time env) (te_fresh env) (tw_heap w) (Some c) (packet_tuple pkt) =
      ret (te_fresh env, h, Some c')" "lru_ok h c' (te_fresh env # xs)" "h (te_fresh env) = Some e"
      "relinked ((new_conn (te_get_time env) (packet_tuple pkt))\<lparr>ce_next := n\<rparr>) e"
    using lru_get_miss [OF assms(2-6), of "te_get_time env"] by blast
  have "ce_state e = TCP_STATE_CLOSED" using relinked_fields [OF g(4)] by (simp add: new_conn_def)
  with g assms(1) show ?thesis by auto
qed

lemma tcp_syn_accepted:
  assumes "tw_cache w = Some c" and "lru_ok (tw_heap w) c xs"
    and "tuple_key (packet_tuple pkt) \<notin> set (lru_keys (tw_heap w) xs)"
    and "length xs < unat (lru_max_size c)" and "te_fresh env \<noteq> 0" and "tw_heap w (te_fresh env) = None"
    and "protocol pkt = PROTO_TCP" and "tcp_flags pkt = TCP_FLAG_SYN" and "packet_is_malformed pkt = Inr False"
    and "tw_ctx w = Some t" and "te_now env \<le> last_update (tw_stats w)" and "length xs < 400000"
  shows "\<exists>w'. tcp_protect_analyze env pkt w = ret (VERDICT_ACCEPT, w') \<and> tw_ctx w' \<noteq> None"
proof -
  obtain h c' e where g: "lru_cache_get (te_get_time env) (te_fresh env) (tw_heap w) (Some c) (packet_tuple pkt) =
      ret (te_fresh env, h, Some c')" "lru_ok h c' (te_fresh env # xs)" "h (te_fresh env) = Some e"
    using tcp_new_conn [OF assms(1-6)] assms(1) by auto
  have "unat (lru_current_size c') = Suc (length xs)" using g(2) by (simp add: lru_ok_def)
  then have nf: "\<not> table_nearly_full (Some c')"
    using assms(12) by (simp add: table_nearly_full_def lru_cache_size_def LRU_CACHE_SIZE_def)
  have fl: "\<not> tcp_bad_flags TCP_FLAG_SYN" by (simp add: tcp_bad_flags_def tcp_flag_defs)
  have lu: "\<not> 1 \<le> te_now env - last_update (tw_stats w)" using assms(11) by simp
  show ?thesis
    using assms(1,5,7-10) g(1,3) nf fl lu
    by (simp add: tcp_protect_analyze_def Let_def set_conn_def hwrite_def hread_def tcp_flag_analysis_def
        on_syn_def is_slowloris_attack_def tcp_final_checks_def tcp_count_def on_stats_def)
qed

lemma alarm_inject: "alarm a g = alarm b g \<longleftrightarrow> a = b"
proof
  assume "alarm a g = alarm b g"
  then have "bump a (attacks_detected g) a = bump b (attacks_detected g) a" by (metis alarm_simps(1))
  then show "a = b" by (auto simp: bump_def split: if_splits)
qed simp

lemma alarm_changes: "alarm a g \<noteq> g" "g \<noteq> alarm a g"
proof -
  show "alarm a g \<noteq> g"
  proof
    assume "alarm a g = g"
    then have "bump a (attacks_detected g) a = attacks_detected g a" by (metis alarm_simps(1))
    then show False by simp
  qed
  then show "g \<noteq> alarm a g" by metis
qed

section \<open>An analysis on a connection the cache delivers\<close>

text \<open>The flood the flag analysis sees, on the statistics of the source before the packet.\<close>

definition flag_flood :: "config \<Rightarrow> time_t \<Rightarrow> u8 \<Rightarrow> ip_stats \<Rightarrow> attack_type option" where
  "flag_flood cfg now flags st =
     (if flags = TCP_FLAG_SYN then
        if 1 \<le> now - last_update st \<and> ucast (tcp_syn_pps_threshold cfg) < tcp_syn_pps st + 1 then Some ATTACK_TCP_SYN_FLOOD else None
      else if flags AND (TCP_FLAG_SYN OR TCP_FLAG_ACK) = TCP_FLAG_SYN OR TCP_FLAG_ACK then None
      else if flags = TCP_FLAG_ACK \<or> flags = TCP_FLAG_ACK OR TCP_FLAG_PSH then
        if 1 \<le> now - last_update st \<and> ucast (tcp_ack_pps_threshold cfg) < tcp_ack_pps st + 1 then Some ATTACK_TCP_ACK_FLOOD
        else if flags = TCP_FLAG_ACK OR TCP_FLAG_PSH \<and> 1000 < st_packets st ATTACK_TCP_PSH_ACK_FLOOD then Some ATTACK_TCP_PSH_ACK_FLOOD
        else None
      else if flags AND TCP_FLAG_RST \<noteq> 0 then
        if 5000 < st_packets st ATTACK_TCP_RST_FLOOD + 1 then Some ATTACK_TCP_RST_FLOOD else None
      else if flags AND TCP_FLAG_FIN \<noteq> 0 then
        if 5000 < st_packets st ATTACK_TCP_FIN_FLOOD + 1 then Some ATTACK_TCP_FIN_FLOOD else None
      else None)"

text \<open>With a connection at hand the flag analysis returns, and stops exactly at such a flood.\<close>

definition flood_answer :: "tcp_world \<Rightarrow> attack_type option \<Rightarrow> verdict option \<Rightarrow> tcp_world \<Rightarrow> bool" where
  "flood_answer w fl early w' \<longleftrightarrow> (tw_ctx w \<noteq> None \<longrightarrow> tw_ctx w' \<noteq> None) \<and>
     (case fl of None \<Rightarrow> early = None \<and> tw_glob w' = tw_glob w
      | Some a \<Rightarrow> early = Some VERDICT_DROP \<and> tw_glob w' = alarm a (tw_glob w))"

lemma world_alarm [simp]:
  "tw_glob (tcp_drop w) = tw_glob w" "tw_glob (tcp_alarm a w) = alarm a (tw_glob w)" 
  "tw_ctx (tcp_drop w) = map_option (\<lambda>t. t\<lparr>tcp_dropped := tcp_dropped t + 1\<rparr>) (tw_ctx w)"
  by (simp_all add: tcp_drop_def tcp_alarm_def tcp_count_def)

lemma set_conn_some: "p \<noteq> 0 \<Longrightarrow> tw_heap w p = Some e \<Longrightarrow> set_conn p f w = ret (w\<lparr>tw_heap := (tw_heap w)(p \<mapsto> f e)\<rparr>)"
  by (simp add: set_conn_def hwrite_def hread_def)

lemma psh_ack_answer: "\<exists>early w'. on_psh_ack flags w = (early, w') \<and>
    flood_answer w (if flags = TCP_FLAG_ACK OR TCP_FLAG_PSH \<and> 1000 < st_packets (tw_stats w) ATTACK_TCP_PSH_ACK_FLOOD
      then Some ATTACK_TCP_PSH_ACK_FLOOD else None) early w'"
  by (auto simp: on_psh_ack_def flood_answer_def)

lemma counted_answer: "\<exists>early w'. tcp_counted a w = (early, w') \<and>
    flood_answer w (if 5000 < st_packets (tw_stats w) a + 1 then Some a else None) early w'"
  by (auto simp: tcp_counted_def flood_answer_def Let_def)

lemma flag_analysis_answer:
  assumes "p \<noteq> 0" and "tw_heap w p = Some e"
  shows "\<exists>early w'. tcp_flag_analysis cfg now p flags w = ret (early, w') \<and>
    flood_answer w (flag_flood cfg now flags (tw_stats w)) early w'"
proof -
  note sc = set_conn_some [OF assms(1)]
  consider (syn) "flags = TCP_FLAG_SYN"
    | (synack) "flags \<noteq> TCP_FLAG_SYN" "flags AND (TCP_FLAG_SYN OR TCP_FLAG_ACK) = TCP_FLAG_SYN OR TCP_FLAG_ACK"
    | (ack) "flags \<noteq> TCP_FLAG_SYN" "flags AND (TCP_FLAG_SYN OR TCP_FLAG_ACK) \<noteq> TCP_FLAG_SYN OR TCP_FLAG_ACK"
        "flags = TCP_FLAG_ACK \<or> flags = TCP_FLAG_ACK OR TCP_FLAG_PSH"
    | (rest) "flags \<noteq> TCP_FLAG_SYN" "flags AND (TCP_FLAG_SYN OR TCP_FLAG_ACK) \<noteq> TCP_FLAG_SYN OR TCP_FLAG_ACK"
        "\<not> (flags = TCP_FLAG_ACK \<or> flags = TCP_FLAG_ACK OR TCP_FLAG_PSH)" by blast
  then show ?thesis
  proof cases
    case syn
    then show ?thesis using assms
      by (simp add: tcp_flag_analysis_def on_syn_def flag_flood_def Let_def sc flood_answer_def)
  next
    case synack
    then show ?thesis using assms by (simp add: tcp_flag_analysis_def flag_flood_def sc flood_answer_def)
  next
    case ack
    let ?w = "on_stats (\<lambda>st. st\<lparr>tcp_ack_pps := tcp_ack_pps st + 1\<rparr>) (tcp_count (\<lambda>t. t\<lparr>ack_packets := ack_packets t + 1\<rparr>) w)"
    let ?w1 = "?w\<lparr>tw_heap := (tw_heap w)(p \<mapsto> e\<lparr>ce_state := ack_state (ce_state e)\<rparr>)\<rparr>"
    have "on_ack cfg now p flags w =
        (if 1 \<le> now - last_update (tw_stats w) \<and> ucast (tcp_ack_pps_threshold cfg) < tcp_ack_pps (tw_stats w) + 1
         then ret (Some VERDICT_DROP, tcp_drop (tcp_alarm ATTACK_TCP_ACK_FLOOD (on_stats (count_attack ATTACK_TCP_ACK_FLOOD) ?w1)))
         else ret (on_psh_ack flags (if 1 \<le> now - last_update (tw_stats w) then on_stats (\<lambda>st. st\<lparr>tcp_ack_pps := 0\<rparr>) ?w1 else ?w1)))"
      using assms by (simp add: on_ack_def Let_def sc)
    moreover obtain early w' where "on_psh_ack flags
        (if 1 \<le> now - last_update (tw_stats w) then on_stats (\<lambda>st. st\<lparr>tcp_ack_pps := 0\<rparr>) ?w1 else ?w1) = (early, w')"
      "flood_answer (if 1 \<le> now - last_update (tw_stats w) then on_stats (\<lambda>st. st\<lparr>tcp_ack_pps := 0\<rparr>) ?w1 else ?w1)
        (if flags = TCP_FLAG_ACK OR TCP_FLAG_PSH \<and> 1000 < st_packets (tw_stats w) ATTACK_TCP_PSH_ACK_FLOOD
          then Some ATTACK_TCP_PSH_ACK_FLOOD else None) early w'"
      using psh_ack_answer [of flags "if 1 \<le> now - last_update (tw_stats w) then on_stats (\<lambda>st. st\<lparr>tcp_ack_pps := 0\<rparr>) ?w1 else ?w1"]
      by (auto split: if_splits)
    ultimately show ?thesis using ack
      by (cases "1 \<le> now - last_update (tw_stats w)")
        (auto simp: tcp_flag_analysis_def flag_flood_def flood_answer_def split: if_splits)
  next
    case rest
    consider (rst) "flags AND TCP_FLAG_RST \<noteq> 0"
      | (fin) "flags AND TCP_FLAG_RST = 0" "flags AND TCP_FLAG_FIN \<noteq> 0"
      | (none) "flags AND TCP_FLAG_RST = 0" "flags AND TCP_FLAG_FIN = 0" by blast
    then show ?thesis
    proof cases
      case rst
      let ?w = "(tcp_count (\<lambda>t. t\<lparr>rst_packets := rst_packets t + 1\<rparr>) w)\<lparr>tw_heap := (tw_heap w)(p \<mapsto> e\<lparr>ce_state := TCP_STATE_CLOSED\<rparr>)\<rparr>"
      have "tcp_flag_analysis cfg now p flags w = ret (tcp_counted ATTACK_TCP_RST_FLOOD ?w)"
        using rest rst assms by (simp add: tcp_flag_analysis_def on_rst_def sc)
      with counted_answer [of ATTACK_TCP_RST_FLOOD ?w] rest rst show ?thesis
        by (auto simp: flag_flood_def flood_answer_def)
    next
      case fin
      let ?w = "(tcp_count (\<lambda>t. t\<lparr>fin_packets := fin_packets t + 1\<rparr>) w)\<lparr>tw_heap := (tw_heap w)(p \<mapsto> e\<lparr>ce_state := fin_state (ce_state e)\<rparr>)\<rparr>"
      have "tcp_flag_analysis cfg now p flags w = ret (tcp_counted ATTACK_TCP_FIN_FLOOD ?w)"
        using rest fin assms by (simp add: tcp_flag_analysis_def on_fin_def sc)
      with counted_answer [of ATTACK_TCP_FIN_FLOOD ?w] rest fin show ?thesis
        by (auto simp: flag_flood_def flood_answer_def)
    next
      case none
      then show ?thesis using rest by (simp add: tcp_flag_analysis_def flag_flood_def flood_answer_def)
    qed
  qed
qed

text \<open>The connection as the checks after the flag analysis see it.\<close>

definition conn_analysed :: "tcp_env \<Rightarrow> packet \<Rightarrow> conn_entry \<Rightarrow> conn_entry" where
  "conn_analysed env pkt e = e\<lparr>ce_packets := ce_packets e + 1, ce_bytes := ce_bytes e + ucast (pkt_len pkt),
     ce_last_seen := te_now env, ce_state := tcp_next (tcp_flags pkt) (ce_state e)\<rparr>"

text \<open>The analysis once the cache has delivered the entry \<open>p\<close>: dropped at a flood, otherwise closed as
  slow or checked further.\<close>

lemma tcp_analyze_conn:
  assumes g: "lru_cache_get (te_get_time env) (te_fresh env) (tw_heap w) (tw_cache w) (packet_tuple pkt) = ret (p, h, c)"
    and p: "p \<noteq> 0" "h p = Some e" and tcp: "protocol pkt = PROTO_TCP" and ctx: "tw_ctx w \<noteq> None"
  shows "case flag_flood (te_cfg env) (te_now env) (tcp_flags pkt) (tw_stats w) of
      Some a \<Rightarrow> \<exists>w'. tcp_protect_analyze env pkt w = ret (VERDICT_DROP, w') \<and> tw_glob w' = alarm a (tw_glob w) \<and>
        tw_cache w' = c \<and> tw_heap w' = h(p \<mapsto> conn_analysed env pkt e)
    | None \<Rightarrow> \<exists>w4. tw_heap w4 = h(p \<mapsto> conn_analysed env pkt e) \<and> tw_cache w4 = c \<and> tw_ctx w4 \<noteq> None \<and> tw_glob w4 = tw_glob w \<and>
        tcp_protect_analyze env pkt w =
          (if is_slowloris_attack (te_slow_time env) (conn_analysed env pkt e) then
             (let w5 = tcp_drop (tcp_alarm ATTACK_SLOWLORIS (on_stats (count_attack ATTACK_SLOWLORIS) w4))
              in bindM (lru_cache_remove (tw_heap w5) (tw_cache w5) (packet_tuple pkt)) (\<lambda>(_, h, c).
                   ret (VERDICT_DROP, w5\<lparr>tw_heap := h, tw_cache := c\<rparr>)))
           else tcp_final_checks pkt w4)"
proof -
  let ?e3 = "e\<lparr>ce_packets := ce_packets e + 1, ce_bytes := ce_bytes e + ucast (pkt_len pkt), ce_last_seen := te_now env\<rparr>"
  define w3 where "w3 = (tcp_count (\<lambda>t. t\<lparr>total_tcp_packets := total_tcp_packets t + 1\<rparr>) w)\<lparr>tw_heap := h(p \<mapsto> ?e3), tw_cache := c\<rparr>"
  have w3: "tw_heap w3 p = Some ?e3" "tw_heap w3 = h(p \<mapsto> ?e3)" "tw_cache w3 = c" "tw_stats w3 = tw_stats w" "tw_glob w3 = tw_glob w"
    "tw_ctx w3 \<noteq> None"
    using ctx by (simp_all add: w3_def)
  obtain early w4 where a: "tcp_flag_analysis (te_cfg env) (te_now env) p (tcp_flags pkt) w3 = ret (early, w4)"
    "flood_answer w3 (flag_flood (te_cfg env) (te_now env) (tcp_flags pkt) (tw_stats w)) early w4"
    using flag_analysis_answer [OF p(1) w3(1), of "te_cfg env" "te_now env" "tcp_flags pkt"] w3(4) by auto
  have cw: "tw_cache w4 = c" "tw_heap w4 = h(p \<mapsto> conn_analysed env pkt e)"
    using flag_analysis_spec [OF a(1) p(1) w3(1)] w3(2,3) by (auto simp: conn_written_def conn_analysed_def)
  have eq: "tcp_protect_analyze env pkt w =
      (case early of Some v \<Rightarrow> ret (v, w4)
       | None \<Rightarrow> bindM (hread (tw_heap w4) p) (\<lambda>conn.
           if is_slowloris_attack (te_slow_time env) conn then
             (let w5 = tcp_drop (tcp_alarm ATTACK_SLOWLORIS (on_stats (count_attack ATTACK_SLOWLORIS) w4))
              in bindM (lru_cache_remove (tw_heap w5) (tw_cache w5) (packet_tuple pkt)) (\<lambda>(_, h, c).
                   ret (VERDICT_DROP, w5\<lparr>tw_heap := h, tw_cache := c\<rparr>)))
           else tcp_final_checks pkt w4))"
  proof -
    have "set_conn p (\<lambda>e. e\<lparr>ce_packets := ce_packets e + 1, ce_bytes := ce_bytes e + ucast (pkt_len pkt), ce_last_seen := te_now env\<rparr>)
        ((tcp_count (\<lambda>t. t\<lparr>total_tcp_packets := total_tcp_packets t + 1\<rparr>) w)\<lparr>tw_heap := h, tw_cache := c\<rparr>) = ret w3"
      using p by (simp add: set_conn_some w3_def)
    then show ?thesis using tcp ctx g p(1) a(1) by (cases "tw_ctx w") (simp_all add: tcp_protect_analyze_def Let_def)
  qed
  have r: "hread (tw_heap w4) p = ret (conn_analysed env pkt e)" using cw(2) p(1) by (simp add: hread_def)
  show ?thesis
  proof (cases "flag_flood (te_cfg env) (te_now env) (tcp_flags pkt) (tw_stats w)")
    case None
    with a(2) w3 have "early = None" "tw_glob w4 = tw_glob w" "tw_ctx w4 \<noteq> None" by (simp_all add: flood_answer_def)
    with eq r have "tcp_protect_analyze env pkt w =
          (if is_slowloris_attack (te_slow_time env) (conn_analysed env pkt e) then
             (let w5 = tcp_drop (tcp_alarm ATTACK_SLOWLORIS (on_stats (count_attack ATTACK_SLOWLORIS) w4))
              in bindM (lru_cache_remove (tw_heap w5) (tw_cache w5) (packet_tuple pkt)) (\<lambda>(_, h, c).
                   ret (VERDICT_DROP, w5\<lparr>tw_heap := h, tw_cache := c\<rparr>)))
           else tcp_final_checks pkt w4)" by (simp only: option.case bindM_simps)
    with cw \<open>tw_glob w4 = tw_glob w\<close> \<open>tw_ctx w4 \<noteq> None\<close> show ?thesis
      unfolding None option.case by (intro exI [of _ w4] conjI)
  next
    case (Some a)
    with a(2) w3 have "early = Some VERDICT_DROP" "tw_glob w4 = alarm a (tw_glob w)" by (simp_all add: flood_answer_def)
    with eq cw Some show ?thesis by simp
  qed
qed

text \<open>What the cache delivers for a connection it holds, and for a new one it has room for.\<close>

lemma tcp_get_tracked:
  assumes "tw_cache w = Some c" and "lru_ok (tw_heap w) c xs" and "x \<in> set xs" and "tw_heap w x = Some e"
    and "tuple_key (ce_tuple e) = tuple_key (packet_tuple pkt)"
  shows "\<exists>h c' e'. lru_cache_get (te_get_time env) (te_fresh env) (tw_heap w) (tw_cache w) (packet_tuple pkt) = ret (x, h, Some c') \<and>
    x \<noteq> 0 \<and> lru_ok h c' (x # remove1 x xs) \<and> h x = Some e' \<and> relinked (e\<lparr>ce_last_seen := te_get_time env\<rparr>) e'"
proof -
  have "tuple_key (packet_tuple pkt) \<in> set (lru_keys (tw_heap w) xs)"
    using assms(3-5) by (force simp: lru_keys_def key_at_def)
  from lru_get_hit [OF assms(2) this, of "te_get_time env" "te_fresh env"]
  obtain p h c' e1 e2 where g: "lru_cache_get (te_get_time env) (te_fresh env) (tw_heap w) (Some c) (packet_tuple pkt) =
      ret (p, h, Some c')" "p \<in> set xs" "lru_ok h c' (p # remove1 p xs)"
    "lru_keys h (p # remove1 p xs) = tuple_key (packet_tuple pkt) # remove1 (tuple_key (packet_tuple pkt)) (lru_keys (tw_heap w) xs)"
    "tw_heap w p = Some e1" "h p = Some e2" "relinked (e1\<lparr>ce_last_seen := te_get_time env\<rparr>) e2"
    by blast
  have "key_at h p = tuple_key (packet_tuple pkt)" using g(4) by (simp add: lru_keys_def)
  then have "key_at (tw_heap w) p = key_at (tw_heap w) x"
    using g(5,6) assms(4,5) relinked_fields [OF g(7)] by (simp add: key_at_def)
  moreover obtain t where "ht_rep (tw_heap w) t (set xs)" using lru_ok_table [OF assms(2)] by blast
  ultimately have "p = x" using ht_rep_inj g(2) assms(3) by blast
  moreover from this have "e1 = e" using g(5) assms(4) by simp
  moreover have "p \<noteq> 0" using lru_ok_alloc [OF g(3), of p] by simp
  ultimately show ?thesis using g(1,3,6,7) assms(1) by simp
qed

lemma tcp_get_returns:
  assumes "tw_cache w = Some c" and "lru_ok (tw_heap w) c xs"
    and "tuple_key (packet_tuple pkt) \<in> set (lru_keys (tw_heap w) xs) \<or>
      length xs < unat (lru_max_size c) \<and> te_fresh env \<noteq> 0 \<and> tw_heap w (te_fresh env) = None"
  shows "\<exists>p h c' e. lru_cache_get (te_get_time env) (te_fresh env) (tw_heap w) (tw_cache w) (packet_tuple pkt) = ret (p, h, c') \<and>
    p \<noteq> 0 \<and> h p = Some e"
proof (cases "tuple_key (packet_tuple pkt) \<in> set (lru_keys (tw_heap w) xs)")
  case True
  then obtain x where x: "x \<in> set xs" "key_at (tw_heap w) x = tuple_key (packet_tuple pkt)" by (auto simp: lru_keys_def)
  then obtain e where e: "tw_heap w x = Some e" using lru_ok_alloc [OF assms(2)] by blast
  with x have "tuple_key (ce_tuple e) = tuple_key (packet_tuple pkt)" by (simp add: key_at_def)
  from tcp_get_tracked [OF assms(1,2) x(1) e this, of env] show ?thesis by blast
next
  case False
  with assms(3) have "length xs < unat (lru_max_size c)" "te_fresh env \<noteq> 0" "tw_heap w (te_fresh env) = None" by auto
  from lru_get_miss [OF assms(2) False this, of "te_get_time env"] assms(1) this(2) show ?thesis by auto
qed

lemma flood_no_slowloris: "flag_flood cfg now flags st = Some a \<Longrightarrow> a \<noteq> ATTACK_SLOWLORIS"
  by (auto simp: flag_flood_def split: if_splits)

lemma malformed_no_free: "packet_is_malformed pkt \<noteq> Inl DoubleFree"
  by (auto simp: packet_is_malformed_def bindR_Inl_iff hdr16_def rd16_def rd8_def split: option.splits if_splits)

lemma final_no_free: "tcp_final_checks pkt w \<noteq> fail DoubleFree"
  using malformed_no_free [of pkt]
  by (cases "packet_is_malformed pkt") (auto simp: tcp_final_checks_def)

lemma tcp_final_glob: "tcp_final_checks pkt w = ret (v, w') \<Longrightarrow> tw_glob w' = tw_glob w"
  by (auto simp: tcp_final_checks_def bindM_ret split: if_splits)

text \<open>C21: closing a slow connection crashes. A packet of a connection tracked in a well-formed cache,
  whatever its flags, that the flag analysis does not drop as part of a flood and that leaves the
  connection slow by either test of \<open>is_slowloris_attack\<close> (packets after a minute, bytes after half a
  minute) makes \<open>lru_cache_remove\<close> free the entry twice. That is the only way the analysis frees
  anything twice, and whenever it returns nothing was recognised as Slowloris.\<close>

theorem tcp_slowloris_frees_twice:
  assumes "tw_cache w = Some c" and "lru_ok (tw_heap w) c xs" and "x \<in> set xs" and "tw_heap w x = Some e"
    and "tuple_key (ce_tuple e) = tuple_key (packet_tuple pkt)" and "tw_ctx w \<noteq> None" and "protocol pkt = PROTO_TCP"
  shows "(tcp_protect_analyze env pkt w = fail DoubleFree \<longleftrightarrow>
      flag_flood (te_cfg env) (te_now env) (tcp_flags pkt) (tw_stats w) = None \<and>
      is_slowloris_attack (te_slow_time env) (conn_analysed env pkt e)) \<and>
    (tcp_protect_analyze env pkt w = ret (v, w') \<longrightarrow> tw_glob w' \<noteq> alarm ATTACK_SLOWLORIS (tw_glob w))"
proof -
  obtain h c' e' where g: "lru_cache_get (te_get_time env) (te_fresh env) (tw_heap w) (tw_cache w) (packet_tuple pkt) = ret (x, h, Some c')"
    "x \<noteq> 0" "lru_ok h c' (x # remove1 x xs)" "h x = Some e'" "relinked (e\<lparr>ce_last_seen := te_get_time env\<rparr>) e'"
    using tcp_get_tracked [OF assms(1-5)] by blast
  have e': "ce_state e' = ce_state e" "ce_first_seen e' = ce_first_seen e" "ce_packets e' = ce_packets e"
    "ce_bytes e' = ce_bytes e" "ce_tuple e' = ce_tuple e" using relinked_fields [OF g(5)] by simp_all
  then have sl: "is_slowloris_attack now (conn_analysed env pkt e') = is_slowloris_attack now (conn_analysed env pkt e)" for now
    by (simp add: is_slowloris_attack_def conn_analysed_def)
  let ?h = "h(x \<mapsto> conn_analysed env pkt e')"
  have "lru_ok ?h c' (x # remove1 x xs) \<and> lru_keys ?h (x # remove1 x xs) = lru_keys h (x # remove1 x xs)"
    by (rule lru_ok_data [OF g(3)]) (use g(4) in \<open>auto simp: same_links_def conn_analysed_def\<close>)
  moreover have "tuple_key (packet_tuple pkt) \<in> set (lru_keys h (x # remove1 x xs))"
    using g(4) e'(5) assms(5) by (simp add: lru_keys_def key_at_def)
  ultimately have rm: "lru_cache_remove ?h (Some c') (packet_tuple pkt) = fail DoubleFree"
    using lru_remove_crash by auto
  note an = tcp_analyze_conn [OF g(1,2,4) assms(7,6)]
  show ?thesis
  proof (cases "flag_flood (te_cfg env) (te_now env) (tcp_flags pkt) (tw_stats w)")
    case (Some a)
    then obtain w1 where "tcp_protect_analyze env pkt w = ret (VERDICT_DROP, w1)" "tw_glob w1 = alarm a (tw_glob w)"
      using an by auto
    with Some flood_no_slowloris [OF Some] show ?thesis by (auto simp: alarm_inject)
  next
    case None
    then obtain w4 where w4: "tw_heap w4 = ?h" "tw_cache w4 = Some c'" "tw_glob w4 = tw_glob w"
      "tcp_protect_analyze env pkt w =
          (if is_slowloris_attack (te_slow_time env) (conn_analysed env pkt e) then
             (let w5 = tcp_drop (tcp_alarm ATTACK_SLOWLORIS (on_stats (count_attack ATTACK_SLOWLORIS) w4))
              in bindM (lru_cache_remove (tw_heap w5) (tw_cache w5) (packet_tuple pkt)) (\<lambda>(_, h, c).
                   ret (VERDICT_DROP, w5\<lparr>tw_heap := h, tw_cache := c\<rparr>)))
           else tcp_final_checks pkt w4)"
      using an unfolding sl by auto
    show ?thesis
    proof (cases "is_slowloris_attack (te_slow_time env) (conn_analysed env pkt e)")
      case True
      then show ?thesis using None w4 rm by (simp add: Let_def)
    next
      case False
      then have "tcp_protect_analyze env pkt w = tcp_final_checks pkt w4" using w4(4) by simp
      with None False w4(3) final_no_free tcp_final_glob show ?thesis by (auto simp: alarm_changes)
    qed
  qed
qed

section \<open>Handshakes\<close>

text \<open>Two packets from the same sender to the same receiver, ports included.\<close>

definition same_direction :: "packet \<Rightarrow> packet \<Rightarrow> bool" where
  "same_direction p q \<longleftrightarrow> same_ip (src_ip p) (src_ip q) \<and> same_ip (dst_ip p) (dst_ip q) \<and>
     src_port p = src_port q \<and> dst_port p = dst_port q"

definition syn_ack_flags :: "u8 \<Rightarrow> bool" where
  "syn_ack_flags flags \<longleftrightarrow> flags AND (TCP_FLAG_SYN OR TCP_FLAG_ACK) = TCP_FLAG_SYN OR TCP_FLAG_ACK"

text \<open>Who sends a bare SYN to open a connection does not answer with SYN+ACK on it.\<close>

definition opens_or_answers :: "packet set \<Rightarrow> bool" where
  "opens_or_answers P \<longleftrightarrow> (\<forall>p \<in> P. \<forall>q \<in> P. tcp_flags p = TCP_FLAG_SYN \<and> syn_ack_flags (tcp_flags q) \<longrightarrow> \<not> same_direction p q)"

lemma same_direction_key: "tuple_key (packet_tuple p) = tuple_key (packet_tuple q) \<longleftrightarrow> same_direction p q"
  by (auto simp: tuple_key_def packet_tuple_def same_direction_def same_ip_canon)

lemma fold_no_syn:
  "TCP_FLAG_SYN \<notin> set fs \<Longrightarrow> fold tcp_next fs TCP_STATE_CLOSED = TCP_STATE_CLOSED"
  by (induction fs) (auto simp: tcp_next_def syn_ack_state_def ack_state_def fin_state_def)

lemma fold_no_syn_ack:
  "\<forall>f \<in> set fs. \<not> syn_ack_flags f \<Longrightarrow> s \<in> {TCP_STATE_CLOSED, TCP_STATE_SYN_SENT} \<Longrightarrow>
    fold tcp_next fs s \<in> {TCP_STATE_CLOSED, TCP_STATE_SYN_SENT} \<and>
    ((s = TCP_STATE_SYN_SENT \<or> TCP_FLAG_SYN \<in> set fs) \<and> (\<forall>f \<in> set fs. f AND TCP_FLAG_RST = 0) \<longrightarrow>
      fold tcp_next fs s = TCP_STATE_SYN_SENT)"
proof (induction fs arbitrary: s)
  case (Cons f fs)
  have "tcp_next f s \<in> {TCP_STATE_CLOSED, TCP_STATE_SYN_SENT} \<and>
    (f AND TCP_FLAG_RST = 0 \<longrightarrow> tcp_next f s = (if f = TCP_FLAG_SYN then TCP_STATE_SYN_SENT else s))"
    using Cons.prems by (auto simp: tcp_next_def syn_ack_flags_def ack_state_def fin_state_def)
  with Cons.IH [of "tcp_next f s"] Cons.prems(1) show ?case by auto
qed auto

lemma opening_states:
  assumes "opens_or_answers (set hist)"
  shows "conn_state_after hist k \<in> {TCP_STATE_CLOSED, TCP_STATE_SYN_SENT}"
    and "p \<in> set hist \<Longrightarrow> tcp_flags p = TCP_FLAG_SYN \<Longrightarrow>
      (\<And>q. q \<in> set hist \<Longrightarrow> same_direction p q \<Longrightarrow> tcp_flags q AND TCP_FLAG_RST = 0) \<Longrightarrow>
      conn_state_after hist (tuple_key (packet_tuple p)) = TCP_STATE_SYN_SENT"
proof -
  let ?fs = "\<lambda>k. map tcp_flags (filter (\<lambda>p. tuple_key (packet_tuple p) = k) hist)"
  have dir: "tuple_key (packet_tuple q) = tuple_key (packet_tuple p) \<Longrightarrow> same_direction p q" for p q
    using same_direction_key by metis
  have no: "\<forall>f \<in> set (?fs k). \<not> syn_ack_flags f" if syn: "TCP_FLAG_SYN \<in> set (?fs k)" for k
  proof -
    obtain p where p: "p \<in> set hist" "tuple_key (packet_tuple p) = k" "tcp_flags p = TCP_FLAG_SYN" using syn by auto
    show ?thesis using assms p dir [of _ p] unfolding opens_or_answers_def by auto
  qed
  show "conn_state_after hist k \<in> {TCP_STATE_CLOSED, TCP_STATE_SYN_SENT}"
    using fold_no_syn [of "?fs k"] fold_no_syn_ack [OF no, of k TCP_STATE_CLOSED]
    unfolding conn_state_after_def by (cases "TCP_FLAG_SYN \<in> set (?fs k)") auto
  show "conn_state_after hist (tuple_key (packet_tuple p)) = TCP_STATE_SYN_SENT"
    if p: "p \<in> set hist" "tcp_flags p = TCP_FLAG_SYN"
      and rst: "\<And>q. q \<in> set hist \<Longrightarrow> same_direction p q \<Longrightarrow> tcp_flags q AND TCP_FLAG_RST = 0"
  proof -
    let ?k = "tuple_key (packet_tuple p)"
    have s: "TCP_FLAG_SYN \<in> set (?fs ?k)" using p by force
    have "\<forall>f \<in> set (?fs ?k). f AND TCP_FLAG_RST = 0" using rst dir by auto
    with fold_no_syn_ack [OF no [OF s], of TCP_STATE_CLOSED] s show ?thesis
      unfolding conn_state_after_def by blast
  qed
qed

text \<open>C20: no connection opened by a handshake ever becomes \<open>ESTABLISHED\<close>. The SYN+ACK comes back with
  source and destination exchanged, and the cache keeps the two directions as two connections. So after
  any run of TCP packets from an empty cache in which no sender answers its own SYN with a SYN+ACK (as
  in every handshake between two endpoints), each connection in the cache is \<open>CLOSED\<close> or \<open>SYN_SENT\<close>,
  the one of a sender that sent a SYN and no RST is still \<open>SYN_SENT\<close> whatever followed, and Slowloris
  is never recognised, however slow the connections are.\<close>

theorem tcp_handshake_not_established:
  assumes "lru_cache_create True True True limit = Some c" and "limit \<noteq> 0"
    and "tw_cache w = Some c" and "tw_heap w = Map.empty"
    and "run_steps tcp_protect_analyze ps w = ret (vs, w')"
    and "\<forall>(env, pkt) \<in> set ps. protocol pkt = PROTO_TCP \<and> te_fresh env \<noteq> 0"
    and "distinct (map (te_fresh \<circ> fst) ps)"
    and "opens_or_answers (snd ` set ps)"
  shows "\<exists>c' xs. tw_cache w' = Some c' \<and> lru_ok (tw_heap w') c' xs \<and>
    (\<forall>x \<in> set xs. \<exists>e. tw_heap w' x = Some e \<and> ce_state e \<in> {TCP_STATE_CLOSED, TCP_STATE_SYN_SENT} \<and>
       (\<forall>now. \<not> is_slowloris_attack now e)) \<and>
    (\<forall>p \<in> snd ` set ps. tcp_flags p = TCP_FLAG_SYN \<and>
       (\<forall>q \<in> snd ` set ps. same_direction p q \<longrightarrow> tcp_flags q AND TCP_FLAG_RST = 0) \<longrightarrow>
       (\<exists>x \<in> set xs. \<exists>e. tw_heap w' x = Some e \<and> tuple_key (ce_tuple e) = tuple_key (packet_tuple p) \<and>
          ce_state e = TCP_STATE_SYN_SENT))"
proof -
  obtain c' xs where t: "tw_cache w' = Some c'" "lru_ok (tw_heap w') c' xs"
    "set (lru_keys (tw_heap w') xs) = tuple_key ` packet_tuple ` set (map snd ps)"
    "\<forall>x \<in> set xs. \<exists>e. tw_heap w' x = Some e \<and> ce_state e = conn_state_after (map snd ps) (tuple_key (ce_tuple e))"
    using tracked_from_empty [OF assms(1-7)] unfolding tcp_tracked_def by blast
  have o: "opens_or_answers (set (map snd ps))" using assms(8) by simp
  have pending: "\<exists>x \<in> set xs. \<exists>e. tw_heap w' x = Some e \<and> tuple_key (ce_tuple e) = tuple_key (packet_tuple p) \<and> ce_state e = TCP_STATE_SYN_SENT"
    if p: "p \<in> snd ` set ps" "tcp_flags p = TCP_FLAG_SYN"
      and r: "\<forall>q \<in> snd ` set ps. same_direction p q \<longrightarrow> tcp_flags q AND TCP_FLAG_RST = 0" for p
  proof -
    have "tuple_key (packet_tuple p) \<in> set (lru_keys (tw_heap w') xs)" using t(3) p(1) by auto
    then obtain x where x: "x \<in> set xs" "key_at (tw_heap w') x = tuple_key (packet_tuple p)" by (auto simp: lru_keys_def)
    with t(4) obtain e where "tw_heap w' x = Some e" "ce_state e = conn_state_after (map snd ps) (tuple_key (ce_tuple e))" by blast
    moreover have "conn_state_after (map snd ps) (tuple_key (packet_tuple p)) = TCP_STATE_SYN_SENT"
      using p r by (intro opening_states(2) [OF o]) auto
    ultimately show ?thesis using x by (auto simp: key_at_def)
  qed
  have opened: "\<exists>e. tw_heap w' x = Some e \<and> ce_state e \<in> {TCP_STATE_CLOSED, TCP_STATE_SYN_SENT} \<and> (\<forall>now. \<not> is_slowloris_attack now e)"
    if x: "x \<in> set xs" for x
  proof -
    obtain e where e: "tw_heap w' x = Some e" "ce_state e = conn_state_after (map snd ps) (tuple_key (ce_tuple e))" using t(4) x by blast
    with opening_states(1) [OF o, of "tuple_key (ce_tuple e)"] show ?thesis by (auto simp: is_slowloris_attack_def)
  qed
  show ?thesis
  proof (rule exI [of _ c'], rule exI [of _ xs], intro conjI)
    show "\<forall>x \<in> set xs. \<exists>e. tw_heap w' x = Some e \<and> ce_state e \<in> {TCP_STATE_CLOSED, TCP_STATE_SYN_SENT} \<and>
        (\<forall>now. \<not> is_slowloris_attack now e)" by (rule ballI) (rule opened)
    show "\<forall>p \<in> snd ` set ps. tcp_flags p = TCP_FLAG_SYN \<and>
        (\<forall>q \<in> snd ` set ps. same_direction p q \<longrightarrow> tcp_flags q AND TCP_FLAG_RST = 0) \<longrightarrow>
        (\<exists>x \<in> set xs. \<exists>e. tw_heap w' x = Some e \<and> tuple_key (ce_tuple e) = tuple_key (packet_tuple p) \<and>
          ce_state e = TCP_STATE_SYN_SENT)" by (intro ballI impI, elim conjE) (rule pending)
  qed (rule t(1,2))+
qed

text \<open>One packet for which the cache has room, and which leaves its connection in a state no slow
  connection is in: the analysis returns.\<close>

lemma tracked_progress:
  assumes tr: "tcp_tracked hist w" and cw: "tw_cache w = Some c" and fresh: "te_fresh env \<noteq> 0" "tw_heap w (te_fresh env) = None"
    and ctx: "tw_ctx w \<noteq> None" and tcp: "protocol pkt = PROTO_TCP" and mal: "packet_is_malformed pkt = Inr bad"
    and room: "card (tuple_key ` packet_tuple ` set (hist @ [pkt])) \<le> unat (lru_max_size c)"
    and st: "conn_state_after (hist @ [pkt]) (tuple_key (packet_tuple pkt)) \<in> {TCP_STATE_CLOSED, TCP_STATE_SYN_SENT}"
  shows "\<exists>v w' c'. tcp_protect_analyze env pkt w = ret (v, w') \<and> tw_ctx w' \<noteq> None \<and> tw_cache w' = Some c' \<and>
    lru_max_size c' = lru_max_size c"
proof -
  let ?k = "tuple_key (packet_tuple pkt)"
  obtain xs where t: "lru_ok (tw_heap w) c xs" "set (lru_keys (tw_heap w) xs) = tuple_key ` packet_tuple ` set hist"
    using tr cw by (auto simp: tcp_tracked_def)
  have len: "length xs = card (tuple_key ` packet_tuple ` set hist)"
    using lru_ok_keys_distinct [OF t(1)] t(2) distinct_card by (fastforce simp: lru_keys_def)
  have "\<exists>p h c'. lru_cache_get (te_get_time env) (te_fresh env) (tw_heap w) (tw_cache w) (packet_tuple pkt) = ret (p, h, Some c') \<and>
      lru_max_size c' = lru_max_size c"
  proof (cases "?k \<in> set (lru_keys (tw_heap w) xs)")
    case True
    from lru_get_hit [OF t(1) this, of "te_get_time env" "te_fresh env"] cw show ?thesis by auto
  next
    case False
    then have "length xs < unat (lru_max_size c)" using room len t(2) by (simp add: card_insert_if)
    from lru_get_miss [OF t(1) False this fresh, of "te_get_time env"] cw show ?thesis by auto
  qed
  then obtain p h c' where g: "lru_cache_get (te_get_time env) (te_fresh env) (tw_heap w) (tw_cache w) (packet_tuple pkt) = ret (p, h, Some c')"
    "lru_max_size c' = lru_max_size c" by blast
  obtain ys where ys: "lru_ok h c' ys" "p \<in> set ys" "key_at h p = ?k"
    "\<forall>x \<in> set ys. \<exists>e. h x = Some e \<and> ce_state e = conn_state_after hist (tuple_key (ce_tuple e))"
    using tracked_get [OF tr fresh g(1)] by auto
  then obtain e where e: "h p = Some e" "ce_state e = conn_state_after hist ?k" by (fastforce simp: key_at_def)
  have p0: "p \<noteq> 0" using lru_ok_alloc [OF ys(1,2)] by simp
  have ns: "\<not> is_slowloris_attack now (conn_analysed env pkt e)" for now
    using st e(2) by (auto simp: is_slowloris_attack_def conn_analysed_def conn_state_snoc)
  note an = tcp_analyze_conn [OF g(1) p0 e(1) tcp ctx]
  have "\<exists>v w'. tcp_protect_analyze env pkt w = ret (v, w') \<and> tw_cache w' = Some c'"
  proof (cases "flag_flood (te_cfg env) (te_now env) (tcp_flags pkt) (tw_stats w)")
    case None
    then obtain w4 where "tw_cache w4 = Some c'" "tcp_protect_analyze env pkt w = tcp_final_checks pkt w4"
      using an ns by auto
    with mal show ?thesis by (auto simp: tcp_final_checks_def)
  qed (use an in auto)
  then obtain v w' where v: "tcp_protect_analyze env pkt w = ret (v, w')" "tw_cache w' = Some c'" by blast
  moreover have "tw_ctx w' \<noteq> None" using tcp_analyze_outcome [OF v(1)] ctx by (simp add: tcp_outcome_def)
  ultimately show ?thesis using g(2) by blast
qed

lemma opens_subset: "opens_or_answers Q \<Longrightarrow> P \<subseteq> Q \<Longrightarrow> opens_or_answers P"
  unfolding opens_or_answers_def by blast

lemma tracked_run_returns:
  assumes "tcp_tracked hist w" and "tw_cache w = Some c" and "tw_ctx w \<noteq> None"
    and "\<forall>(env, pkt) \<in> set ps. protocol pkt = PROTO_TCP \<and> te_fresh env \<noteq> 0 \<and> tw_heap w (te_fresh env) = None \<and>
      (\<exists>bad. packet_is_malformed pkt = Inr bad)"
    and "distinct (map (te_fresh \<circ> fst) ps)"
    and "opens_or_answers (set (hist @ map snd ps))"
    and "card (tuple_key ` packet_tuple ` set (hist @ map snd ps)) \<le> unat (lru_max_size c)"
  shows "\<exists>vs w'. run_steps tcp_protect_analyze ps w = ret (vs, w') \<and> length vs = length ps"
  using assms
proof (induction ps arbitrary: hist w c)
  case (Cons x ps)
  obtain env pkt where x: "x = (env, pkt)" by (cases x)
  have f: "te_fresh env \<noteq> 0" "tw_heap w (te_fresh env) = None" "protocol pkt = PROTO_TCP" using Cons.prems(4) x by auto
  obtain bad where bad: "packet_is_malformed pkt = Inr bad" using Cons.prems(4) x by auto
  have "card (tuple_key ` packet_tuple ` set (hist @ [pkt])) \<le> card (tuple_key ` packet_tuple ` set (hist @ map snd (x # ps)))"
    by (intro card_mono) (auto simp: x)
  with Cons.prems(7) have room: "card (tuple_key ` packet_tuple ` set (hist @ [pkt])) \<le> unat (lru_max_size c)" by linarith
  have op: "opens_or_answers (set (hist @ [pkt]))" by (rule opens_subset [OF Cons.prems(6)]) (auto simp: x)
  obtain v w1 c1 where w1: "tcp_protect_analyze env pkt w = ret (v, w1)" "tw_ctx w1 \<noteq> None" "tw_cache w1 = Some c1"
    "lru_max_size c1 = lru_max_size c"
    using tracked_progress [OF Cons.prems(1,2) f(1,2) Cons.prems(3) f(3) bad room opening_states(1) [OF op]] by blast
  note st = tracked_step [OF Cons.prems(1) f(1,2) w1(1) f(3)]
  have "\<exists>vs w'. run_steps tcp_protect_analyze ps w1 = ret (vs, w') \<and> length vs = length ps"
  proof (rule Cons.IH [OF conjunct1 [OF st] w1(3,2)])
    show "\<forall>(env', pkt') \<in> set ps. protocol pkt' = PROTO_TCP \<and> te_fresh env' \<noteq> 0 \<and> tw_heap w1 (te_fresh env') = None \<and>
        (\<exists>bad. packet_is_malformed pkt' = Inr bad)"
    proof (intro ballI, clarify)
      fix env' pkt' assume m: "(env', pkt') \<in> set ps"
      then have "te_fresh env' \<noteq> te_fresh env" using Cons.prems(5) x by force
      with m Cons.prems(4) st
      show "protocol pkt' = PROTO_TCP \<and> te_fresh env' \<noteq> 0 \<and> tw_heap w1 (te_fresh env') = None \<and>
        (\<exists>bad. packet_is_malformed pkt' = Inr bad)" by force
    qed
    show "distinct (map (te_fresh \<circ> fst) ps)" using Cons.prems(5) by (simp add: comp_def)
    show "opens_or_answers (set ((hist @ [pkt]) @ map snd ps))" using Cons.prems(6) by (simp add: x)
    show "card (tuple_key ` packet_tuple ` set ((hist @ [pkt]) @ map snd ps)) \<le> unat (lru_max_size c1)"
      using Cons.prems(7) w1(4) by (simp add: x)
  qed
  then show ?case using w1(1) x by auto
qed simp

text \<open>C26: what the TCP module survives. From an empty cache with room for the connections of all its
  packets (both directions of each), every run of TCP packets whose headers lie in the captured
  bytes and in which no sender answers its own SYN returns a verdict on each packet, with no double
  free, no dangling pointer and no endless chain, whatever the flags, rates and times; it loses no
  connection (the cache then holds exactly those of the packets), and every packet it did not accept
  is counted as dropped.\<close>

theorem tcp_run_survives:
  assumes "lru_cache_create True True True limit = Some c" and "limit \<noteq> 0"
    and "tw_cache w = Some c" and "tw_heap w = Map.empty" and "tw_ctx w \<noteq> None"
    and "\<forall>(env, pkt) \<in> set ps. protocol pkt = PROTO_TCP \<and> te_fresh env \<noteq> 0 \<and> (\<exists>bad. packet_is_malformed pkt = Inr bad)"
    and "distinct (map (te_fresh \<circ> fst) ps)"
    and "opens_or_answers (snd ` set ps)"
    and "card (tuple_key ` packet_tuple ` snd ` set ps) \<le> unat limit"
  shows "\<exists>vs w' c' xs. run_steps tcp_protect_analyze ps w = ret (vs, w') \<and> length vs = length ps \<and>
    tw_cache w' = Some c' \<and> lru_ok (tw_heap w') c' xs \<and>
    set (lru_keys (tw_heap w') xs) = tuple_key ` packet_tuple ` snd ` set ps \<and>
    tcp_drops w' = tcp_drops w + of_nat (length (filter (\<lambda>v. v \<noteq> VERDICT_ACCEPT) vs))"
proof -
  have "lru_ok (tw_heap w) c []" using lru_create_ok [OF assms(1,2)] by simp
  then have tr: "tcp_tracked [] w" using assms(3) unfolding tcp_tracked_def
    by (intro exI [of _ c] exI [of _ "[]"]) (simp add: lru_keys_def)
  have "lru_max_size c = limit" using assms(1) by (auto simp: lru_cache_create_def split: option.splits if_splits)
  then have room: "card (tuple_key ` packet_tuple ` set ([] @ map snd ps)) \<le> unat (lru_max_size c)" using assms(9) by simp
  have "\<exists>vs w'. run_steps tcp_protect_analyze ps w = ret (vs, w') \<and> length vs = length ps"
    by (rule tracked_run_returns [OF tr assms(3,5) _ assms(7) _ room]) (use assms in fastforce)+
  then obtain vs w' where r: "run_steps tcp_protect_analyze ps w = ret (vs, w')" "length vs = length ps" by blast
  have "\<forall>(env, pkt) \<in> set ps. protocol pkt = PROTO_TCP \<and> te_fresh env \<noteq> 0" using assms(6) by fast
  from tracked_from_empty [OF assms(1-4) r(1) this assms(7)]
  obtain c' xs where "tw_cache w' = Some c'" "lru_ok (tw_heap w') c' xs"
    "set (lru_keys (tw_heap w') xs) = tuple_key ` packet_tuple ` snd ` set ps"
    unfolding tcp_tracked_def by (auto simp: image_image)
  with r tcp.drops_exact [OF r(1)] show ?thesis by blast
qed

text \<open>An acknowledgement, with data or without, that arrives a second or more after the last update is
  dropped as a flood when the configured threshold is 0; the ACK branch does not advance
  \<open>last_update\<close>, so the next one meets the same test. This holds for the connections the cache has
  and for new ones it has room for.\<close>

theorem tcp_ack_dropped_at_default:
  assumes "tw_cache w = Some c" and "lru_ok (tw_heap w) c xs"
    and "tuple_key (packet_tuple pkt) \<in> set (lru_keys (tw_heap w) xs) \<or>
      length xs < unat (lru_max_size c) \<and> te_fresh env \<noteq> 0 \<and> tw_heap w (te_fresh env) = None"
    and "protocol pkt = PROTO_TCP" and "tcp_flags pkt \<in> {TCP_FLAG_ACK, TCP_FLAG_ACK OR TCP_FLAG_PSH}" and "tw_ctx w \<noteq> None"
    and "tcp_ack_pps_threshold (te_cfg env) = 0" and "1 \<le> te_now env - last_update (tw_stats w)"
    and "tcp_ack_pps (tw_stats w) + 1 \<noteq> 0"
  shows "\<exists>w'. tcp_protect_analyze env pkt w = ret (VERDICT_DROP, w') \<and>
    tw_glob w' = alarm ATTACK_TCP_ACK_FLOOD (tw_glob w) \<and>
    last_update (tw_stats w') = last_update (tw_stats w) \<and>
    tcp_ack_pps (tw_stats w') = tcp_ack_pps (tw_stats w) + 1"
proof -
  obtain p h c' e where g: "lru_cache_get (te_get_time env) (te_fresh env) (tw_heap w) (tw_cache w) (packet_tuple pkt) = ret (p, h, c')"
    "p \<noteq> 0" "h p = Some e" using tcp_get_returns [OF assms(1-3)] by blast
  have gt: "0 < tcp_ack_pps (tw_stats w) + 1" using assms(9) by (simp add: word_gt_0)
  have "TCP_FLAG_ACK \<noteq> TCP_FLAG_SYN" "TCP_FLAG_ACK AND (TCP_FLAG_SYN OR TCP_FLAG_ACK) \<noteq> TCP_FLAG_SYN OR TCP_FLAG_ACK"
    "TCP_FLAG_ACK OR TCP_FLAG_PSH \<noteq> TCP_FLAG_SYN"
    "(TCP_FLAG_ACK OR TCP_FLAG_PSH) AND (TCP_FLAG_SYN OR TCP_FLAG_ACK) \<noteq> TCP_FLAG_SYN OR TCP_FLAG_ACK"
    by (simp_all add: tcp_flag_defs)
  then have "tcp_flag_analysis (te_cfg env) (te_now env) p (tcp_flags pkt) w1 = on_ack (te_cfg env) (te_now env) p (tcp_flags pkt) w1" for w1
    using assms(5) by (auto simp: tcp_flag_analysis_def)
  then show ?thesis
    using assms(4,6-8) g gt
    by (simp add: tcp_protect_analyze_def Let_def set_conn_def hwrite_def hread_def
        on_ack_def tcp_count_def on_stats_def tcp_drop_def tcp_alarm_def)
qed

section \<open>Concrete packets\<close>

text \<open>TCP segments of the example connection, and a world with an empty cache of one entry.\<close>

definition example_tcp :: "u8 \<Rightarrow> packet" where
  "example_tcp flags = zero_packet\<lparr>pkt_len := 60, protocol := PROTO_TCP,
     src_ip := \<lparr>family = AF_INET, ip_bits = 0x010200C0\<rparr>, dst_ip := \<lparr>family = AF_INET, ip_bits = 0x0100000A\<rparr>,
     src_port := 1, dst_port := 443, tcp_flags := flags\<rparr>"

definition example_reply :: "u8 \<Rightarrow> packet" where
  "example_reply flags = zero_packet\<lparr>pkt_len := 60, protocol := PROTO_TCP,
     src_ip := \<lparr>family = AF_INET, ip_bits = 0x0100000A\<rparr>, dst_ip := \<lparr>family = AF_INET, ip_bits = 0x010200C0\<rparr>,
     src_port := 443, dst_port := 1, tcp_flags := flags\<rparr>"

definition tcp_ctx0 :: tcp_protect_ctx where
  "tcp_ctx0 = \<lparr>total_tcp_packets = 0, syn_packets = 0, ack_packets = 0, rst_packets = 0,
     fin_packets = 0, tcp_dropped = 0, tcp_last_update = 0\<rparr>"

definition empty_cache :: lru_cache where
  "empty_cache = the (lru_cache_create True True True 1)"

definition tcp_world0 :: tcp_world where
  "tcp_world0 = \<lparr>tw_ctx = Some tcp_ctx0, tw_heap = Map.empty, tw_cache = Some empty_cache,
     tw_glob = zero_global_stats, tw_stats = zero_ip_stats\<rparr>"

definition example_env :: "time_t \<Rightarrow> nat \<Rightarrow> tcp_env" where
  "example_env now fresh = \<lparr>te_cfg = example_cfg, te_get_time = now, te_now = now, te_slow_time = now,
     te_fresh = fresh\<rparr>"

lemma empty_cache_create: "lru_cache_create True True True 1 = Some empty_cache"
  by (simp add: empty_cache_def lru_cache_create_def hashtable_create_def)

lemma empty_cache_size: "lru_max_size empty_cache = 1"
  by (simp add: empty_cache_def lru_cache_create_def hashtable_create_def)

lemma empty_cache_ok: "lru_ok h empty_cache []"
  by (rule lru_create_ok [OF empty_cache_create]) simp

lemma example_tcp_fields [simp]:
  "protocol (example_tcp f) = PROTO_TCP" "tcp_flags (example_tcp f) = f"
  "packet_tuple (example_tcp f) = example_tuple 1" "packet_is_malformed (example_tcp f) = Inr False"
  by (simp_all add: example_tcp_def packet_tuple_def example_tuple_def packet_is_malformed_def
      zero_packet_def proto_defs hdr_lens)

lemma tcp_world0_fields [simp]:
  "tw_ctx tcp_world0 = Some tcp_ctx0" "tw_heap tcp_world0 = Map.empty" "tw_cache tcp_world0 = Some empty_cache"
  "tw_stats tcp_world0 = zero_ip_stats" "last_update zero_ip_stats = 0" "tcp_ack_pps zero_ip_stats = 0"
  by (simp_all add: tcp_world0_def zero_ip_stats_def)

lemma example_env_fields [simp]:
  "te_cfg (example_env now fresh) = example_cfg" "te_get_time (example_env now fresh) = now"
  "te_now (example_env now fresh) = now" "te_slow_time (example_env now fresh) = now"
  "te_fresh (example_env now fresh) = fresh"
  by (simp_all add: example_env_def)

lemma example_syn_accepted:
  "\<exists>w'. tcp_protect_analyze (example_env 0 7) (example_tcp TCP_FLAG_SYN) tcp_world0 = ret (VERDICT_ACCEPT, w') \<and>
     tw_ctx w' \<noteq> None"
  by (rule tcp_syn_accepted [of _ empty_cache "[]" _ _ tcp_ctx0])
    (simp_all add: empty_cache_ok empty_cache_size lru_keys_def)

theorem tcp_accept_safe_witness:
  "\<exists>w'. tcp_protect_analyze (example_env 0 7) (example_tcp TCP_FLAG_SYN) tcp_world0 = ret (VERDICT_ACCEPT, w') \<and>
    packet_is_malformed (example_tcp TCP_FLAG_SYN) = Inr False \<and> tcp_flags (example_tcp TCP_FLAG_SYN) AND 0x06 \<noteq> 0x06"
proof -
  obtain w' where r: "tcp_protect_analyze (example_env 0 7) (example_tcp TCP_FLAG_SYN) tcp_world0 = ret (VERDICT_ACCEPT, w')"
    using example_syn_accepted by blast
  have "\<exists>h c. lru_cache_get 0 7 Map.empty (Some empty_cache) (example_tuple 1) = ret (7, h, Some c)"
    using tcp_new_conn [of tcp_world0 empty_cache "[]" "example_tcp TCP_FLAG_SYN" "example_env 0 7"]
    by (auto simp: empty_cache_ok empty_cache_size lru_keys_def)
  then obtain h c where g: "lru_cache_get (te_get_time (example_env 0 7)) (te_fresh (example_env 0 7)) (tw_heap tcp_world0)
      (tw_cache tcp_world0) (packet_tuple (example_tcp TCP_FLAG_SYN)) = ret (7, h, Some c)" by auto
  from tcp_accept_safe [OF r _ g] have "packet_is_malformed (example_tcp TCP_FLAG_SYN) = Inr False \<and>
      tcp_flags (example_tcp TCP_FLAG_SYN) AND 0x06 \<noteq> 0x06" by simp
  with r show ?thesis by blast
qed

theorem tcp_tracking_refines_witness:
  "\<exists>vs w'. run_steps tcp_protect_analyze [(example_env 0 7, example_tcp TCP_FLAG_SYN)] tcp_world0 = ret (vs, w') \<and>
    (\<exists>c' xs. tw_cache w' = Some c' \<and> lru_ok (tw_heap w') c' xs \<and>
       set (lru_keys (tw_heap w') xs) = {tuple_key (example_tuple 1)})"
proof -
  obtain w' where "tcp_protect_analyze (example_env 0 7) (example_tcp TCP_FLAG_SYN) tcp_world0 = ret (VERDICT_ACCEPT, w')"
    using example_syn_accepted by blast
  then have r: "run_steps tcp_protect_analyze [(example_env 0 7, example_tcp TCP_FLAG_SYN)] tcp_world0 = ret ([VERDICT_ACCEPT], w')"
    by simp
  have "\<exists>c' xs. tw_cache w' = Some c' \<and> lru_ok (tw_heap w') c' xs \<and>
    set (lru_keys (tw_heap w') xs) = tuple_key ` packet_tuple ` snd ` set [(example_env 0 7, example_tcp TCP_FLAG_SYN)]"
    using tcp_tracking_refines [OF empty_cache_create _ _ _ r] by fastforce
  with r show ?thesis by auto
qed

definition pair_cache :: lru_cache where
  "pair_cache = the (lru_cache_create True True True 2)"

lemma pair_cache_create: "lru_cache_create True True True 2 = Some pair_cache"
  by (simp add: pair_cache_def lru_cache_create_def hashtable_create_def)

lemma example_reply_fields [simp]:
  "protocol (example_reply f) = PROTO_TCP" "tcp_flags (example_reply f) = f" "packet_is_malformed (example_reply f) = Inr False"
  by (simp_all add: example_reply_def packet_is_malformed_def zero_packet_def proto_defs hdr_lens)

text \<open>A handshake.\<close>

definition example_handshake :: "(tcp_env \<times> packet) list" where
  "example_handshake = [(example_env 0 7, example_tcp TCP_FLAG_SYN),
     (example_env 0 8, example_reply (TCP_FLAG_SYN OR TCP_FLAG_ACK)), (example_env 0 9, example_tcp TCP_FLAG_ACK)]"

lemma example_directions:
  "\<not> same_direction (example_tcp f) (example_reply g)" "tuple_key (packet_tuple (example_reply g)) \<noteq> tuple_key (example_tuple 1)"
  "same_direction (example_tcp f) (example_tcp g)"
proof -
  show n: "\<not> same_direction (example_tcp f) (example_reply g)"
    and "same_direction (example_tcp f) (example_tcp g)"
    by (simp_all add: same_direction_def example_reply_def example_tcp_def same_ip_def)
  then show "tuple_key (packet_tuple (example_reply g)) \<noteq> tuple_key (example_tuple 1)"
    using same_direction_key [of "example_tcp f" "example_reply g"] by simp
qed

lemma example_handshake_facts:
  "opens_or_answers (snd ` set example_handshake)" "distinct (map (te_fresh \<circ> fst) example_handshake)"
  "\<forall>(env, pkt) \<in> set example_handshake. protocol pkt = PROTO_TCP \<and> te_fresh env \<noteq> 0 \<and> (\<exists>bad. packet_is_malformed pkt = Inr bad)"
  "card (tuple_key ` packet_tuple ` snd ` set example_handshake) \<le> unat (2 :: u32)"
proof -
  have "tuple_key ` packet_tuple ` snd ` set example_handshake =
      {tuple_key (example_tuple 1), tuple_key (packet_tuple (example_reply (TCP_FLAG_SYN OR TCP_FLAG_ACK)))}"
    by (auto simp: example_handshake_def)
  then show "card (tuple_key ` packet_tuple ` snd ` set example_handshake) \<le> unat (2 :: u32)"
    by (simp add: card_insert_if)
qed (use example_directions in \<open>auto simp: example_handshake_def opens_or_answers_def syn_ack_flags_def tcp_flag_defs\<close>)

definition pair_world :: tcp_world where
  "pair_world = tcp_world0\<lparr>tw_cache := Some pair_cache\<rparr>"

lemma pair_world_fields [simp]:
  "tw_cache pair_world = Some pair_cache" "tw_heap pair_world = Map.empty" "tw_ctx pair_world \<noteq> None"
  by (simp_all add: pair_world_def tcp_world0_def)

lemma example_handshake_length: "length example_handshake = 3"
  by (simp add: example_handshake_def)

lemma example_handshake_run:
  "\<exists>vs w'. run_steps tcp_protect_analyze example_handshake pair_world = ret (vs, w')"
proof -
  have "lru_ok (tw_heap pair_world) pair_cache []" by (rule lru_create_ok [OF pair_cache_create]) simp
  then have "tcp_tracked [] pair_world" unfolding tcp_tracked_def
    by (intro exI [of _ pair_cache] exI [of _ "[]"]) (simp add: lru_keys_def)
  moreover have "lru_max_size pair_cache = 2"
    by (simp add: pair_cache_def lru_cache_create_def hashtable_create_def)
  ultimately show ?thesis
    using tracked_run_returns [of "[]" pair_world pair_cache example_handshake] example_handshake_facts by fastforce
qed

theorem tcp_handshake_not_established_witness:
  "\<exists>vs w' x e. run_steps tcp_protect_analyze example_handshake pair_world = ret (vs, w') \<and>
    tw_heap w' x = Some e \<and> tuple_key (ce_tuple e) = tuple_key (example_tuple 1) \<and> ce_state e = TCP_STATE_SYN_SENT"
proof -
  obtain vs w' where r: "run_steps tcp_protect_analyze example_handshake pair_world = ret (vs, w')"
    using example_handshake_run by blast
  have h: "\<forall>(env, pkt) \<in> set example_handshake. protocol pkt = PROTO_TCP \<and> te_fresh env \<noteq> 0"
    using example_handshake_facts(3) by fast
  have p: "example_tcp TCP_FLAG_SYN \<in> snd ` set example_handshake"
    "\<forall>q \<in> snd ` set example_handshake. same_direction (example_tcp TCP_FLAG_SYN) q \<longrightarrow> tcp_flags q AND TCP_FLAG_RST = 0"
    by (auto simp: example_handshake_def example_directions tcp_flag_defs)
  obtain xs where "\<forall>p \<in> snd ` set example_handshake. tcp_flags p = TCP_FLAG_SYN \<and>
       (\<forall>q \<in> snd ` set example_handshake. same_direction p q \<longrightarrow> tcp_flags q AND TCP_FLAG_RST = 0) \<longrightarrow>
       (\<exists>x \<in> set xs. \<exists>e. tw_heap w' x = Some e \<and> tuple_key (ce_tuple e) = tuple_key (packet_tuple p) \<and>
          ce_state e = TCP_STATE_SYN_SENT)"
    using tcp_handshake_not_established [OF pair_cache_create _ pair_world_fields(1,2) r h example_handshake_facts(2,1)] by auto
  from bspec [OF this p(1)] p(2) obtain x e where "tw_heap w' x = Some e" "tuple_key (ce_tuple e) = tuple_key (example_tuple 1)"
    "ce_state e = TCP_STATE_SYN_SENT" by auto
  with r show ?thesis by blast
qed

theorem tcp_run_survives_witness:
  "\<exists>vs w'. run_steps tcp_protect_analyze example_handshake pair_world = ret (vs, w') \<and> length vs = 3"
proof -
  obtain vs w' where "run_steps tcp_protect_analyze example_handshake pair_world = ret (vs, w')" "length vs = length example_handshake"
    using tcp_run_survives [OF pair_cache_create _ pair_world_fields example_handshake_facts(3,2,1,4)] by auto
  then show ?thesis using example_handshake_length by auto
qed

text \<open>A cache whose one connection is established and was first seen at time 0.\<close>

definition slow_heap :: conn_heap where
  "slow_heap = [7 \<mapsto> (example_conn 1 0 0 0)\<lparr>ce_state := TCP_STATE_ESTABLISHED\<rparr>]"

lemma slow_cache_ok: "lru_ok slow_heap example_cache [7]"
proof -
  have "slow_heap = one_conn_heap(7 \<mapsto> (example_conn 1 0 0 0)\<lparr>ce_state := TCP_STATE_ESTABLISHED\<rparr>)"
    by (simp add: slow_heap_def one_conn_heap_def)
  then show ?thesis
    using lru_ok_data [OF example_cache_ok, of "one_conn_heap(7 \<mapsto> (example_conn 1 0 0 0)\<lparr>ce_state := TCP_STATE_ESTABLISHED\<rparr>)"]
    by (simp add: same_links_def one_conn_heap_def)
qed

theorem tcp_slowloris_frees_twice_witness:
  "tcp_protect_analyze (example_env 61 8) (example_tcp TCP_FLAG_URG)
     (tcp_world0\<lparr>tw_heap := slow_heap, tw_cache := Some example_cache\<rparr>) = fail DoubleFree \<and>
   is_slowloris_attack 31 (conn_analysed (example_env 31 8) (example_tcp TCP_FLAG_URG) ((example_conn 1 0 0 0)\<lparr>ce_state := TCP_STATE_ESTABLISHED, ce_packets := 50\<rparr>))"
proof -
  let ?e = "(example_conn 1 0 0 0)\<lparr>ce_state := TCP_STATE_ESTABLISHED\<rparr>"
  let ?w = "tcp_world0\<lparr>tw_heap := slow_heap, tw_cache := Some example_cache\<rparr>"
  have e: "tw_heap ?w 7 = Some ?e" by (simp add: slow_heap_def)
  have k: "tuple_key (ce_tuple ?e) = tuple_key (packet_tuple (example_tcp TCP_FLAG_URG))" by (simp add: example_conn_def)
  have f: "flag_flood (te_cfg (example_env 61 8)) (te_now (example_env 61 8)) (tcp_flags (example_tcp TCP_FLAG_URG)) (tw_stats ?w) = None"
    by (simp add: flag_flood_def tcp_flag_defs)
  have s: "is_slowloris_attack (te_slow_time (example_env 61 8)) (conn_analysed (example_env 61 8) (example_tcp TCP_FLAG_URG) ?e)"
    "is_slowloris_attack 31 (conn_analysed (example_env 31 8) (example_tcp TCP_FLAG_URG) (?e\<lparr>ce_packets := 50\<rparr>))"
    by (simp_all add: is_slowloris_attack_def conn_analysed_def tcp_next_def tcp_flag_defs example_conn_def example_tcp_def)
  show ?thesis
    using tcp_slowloris_frees_twice [of ?w example_cache "[7]" 7 ?e "example_tcp TCP_FLAG_URG" "example_env 61 8", OF _ _ _ e k] f s
    by (simp add: slow_cache_ok)
qed

theorem tcp_ack_dropped_at_default_witness:
  "\<exists>w'. tcp_protect_analyze (example_env 1 7) (example_tcp TCP_FLAG_ACK) tcp_world0 = ret (VERDICT_DROP, w')"
proof -
  have "lru_ok (tw_heap tcp_world0) empty_cache []" "tcp_ack_pps_threshold example_cfg = 0"
    by (simp_all add: empty_cache_ok example_cfg_def)
  then show ?thesis
    using tcp_ack_dropped_at_default [of tcp_world0 empty_cache "[]" "example_tcp TCP_FLAG_ACK" "example_env 1 7"]
    by (auto simp: empty_cache_size lru_keys_def)
qed

end
