(* ===== verification/Detection.thy ===== *)
theory Detection
  imports UdpProtect IcmpProtect HttpProtect TcpProtect
begin

text \<open>
  The four modules of \<open>src/detection\<close> side by side: what the statistics of a whole run of packets
  say, through the contracts of \<open>Detector\<close> that each module's interpretation discharged.
\<close>

text \<open>C15: the counters of the protection modules add up. Over any run of packets, each of the UDP,
  ICMP and TCP modules adds to its drop counter exactly the number of packets it did not accept
  (modulo \<open>2^64\<close>), and changes the global statistics only by alarms, at most one for each of these
  packets and none that names no attack. The same holds for the HTTP module except that exactly the
  requests rejected for the low reputation of their source alone are not counted.\<close>

theorem detectors_count_drops:
  "(run_steps udp_step us u = ret (vs, u') \<longrightarrow>
      udp_drops u' = udp_drops u + of_nat (length (filter (\<lambda>v. v \<noteq> VERDICT_ACCEPT) vs)) \<and>
      (\<exists>as. udp_glob u' = fold alarm as (udp_glob u) \<and> ATTACK_NONE \<notin> set as \<and> length as \<le> length (filter (\<lambda>v. v \<noteq> VERDICT_ACCEPT) vs))) \<and>
   (run_steps icmp_step us i = ret (vs, i') \<longrightarrow>
      icmp_drops i' = icmp_drops i + of_nat (length (filter (\<lambda>v. v \<noteq> VERDICT_ACCEPT) vs)) \<and>
      (\<exists>as. icmp_glob i' = fold alarm as (icmp_glob i) \<and> ATTACK_NONE \<notin> set as \<and> length as \<le> length (filter (\<lambda>v. v \<noteq> VERDICT_ACCEPT) vs))) \<and>
   (run_steps tcp_protect_analyze ts t = ret (vs, t') \<longrightarrow>
      tcp_drops t' = tcp_drops t + of_nat (length (filter (\<lambda>v. v \<noteq> VERDICT_ACCEPT) vs)) \<and>
      (\<exists>as. tw_glob t' = fold alarm as (tw_glob t) \<and> ATTACK_NONE \<notin> set as \<and> length as \<le> length (filter (\<lambda>v. v \<noteq> VERDICT_ACCEPT) vs))) \<and>
   (run_steps http_step us h = ret (vs, h') \<longrightarrow>
      http_drops h' + of_nat (low_reputation_count us h) = http_drops h + of_nat (length (filter (\<lambda>v. v \<noteq> VERDICT_ACCEPT) vs)) \<and>
      (\<exists>as. http_glob h' = fold alarm as (http_glob h) \<and> ATTACK_NONE \<notin> set as \<and>
         length as + low_reputation_count us h \<le> length (filter (\<lambda>v. v \<noteq> VERDICT_ACCEPT) vs)))"
  by (intro conjI impI; (rule udp.drops_exact udp.alarms_bounded icmp.drops_exact icmp.alarms_bounded tcp.drops_exact
        tcp.alarms_bounded http_run_counts [THEN conjunct1] http_run_alarms; assumption))

theorem detectors_count_drops_witness:
  "\<exists>u'. run_steps udp_step [((example_cfg, 5), example_udp)] (Some udp_ctx0, zero_global_stats, zero_ip_stats\<lparr>udp_pps := 2\<rparr>) =
      ret ([VERDICT_DROP], u') \<and> udp_drops u' = 1"
proof -
  obtain u' where r: "run_steps udp_step [((example_cfg, 5), example_udp)]
      (Some udp_ctx0, zero_global_stats, zero_ip_stats\<lparr>udp_pps := 2\<rparr>) = ret ([VERDICT_DROP], u')"
    by (simp add: udp_step_def example_udp_analyze zero_ip_stats_def)
  have "udp_drops u' = udp_drops (Some udp_ctx0, zero_global_stats, zero_ip_stats\<lparr>udp_pps := 2\<rparr>) +
      of_nat (length (filter (\<lambda>v. v \<noteq> VERDICT_ACCEPT) [VERDICT_DROP]))"
    using detectors_count_drops r by blast
  with r show ?thesis by (simp add: udp_drops_def udp_ctx0_def)
qed

end
