(* ===== verification/IpSet.thy ===== *)
theory IpSet
  imports DDoS_Types BucketTable
begin

text \<open>
  \<open>src/storage/ipset.c\<close>: sets of addresses and CIDR ranges with expiry times, kept in 4096
  chains. A chain is a list, the bucket array a function of the index; a \<open>NULL\<close> set pointer is
  \<open>None\<close>. What \<open>calloc\<close> answers, the clock and the contents of files are arguments.
\<close>

section \<open>State\<close>

record ipset_entry =
  e_ip :: ip_addr
  e_prefix_len :: u8
  e_expires :: time_t

record ipset =
  buckets :: "nat \<Rightarrow> ipset_entry list"
  bucket_count :: u32
  entry_count :: u32
  max_size :: u32

definition IPSET_BUCKETS :: u32 where "IPSET_BUCKETS = 4096"

section \<open>Operations\<close>

definition ipset_create :: "bool \<Rightarrow> bool \<Rightarrow> u32 \<Rightarrow> ipset option" where
  "ipset_create set_ok buckets_ok limit =
     (if \<not> set_ok then None
      else if \<not> buckets_ok then None
      else Some \<lparr>buckets = (\<lambda>_. []), bucket_count = IPSET_BUCKETS, entry_count = 0, max_size = limit\<rparr>)"

text \<open>What \<open>ipset_destroy\<close> passes to \<open>free\<close>, in order.\<close>

definition ipset_destroy :: "ipset option \<Rightarrow> ipset_entry list" where
  "ipset_destroy sp =
     (case sp of None \<Rightarrow> [] | Some s \<Rightarrow> concat (map (buckets s) [0..<unat (bucket_count s)]))"

definition ipset_hash :: "ip_addr \<Rightarrow> u32" where
  "ipset_hash ip = ip_hash_word ip mod IPSET_BUCKETS"

text \<open>The search of \<open>ipset_add_expiring\<close> for an entry to refresh.\<close>

fun ipset_touch :: "ip_addr \<Rightarrow> time_t \<Rightarrow> ipset_entry list \<Rightarrow> ipset_entry list option" where
  "ipset_touch ip expires [] = None"
| "ipset_touch ip expires (e # es) =
     (if ip_addr_compare (e_ip e) ip = 0 \<and> e_prefix_len e = 32
      then Some (e\<lparr>e_expires := expires\<rparr> # es)
      else map_option ((#) e) (ipset_touch ip expires es))"

definition ipset_push :: "ipset \<Rightarrow> ipset_entry \<Rightarrow> ipset" where
  "ipset_push s e =
     (let h = unat (ipset_hash (e_ip e))
      in s\<lparr>buckets := (buckets s)(h := e # buckets s h), entry_count := entry_count s + 1\<rparr>)"

definition ipset_add_expiring ::
    "bool \<Rightarrow> ipset option \<Rightarrow> ip_addr \<Rightarrow> time_t \<Rightarrow> int \<times> ipset option" where
  "ipset_add_expiring alloc_ok sp ip expires =
     (case sp of
        None \<Rightarrow> (-1, None)
      | Some s \<Rightarrow>
          if max_size s \<le> entry_count s then (-1, Some s)
          else
            (let h = unat (ipset_hash ip)
             in case ipset_touch ip expires (buckets s h) of
                  Some es \<Rightarrow> (0, Some (s\<lparr>buckets := (buckets s)(h := es)\<rparr>))
                | None \<Rightarrow>
                    if \<not> alloc_ok then (-1, Some s)
                    else (0, Some (ipset_push s
                           \<lparr>e_ip = ip,
                            e_prefix_len = (if family ip = AF_INET then 32 else 128),
                            e_expires = expires\<rparr>))))"

definition ipset_add :: "bool \<Rightarrow> ipset option \<Rightarrow> ip_addr \<Rightarrow> int \<times> ipset option" where
  "ipset_add alloc_ok sp ip = ipset_add_expiring alloc_ok sp ip 0"

definition ipset_remove :: "ipset option \<Rightarrow> ip_addr \<Rightarrow> int \<times> ipset option" where
  "ipset_remove sp ip =
     (case sp of
        None \<Rightarrow> (-1, None)
      | Some s \<Rightarrow>
          (let h = unat (ipset_hash ip)
           in case unlink_first (\<lambda>e. ip_addr_compare (e_ip e) ip = 0) (buckets s h) of
                Some es \<Rightarrow> (0, Some (s\<lparr>buckets := (buckets s)(h := es),
                                     entry_count := entry_count s - 1\<rparr>))
              | None \<Rightarrow> (-1, Some s)))"

definition entry_expired :: "time_t \<Rightarrow> ipset_entry \<Rightarrow> bool" where
  "entry_expired now e \<longleftrightarrow> e_expires e > 0 \<and> now > e_expires e"

fun chain_contains :: "time_t \<Rightarrow> ip_addr \<Rightarrow> ipset_entry list \<Rightarrow> bool" where
  "chain_contains now ip [] = False"
| "chain_contains now ip (e # es) =
     (if entry_expired now e then chain_contains now ip es
      else if ip_addr_compare (e_ip e) ip = 0 then True
      else chain_contains now ip es)"

definition ipset_contains :: "time_t \<Rightarrow> ipset option \<Rightarrow> ip_addr \<Rightarrow> bool" where
  "ipset_contains now sp ip =
     (case sp of
        None \<Rightarrow> False
      | Some s \<Rightarrow> chain_contains now ip (buckets s (unat (ipset_hash ip))))"

text \<open>
  The masks of \<open>ip_in_cidr\<close>. The shifts are on \<open>int\<close> in the code; \<open>1 << 31\<close> (prefix length 1)
  is the two's complement shift the supported compiler performs.
\<close>

definition mask_v4 :: "u8 \<Rightarrow> u32" where
  "mask_v4 prefix_len =
     (if prefix_len \<noteq> 0 then bswap32 (NOT (push_bit (32 - unat prefix_len) 1 - 1)) else 0)"

definition mask_rest :: "nat \<Rightarrow> u8" where
  "mask_rest r = NOT (push_bit (8 - r) 1 - 1)"

definition ip_in_cidr :: "ip_addr \<Rightarrow> ip_addr \<Rightarrow> u8 \<Rightarrow> bool" where
  "ip_in_cidr ip network prefix_len =
     (if family ip \<noteq> family network then False
      else if family ip = AF_INET then
        s_addr ip AND mask_v4 prefix_len = s_addr network AND mask_v4 prefix_len
      else
        (let full_bytes = unat prefix_len div 8; remaining_bits = unat prefix_len mod 8
         in if memcmp (addr_bytes full_bytes ip) (addr_bytes full_bytes network) \<noteq> 0 then False
            else if remaining_bits > 0 \<and>
              v6_byte ip full_bytes AND mask_rest remaining_bits \<noteq>
              v6_byte network full_bytes AND mask_rest remaining_bits then False
            else True))"

fun chain_cidr :: "time_t \<Rightarrow> ip_addr \<Rightarrow> ipset_entry list \<Rightarrow> bool" where
  "chain_cidr now ip [] = False"
| "chain_cidr now ip (e # es) =
     (if entry_expired now e then chain_cidr now ip es
      else if ip_in_cidr ip (e_ip e) (e_prefix_len e) then True
      else chain_cidr now ip es)"

fun scan_cidr :: "time_t \<Rightarrow> ip_addr \<Rightarrow> (nat \<Rightarrow> ipset_entry list) \<Rightarrow> nat list \<Rightarrow> bool" where
  "scan_cidr now ip b [] = False"
| "scan_cidr now ip b (i # is) =
     (if chain_cidr now ip (b i) then True else scan_cidr now ip b is)"

definition ipset_contains_cidr :: "time_t \<Rightarrow> ipset option \<Rightarrow> ip_addr \<Rightarrow> bool" where
  "ipset_contains_cidr now sp ip =
     (case sp of
        None \<Rightarrow> False
      | Some s \<Rightarrow> scan_cidr now ip (buckets s) [0..<unat (bucket_count s)])"

text \<open>\<open>atoi\<close>: leading blanks, a sign, then decimal digits; the value is converted to \<open>uint32_t\<close>.\<close>

definition is_blank :: "char \<Rightarrow> bool" where
  "is_blank c \<longleftrightarrow> of_char c \<in> {9, 10, 11, 12, 13, 32 :: nat}"

definition is_digit :: "char \<Rightarrow> bool" where
  "is_digit c \<longleftrightarrow> 48 \<le> (of_char c :: nat) \<and> (of_char c :: nat) \<le> 57"

fun digits_value :: "int \<Rightarrow> string \<Rightarrow> int" where
  "digits_value acc [] = acc"
| "digits_value acc (c # cs) =
     (if is_digit c then digits_value (10 * acc + (of_char c - 48)) cs else acc)"

definition atoi :: "string \<Rightarrow> int" where
  "atoi str =
     (case dropWhile is_blank str of
        [] \<Rightarrow> 0
      | c # cs \<Rightarrow>
          if c = CHR ''-'' then - digits_value 0 cs
          else if c = CHR ''+'' then digits_value 0 cs
          else digits_value 0 (c # cs))"

definition MAX_IP_STR_LEN :: nat where "MAX_IP_STR_LEN = 46"

text \<open>
  \<open>ipset_add_cidr\<close>. \<open>parse\<close> is \<open>string_to_ip_addr\<close> at the C library's \<open>inet_pton\<close>. A text without
  a slash is copied with \<open>strncpy\<close>, which truncates it to 45 characters (a longer text is not an
  address, whatever follows it in the buffer).
\<close>

definition ipset_add_cidr ::
    "(string \<Rightarrow> ip_addr option) \<Rightarrow> bool \<Rightarrow> ipset option \<Rightarrow> string \<Rightarrow> int \<times> ipset option" where
  "ipset_add_cidr parse alloc_ok sp cidr =
     (case sp of
        None \<Rightarrow> (-1, None)
      | Some s \<Rightarrow>
          (let has_slash = CHR ''/'' \<in> List.set cidr;
               before = takeWhile (\<lambda>c. c \<noteq> CHR ''/'') cidr;
               after = drop (length before + 1) cidr;
               ip_str = (if has_slash then before else take (MAX_IP_STR_LEN - 1) cidr);
               prefix_len = (if has_slash then word_of_int (atoi after) else 32) :: u32
           in if has_slash \<and> MAX_IP_STR_LEN \<le> length before then (-1, Some s)
              else
                (case parse ip_str of
                   None \<Rightarrow> (-1, Some s)
                 | Some ip \<Rightarrow>
                     if family ip = AF_INET \<and> 32 < prefix_len then (-1, Some s)
                     else if family ip = AF_INET6 \<and> 128 < prefix_len then (-1, Some s)
                     else if max_size s \<le> entry_count s then (-1, Some s)
                     else if \<not> alloc_ok then (-1, Some s)
                     else (0, Some (ipset_push s
                            \<lparr>e_ip = ip, e_prefix_len = ucast prefix_len, e_expires = 0\<rparr>)))))"

definition ipset_size :: "ipset option \<Rightarrow> u32" where
  "ipset_size sp = (case sp of None \<Rightarrow> 0 | Some s \<Rightarrow> entry_count s)"

text \<open>Both loops below rewrite the chains \<open>i\<close> for \<open>0 \<le> i < bucket_count\<close> one after the other.\<close>

definition ipset_clear :: "ipset option \<Rightarrow> ipset option" where
  "ipset_clear sp =
     (case sp of
        None \<Rightarrow> None
      | Some s \<Rightarrow> Some (s\<lparr>buckets := fold (\<lambda>i b. b(i := [])) [0..<unat (bucket_count s)] (buckets s),
                        entry_count := 0\<rparr>))"

fun sweep_chain :: "time_t \<Rightarrow> ipset_entry list \<Rightarrow> ipset_entry list \<times> nat" where
  "sweep_chain now [] = ([], 0)"
| "sweep_chain now (e # es) =
     (let (kept, n) = sweep_chain now es
      in if entry_expired now e then (kept, n + 1) else (e # kept, n))"

definition sweep_bucket :: "time_t \<Rightarrow> nat \<Rightarrow> ipset \<times> nat \<Rightarrow> ipset \<times> nat" where
  "sweep_bucket now i = (\<lambda>(s, cleaned).
     (let (kept, n) = sweep_chain now (buckets s i)
      in (s\<lparr>buckets := (buckets s)(i := kept), entry_count := entry_count s - of_nat n\<rparr>,
          cleaned + n)))"

definition ipset_cleanup_expired :: "ipset option \<Rightarrow> time_t \<Rightarrow> int \<times> ipset option" where
  "ipset_cleanup_expired sp now =
     (case sp of
        None \<Rightarrow> (-1, None)
      | Some s \<Rightarrow>
          (let (s', cleaned) = fold (sweep_bucket now) [0..<unat (bucket_count s)] (s, 0)
           in (int cleaned, Some s')))"

text \<open>
  \<open>ipset_load_from_file\<close> on the lines \<open>fgets\<close> delivers (\<open>None\<close>: the file does not open), and
  the lines \<open>ipset_save_to_file\<close> prints.
\<close>

definition strip_newline :: "string \<Rightarrow> string" where
  "strip_newline line = takeWhile (\<lambda>c. c \<noteq> CHR 0x0A) line"

fun load_lines ::
    "(string \<Rightarrow> ip_addr option) \<Rightarrow> bool list \<Rightarrow> ipset option \<Rightarrow> string list \<Rightarrow> int \<Rightarrow> int \<times> ipset option" where
  "load_lines parse allocs sp [] cnt = (cnt, sp)"
| "load_lines parse allocs sp (l # ls) cnt =
     (let line = strip_newline l
      in if line = [] \<or> hd line = CHR ''#'' then load_lines parse allocs sp ls cnt
         else (let (r, sp') = ipset_add_cidr parse (case allocs of [] \<Rightarrow> True | a # _ \<Rightarrow> a) sp line
               in load_lines parse (tl allocs) sp' ls (if r = 0 then cnt + 1 else cnt)))"

definition ipset_load_from_file ::
    "(string \<Rightarrow> ip_addr option) \<Rightarrow> bool list \<Rightarrow> ipset option \<Rightarrow> string list option \<Rightarrow> int \<times> ipset option" where
  "ipset_load_from_file parse allocs sp file =
     (case file of None \<Rightarrow> (-1, sp) | Some ls \<Rightarrow> load_lines parse allocs sp ls 0)"

fun dec_digits :: "nat \<Rightarrow> string" where
  "dec_digits n = (if n < 10 then [char_of (48 + n)] else dec_digits (n div 10) @ [char_of (48 + n mod 10)])"

declare dec_digits.simps [simp del]

definition print_entry :: "(ip_addr \<Rightarrow> string) \<Rightarrow> ipset_entry \<Rightarrow> string" where
  "print_entry show_ip e = show_ip (e_ip e) @ ''/'' @ dec_digits (unat (e_prefix_len e)) @ [CHR 0x0A]"

definition ipset_save_to_file ::
    "(ip_addr \<Rightarrow> string) \<Rightarrow> ipset \<Rightarrow> bool \<Rightarrow> int \<times> string list" where
  "ipset_save_to_file show_ip s open_ok =
     (if \<not> open_ok then (-1, [])
      else (let ls = concat (map (\<lambda>i. map (print_entry show_ip) (buckets s i))
                              [0..<unat (bucket_count s)])
            in (int (length ls), ls)))"

section \<open>Basic facts\<close>

lemma unat_ipset_hash: "unat (ipset_hash ip) < 4096"
  by (simp add: ipset_hash_def IPSET_BUCKETS_def unat_mod)

interpretation ipset_key: hashed_key ip_addr_compare "\<lambda>ip. unat (ipset_hash ip)"
  by unfold_locales
    (auto simp: ip_addr_compare_0 ipset_hash_def dest: ip_hash_word_cong
      intro: same_ip_sym same_ip_trans)

abbreviation ipset_placed :: "(nat \<Rightarrow> ipset_entry list) \<Rightarrow> bool" where
  "ipset_placed \<equiv> placed (\<lambda>ip. unat (ipset_hash ip)) e_ip"

text \<open>The entries of a set, in the order the loops over all chains visit them.\<close>

definition ipset_elems :: "ipset \<Rightarrow> ipset_entry list" where
  "ipset_elems s = table_entries (unat (bucket_count s)) (buckets s)"

definition prefix_ok :: "ipset_entry \<Rightarrow> bool" where
  "prefix_ok e \<longleftrightarrow> (if family (e_ip e) = AF_INET then e_prefix_len e \<le> 32 else e_prefix_len e \<le> 128)"

definition ipset_wf :: "ipset \<Rightarrow> bool" where
  "ipset_wf s \<longleftrightarrow>
     bucket_count s = IPSET_BUCKETS \<and> ipset_placed (buckets s) \<and>
     unat (entry_count s) = length (ipset_elems s) \<and> entry_count s \<le> max_size s \<and>
     (\<forall>e \<in> set (ipset_elems s). prefix_ok e)"

lemma bucket_count_4096: "ipset_wf s \<Longrightarrow> unat (bucket_count s) = 4096"
  by (simp add: ipset_wf_def IPSET_BUCKETS_def)

lemma placed_out_of_range: "ipset_placed b \<Longrightarrow> 4096 \<le> i \<Longrightarrow> b i = []"
proof (rule ccontr)
  assume p: "ipset_placed b" and i: "4096 \<le> i" and "b i \<noteq> []"
  then obtain e where "e \<in> set (b i)" by (cases "b i") auto
  from placedD [OF p this] i unat_ipset_hash [of "e_ip e"] show False by simp
qed

lemma set_elems:
  assumes "ipset_wf s"
  shows "e \<in> set (ipset_elems s) \<longleftrightarrow> (\<exists>i. e \<in> set (buckets s i))"
proof -
  have p: "ipset_placed (buckets s)" using assms by (simp add: ipset_wf_def)
  have "i < 4096" if "e \<in> set (buckets s i)" for i
    using placedD [OF p that] unat_ipset_hash [of "e_ip e"] by simp
  then show ?thesis
    by (auto simp: ipset_elems_def set_table_entries bucket_count_4096 [OF assms])
qed

lemma elems_count: "ipset_wf s \<Longrightarrow> table_size 4096 (buckets s) = unat (entry_count s)"
  by (simp add: ipset_wf_def ipset_elems_def length_table_entries IPSET_BUCKETS_def)

text \<open>A rule that reduces well-formedness to the chains.\<close>

lemma ipset_wfI:
  assumes "bucket_count s = IPSET_BUCKETS" and "ipset_placed (buckets s)"
    and "unat (entry_count s) = table_size 4096 (buckets s)" and "entry_count s \<le> max_size s"
    and "\<And>i e. e \<in> set (buckets s i) \<Longrightarrow> prefix_ok e"
  shows "ipset_wf s"
  using assms
  by (auto simp: ipset_wf_def ipset_elems_def length_table_entries set_table_entries
      IPSET_BUCKETS_def)

lemma ipset_wf_chain: "ipset_wf s \<Longrightarrow> e \<in> set (buckets s i) \<Longrightarrow> prefix_ok e"
  using set_elems [of s e] by (auto simp: ipset_wf_def)

lemma ipset_wf_placed: "ipset_wf s \<Longrightarrow> ipset_placed (buckets s)"
  by (simp add: ipset_wf_def)

section \<open>Every operation keeps the set well formed\<close>

lemma create_wf: "ipset_create a b n = Some s \<Longrightarrow> ipset_wf s"
  by (auto simp: ipset_create_def IPSET_BUCKETS_def intro!: ipset_wfI split: if_splits)

lemma push_wf:
  assumes wf: "ipset_wf s" and room: "entry_count s < max_size s" and "prefix_ok e"
  shows "ipset_wf (ipset_push s e)"
proof -
  have c: "unat (entry_count s + 1) = unat (entry_count s) + 1"
    using room by (rule unat_inc_less)
  let ?h = "unat (ipset_hash (e_ip e))"
  have "table_size 4096 ((buckets s)(?h := e # buckets s ?h)) = unat (entry_count s) + 1"
    using table_size_upd [OF unat_ipset_hash [of "e_ip e"], where b = "buckets s" and es = "e # buckets s ?h"]
      elems_count [OF wf] by simp
  with c room wf assms(3) show ?thesis
    by (intro ipset_wfI)
      (auto simp: ipset_push_def Let_def ipset_wf_def inc_le intro!: placed_upd
        dest: placedD intro: ipset_wf_chain [OF wf] split: if_splits)
qed


lemma touch_length: "ipset_touch ip t es = Some es' \<Longrightarrow> length es' = length es"
  by (induction es arbitrary: es') (auto split: if_splits)

text \<open>The refresh changes the expiry of exactly one entry, the first \<open>/32\<close> entry of the address.\<close>

lemma touch_Some:
  "ipset_touch ip t es = Some es' \<Longrightarrow>
    \<exists>us e vs. es = us @ e # vs \<and> es' = us @ e\<lparr>e_expires := t\<rparr> # vs \<and>
      same_ip (e_ip e) ip \<and> e_prefix_len e = 32 \<and>
      (\<forall>u \<in> set us. \<not> (same_ip (e_ip u) ip \<and> e_prefix_len u = 32))"
proof (induction es arbitrary: es')
  case (Cons x xs)
  show ?case
  proof (cases "same_ip (e_ip x) ip \<and> e_prefix_len x = 32")
    case True
    with Cons.prems show ?thesis by (intro exI [of _ "[]"]) (auto simp: ip_addr_compare_0)
  next
    case False
    with Cons.prems obtain r where r: "ipset_touch ip t xs = Some r" "es' = x # r"
      by (auto simp: ip_addr_compare_0)
    from Cons.IH [OF r(1)] obtain us e vs where
      "xs = us @ e # vs" "r = us @ e\<lparr>e_expires := t\<rparr> # vs" "same_ip (e_ip e) ip"
      "e_prefix_len e = 32" "\<forall>u \<in> set us. \<not> (same_ip (e_ip u) ip \<and> e_prefix_len u = 32)"
      by blast
    with r(2) False show ?thesis by (intro exI [of _ "x # us"]) auto
  qed
qed simp

lemma touch_None:
  "ipset_touch ip t es = None \<longleftrightarrow> (\<forall>e \<in> set es. \<not> (same_ip (e_ip e) ip \<and> e_prefix_len e = 32))"
  by (induction es) (auto simp: ip_addr_compare_0)

lemma touch_wf:
  assumes wf: "ipset_wf s" and t: "ipset_touch ip t (buckets s (unat (ipset_hash ip))) = Some es"
  shows "ipset_wf (s\<lparr>buckets := (buckets s)(unat (ipset_hash ip) := es)\<rparr>)"
proof -
  let ?h = "unat (ipset_hash ip)"
  obtain us e vs where b: "buckets s ?h = us @ e # vs" and es: "es = us @ e\<lparr>e_expires := t\<rparr> # vs"
    using touch_Some [OF t] by blast
  have all: "unat (ipset_hash (e_ip x)) = ?h \<and> prefix_ok x" if "x \<in> set es" for x
  proof -
    have "\<exists>y \<in> set (buckets s ?h). e_ip x = e_ip y \<and> e_prefix_len x = e_prefix_len y"
      using that by (auto simp: b es)
    then show ?thesis
      using placedD [OF ipset_wf_placed [OF wf]] ipset_wf_chain [OF wf]
      by (auto simp: prefix_ok_def)
  qed
  have "table_size 4096 ((buckets s)(?h := es)) = unat (entry_count s)"
    using table_size_upd [OF unat_ipset_hash [of ip], where b = "buckets s" and es = es]
      elems_count [OF wf] touch_length [OF t] by simp
  with wf all show ?thesis
    by (intro ipset_wfI) (auto simp: ipset_wf_def intro!: placed_upd intro: ipset_wf_chain [OF wf]
        split: if_splits)
qed

lemma add_expiring_wf:
  assumes "ipset_wf s" and "ipset_add_expiring ok (Some s) ip t = (r, Some s')"
  shows "ipset_wf s'"
  using assms
  by (auto simp: ipset_add_expiring_def Let_def prefix_ok_def split: if_splits option.splits
      intro!: push_wf intro: touch_wf)

lemma add_cidr_wf:
  assumes "ipset_wf s"
    and "ipset_add_cidr (string_to_ip_addr p4 p6) ok (Some s) str = (r, Some s')"
  shows "ipset_wf s'"
proof -
  have fam: "family ip = AF_INET \<or> family ip = AF_INET6"
    if "string_to_ip_addr p4 p6 x = Some ip" for x ip
    using that by (auto simp: string_to_ip_addr_def split: option.splits)
  have small: "ucast p \<le> (32 :: u8)" if "p \<le> (32 :: u32)" for p
    using that by (simp add: word_le_nat_alt unsigned_ucast_eq take_bit_nat_eq_self)
  have small6: "ucast p \<le> (128 :: u8)" if "p \<le> (128 :: u32)" for p
    using that by (simp add: word_le_nat_alt unsigned_ucast_eq take_bit_nat_eq_self)
  show ?thesis
    using assms fam
    by (fastforce simp: ipset_add_cidr_def Let_def prefix_ok_def not_less AF_INET_def AF_INET6_def
        split: if_splits option.splits intro!: push_wf intro: small small6)
qed

lemma remove_wf:
  assumes wf: "ipset_wf s" and r: "ipset_remove (Some s) ip = (r, Some s')"
  shows "ipset_wf s'"
proof (cases "unlink_first (\<lambda>e. ip_addr_compare (e_ip e) ip = 0) (buckets s (unat (ipset_hash ip)))")
  case None
  with r wf show ?thesis by (simp add: ipset_remove_def Let_def)
next
  case (Some es)
  let ?h = "unat (ipset_hash ip)"
  have s': "s' = s\<lparr>buckets := (buckets s)(?h := es), entry_count := entry_count s - 1\<rparr>"
    using r Some by (simp add: ipset_remove_def Let_def)
  have len: "length (buckets s ?h) = Suc (length es)" using unlink_first_length [OF Some] .
  have ts: "table_size 4096 ((buckets s)(?h := es)) + 1 = unat (entry_count s)"
    using table_size_upd [OF unat_ipset_hash [of ip], where b = "buckets s" and es = es]
      elems_count [OF wf] len by simp
  then have ne: "entry_count s \<noteq> 0" by auto
  have le: "entry_count s - 1 \<le> max_size s"
    using wf ne by (auto simp: ipset_wf_def word_le_nat_alt unat_dec)
  show ?thesis
    using wf ts ne le unlink_first_subset [OF Some]
    by (intro ipset_wfI)
      (auto simp: s' ipset_wf_def unat_dec intro!: placed_upd dest: placedD
        intro: ipset_wf_chain [OF wf] split: if_splits)
qed


lemma sweep_chain_eq:
  "sweep_chain now es =
    (filter (\<lambda>e. \<not> entry_expired now e) es, length (filter (entry_expired now) es))"
  by (induction es) auto

definition expired_in :: "time_t \<Rightarrow> (nat \<Rightarrow> ipset_entry list) \<Rightarrow> nat \<Rightarrow> nat" where
  "expired_in now b i = length (filter (entry_expired now) (b i))"

definition swept :: "time_t \<Rightarrow> nat list \<Rightarrow> (nat \<Rightarrow> ipset_entry list) \<Rightarrow> (nat \<Rightarrow> ipset_entry list)" where
  "swept now is b = (\<lambda>i. if i \<in> set is then filter (\<lambda>e. \<not> entry_expired now e) (b i) else b i)"

lemma sweep_bucket_step:
  "sweep_bucket now i (s, c) =
    (s\<lparr>buckets := (buckets s)(i := filter (\<lambda>e. \<not> entry_expired now e) (buckets s i)),
       entry_count := entry_count s - of_nat (expired_in now (buckets s) i)\<rparr>,
     c + expired_in now (buckets s) i)"
  by (simp add: sweep_bucket_def sweep_chain_eq expired_in_def)

lemma fold_sweep:
  "distinct is \<Longrightarrow>
    fold (sweep_bucket now) is (s, c) =
      (s\<lparr>buckets := swept now is (buckets s),
         entry_count := entry_count s - of_nat (sum_list (map (expired_in now (buckets s)) is))\<rparr>,
       c + sum_list (map (expired_in now (buckets s)) is))"
proof (induction "is" arbitrary: s c)
  case Nil
  then show ?case by (simp add: swept_def)
next
  case (Cons i "is")
  let ?b = "(buckets s)(i := filter (\<lambda>e. \<not> entry_expired now e) (buckets s i))"
  have e: "expired_in now ?b j = expired_in now (buckets s) j" if "j \<in> set is" for j
    using that Cons.prems by (auto simp: expired_in_def)
  have m: "map (expired_in now ?b) is = map (expired_in now (buckets s)) is"
    using e by simp
  have w: "swept now is ?b = swept now (i # is) (buckets s)"
    using Cons.prems by (auto simp: swept_def)
  show ?case
    using Cons.prems
    by (simp add: sweep_bucket_step Cons.IH m w algebra_simps del: fun_upd_apply)
qed

lemma size_sweep:
  "table_size n (swept now [0..<n] b) + sum_list (map (expired_in now b) [0..<n]) = table_size n b"
proof -
  have "sum_list (map (expired_in now b) [0..<n]) = (\<Sum>i<n. expired_in now b i)"
    by (simp add: sum_list_sum_nth atLeast0LessThan)
  moreover have "(\<Sum>i<n. length (swept now [0..<n] b i)) + (\<Sum>i<n. expired_in now b i) = (\<Sum>i<n. length (b i))"
    unfolding sum.distrib [symmetric]
    by (rule sum.cong) (auto simp: swept_def expired_in_def sum_length_filter_compl add.commute)
  ultimately show ?thesis by (simp add: table_size_def)
qed

lemma elems_sweep:
  "concat (map (swept now [0..<n] b) [0..<n]) =
    filter (\<lambda>e. \<not> entry_expired now e) (concat (map b [0..<n]))"
proof -
  have "map (swept now [0..<n] b) [0..<n] = map (\<lambda>i. filter (\<lambda>e. \<not> entry_expired now e) (b i)) [0..<n]"
    by (simp add: swept_def)
  then show ?thesis by (simp only: filter_concat map_map comp_def)
qed

lemma cleanup_eq:
  assumes wf: "ipset_wf s"
  shows "\<exists>s'. ipset_cleanup_expired (Some s) now =
            (int (length (filter (entry_expired now) (ipset_elems s))), Some s') \<and> ipset_wf s' \<and>
           ipset_elems s' = filter (\<lambda>e. \<not> entry_expired now e) (ipset_elems s) \<and>
           max_size s' = max_size s"
proof -
  let ?n = "unat (bucket_count s)" and ?b = "buckets s"
  let ?x = "sum_list (map (expired_in now ?b) [0..<?n])"
  let ?s = "s\<lparr>buckets := swept now [0..<?n] ?b, entry_count := entry_count s - of_nat ?x\<rparr>"
  have n: "?n = 4096" using bucket_count_4096 [OF wf] .
  have ec: "unat (entry_count s) = table_size ?n ?b"
    using elems_count [OF wf] n by simp
  have le: "?x \<le> unat (entry_count s)"
    using size_sweep [of ?n now ?b] ec by linarith
  have "unat (entry_count s) < 2 ^ LENGTH(32)" by (rule unsigned_less)
  with le have ux: "unat (of_nat ?x :: u32) = ?x" by (simp add: unat_of_nat)
  have u: "unat (entry_count s - of_nat ?x) = unat (entry_count s) - ?x"
    using le ux by (simp add: unat_sub word_le_nat_alt)
  have x: "?x = length (filter (entry_expired now) (ipset_elems s))"
    by (simp add: ipset_elems_def table_entries_def filter_concat length_concat comp_def
        expired_in_def [abs_def])
  have pl: "ipset_placed (swept now [0..<?n] ?b)"
    by (rule placed_map [OF ipset_wf_placed [OF wf]]) (auto simp: swept_def)
  have "ipset_wf ?s"
  proof (rule ipset_wfI)
    show "unat (entry_count ?s) = table_size 4096 (buckets ?s)"
      using size_sweep [of ?n now ?b] u ec n by simp
    have "unat (entry_count s) \<le> unat (max_size s)"
      using wf by (simp add: ipset_wf_def word_le_nat_alt)
    then show "entry_count ?s \<le> max_size ?s"
      using u by (simp only: word_le_nat_alt) simp
    show "prefix_ok e" if "e \<in> set (buckets ?s i)" for i e
      using that ipset_wf_chain [OF wf] by (auto simp: swept_def split: if_splits)
  qed (use wf pl in \<open>simp_all add: ipset_wf_def\<close>)
  moreover have "ipset_elems ?s = filter (\<lambda>e. \<not> entry_expired now e) (ipset_elems s)"
    by (simp add: ipset_elems_def table_entries_def elems_sweep)
  moreover have "ipset_cleanup_expired (Some s) now = (int ?x, Some ?s)"
    by (simp add: ipset_cleanup_expired_def fold_sweep)
  ultimately show ?thesis using x by auto
qed

lemma fold_clear: "fold (\<lambda>i b. b(i := [])) is b = (\<lambda>i. if i \<in> set is then [] else b i)"
  by (induction "is" arbitrary: b) (auto simp: fun_eq_iff)

lemma clear_wf:
  assumes wf: "ipset_wf s" and "ipset_clear (Some s) = Some s'"
  shows "ipset_wf s' \<and> ipset_elems s' = []"
proof -
  have b: "buckets s' = (\<lambda>_. [])"
    using assms placed_out_of_range [OF ipset_wf_placed [OF wf]] bucket_count_4096 [OF wf]
    by (auto simp: ipset_clear_def fold_clear fun_eq_iff)
  then have wf': "ipset_wf s'"
    using assms by (intro ipset_wfI) (auto simp: ipset_clear_def ipset_wf_def)
  moreover have "e \<notin> set (ipset_elems s')" for e using b by (simp add: set_elems [OF wf'])
  ultimately show ?thesis by (cases "ipset_elems s'") auto
qed

section \<open>Membership\<close>

lemma chain_contains_iff:
  "chain_contains now ip es \<longleftrightarrow> (\<exists>e \<in> set es. \<not> entry_expired now e \<and> same_ip (e_ip e) ip)"
  by (induction es) (auto simp: ip_addr_compare_0)

lemma chain_cidr_iff:
  "chain_cidr now ip es \<longleftrightarrow>
    (\<exists>e \<in> set es. \<not> entry_expired now e \<and> ip_in_cidr ip (e_ip e) (e_prefix_len e))"
  by (induction es) auto

lemma scan_cidr_iff: "scan_cidr now ip b is \<longleftrightarrow> (\<exists>i \<in> set is. chain_cidr now ip (b i))"
  by (induction "is") auto

lemma contains_iff:
  assumes wf: "ipset_wf s"
  shows "ipset_contains now (Some s) ip \<longleftrightarrow>
    (\<exists>e \<in> set (ipset_elems s). \<not> entry_expired now e \<and> same_ip (e_ip e) ip)"
proof -
  have "(\<exists>e \<in> set (ipset_elems s). Q e) \<longleftrightarrow> (\<exists>i. \<exists>e \<in> set (buckets s i). Q e)" for Q
    using set_elems [OF wf] by blast
  then show ?thesis
    using ipset_key.chain_search [OF ipset_wf_placed [OF wf], of ip "\<lambda>e. \<not> entry_expired now e"]
    by (simp add: ipset_contains_def chain_contains_iff ip_addr_compare_0 conj_commute)
qed

lemma contains_cidr_iff:
  "ipset_contains_cidr now (Some s) ip \<longleftrightarrow>
    (\<exists>e \<in> set (ipset_elems s). \<not> entry_expired now e \<and> ip_in_cidr ip (e_ip e) (e_prefix_len e))"
  by (auto simp: ipset_contains_cidr_def scan_cidr_iff chain_cidr_iff ipset_elems_def
      set_table_entries)

section \<open>CIDR matching\<close>

text \<open>Bit \<open>k\<close> of an address in network order, for either family.\<close>

definition net_bit :: "ip_addr \<Rightarrow> nat \<Rightarrow> bool" where
  "net_bit ip k = bit (v6_byte ip (k div 8)) (7 - k mod 8)"

lemma push_bit_1_minus_1: "push_bit n 1 - 1 = (mask n :: 'a::len word)"
  by (simp add: mask_eq_decr_exp push_bit_eq_mult)

lemma bit_bswap32_net:
  assumes "k < 32"
  shows "bit (bswap32 w) (31 - k) = bit w (8 * (k div 8) + (7 - k mod 8))"
proof -
  consider "k < 8" | "8 \<le> k" "k < 16" | "16 \<le> k" "k < 24" | "24 \<le> k" by linarith
  then show ?thesis
  proof cases
    case 1
    then have "k div 8 = 0" "k mod 8 = k" by simp_all
    moreover have "\<not> 31 - k < 24" "31 - k < 32" "31 - k - 24 = 7 - k" using 1 by simp_all
    ultimately show ?thesis by (simp add: bit_bswap32)
  next
    case 2
    then have d: "k div 8 = 1" by (simp add: div_nat_eqI)
    then have "k mod 8 = k - 8" by (simp add: modulo_nat_def)
    with d 2 have "8 * (k div 8) + (7 - k mod 8) = 31 - k - 8" by simp
    moreover have "\<not> 31 - k < 16" "31 - k < 24" using 2 by simp_all
    ultimately show ?thesis by (simp only: bit_bswap32) simp
  next
    case 3
    then have d: "k div 8 = 2" by (simp add: div_nat_eqI)
    then have "k mod 8 = k - 16" by (simp add: modulo_nat_def)
    with d 3 have "8 * (k div 8) + (7 - k mod 8) = 31 - k + 8" by simp
    moreover have "\<not> 31 - k < 8" "31 - k < 16" using 3 by simp_all
    ultimately show ?thesis by (simp only: bit_bswap32) simp
  next
    case 4
    then have d: "k div 8 = 3" using assms by (simp add: div_nat_eqI)
    then have "k mod 8 = k - 24" by (simp add: modulo_nat_def)
    with d 4 assms have "8 * (k div 8) + (7 - k mod 8) = 31 - k + 24" by simp
    moreover have "31 - k < 8" using 4 by simp
    ultimately show ?thesis by (simp only: bit_bswap32) simp
  qed
qed

lemma bit_ntohl_net:
  assumes "k < 32"
  shows "bit (bswap32 (s_addr ip)) (31 - k) = net_bit ip k"
proof -
  have "k div 8 \<le> 3" using assms by simp
  then have "8 * (k div 8) + (7 - k mod 8) < 32" "7 - k mod 8 < 8" by simp_all
  with assms show ?thesis
    by (simp only: bit_bswap32_net net_bit_def bit_v6_byte s_addr_def bit_ucast_iff) simp
qed

lemma net_bit_byte: "j < 8 \<Longrightarrow> net_bit a (8 * i + j) = bit (v6_byte a i) (7 - j)"
  by (simp add: net_bit_def)

lemma mask_rest_eq: "mask_rest r = NOT (mask (8 - r))"
  unfolding mask_rest_def push_bit_1_minus_1 ..

lemma v4_match:
  assumes "unat p \<le> 32"
  shows "s_addr a AND mask_v4 p = s_addr b AND mask_v4 p \<longleftrightarrow> (\<forall>k < unat p. net_bit a k = net_bit b k)"
proof (cases "p = 0")
  case True
  then show ?thesis by (simp add: mask_v4_def)
next
  case False
  let ?m = "NOT (mask (32 - unat p)) :: u32"
  let ?A = "bswap32 (s_addr a)" and ?B = "bswap32 (s_addr b)"
  have "s_addr a AND mask_v4 p = s_addr b AND mask_v4 p \<longleftrightarrow> ?A AND ?m = ?B AND ?m"
    using bswap32_eq_iff [of "s_addr a AND mask_v4 p" "s_addr b AND mask_v4 p"] False
    by (simp only: bswap32_and mask_v4_def push_bit_1_minus_1 bswap32_bswap32 if_True simp_thms)
  also have "\<dots> \<longleftrightarrow> (\<forall>n < 32. 32 - unat p \<le> n \<longrightarrow> bit ?A n = bit ?B n)"
    by (auto simp: bit_eq_iff bit_simps)
  also have "\<dots> \<longleftrightarrow> (\<forall>k < unat p. bit ?A (31 - k) = bit ?B (31 - k))"
  proof safe
    fix k assume h: "\<forall>n < 32. 32 - unat p \<le> n \<longrightarrow> bit ?A n = bit ?B n" and "k < unat p"
      and "bit ?A (31 - k)"
    then show "bit ?B (31 - k)" using h [rule_format, of "31 - k"] assms by simp
  next
    fix k assume h: "\<forall>n < 32. 32 - unat p \<le> n \<longrightarrow> bit ?A n = bit ?B n" and "k < unat p"
      and "bit ?B (31 - k)"
    then show "bit ?A (31 - k)" using h [rule_format, of "31 - k"] assms by simp
  next
    fix n assume h: "\<forall>k < unat p. bit ?A (31 - k) = bit ?B (31 - k)" and "n < 32"
      and "32 - unat p \<le> n" and "bit ?A n"
    then show "bit ?B n" using h [rule_format, of "31 - n"] assms by simp
  next
    fix n assume h: "\<forall>k < unat p. bit ?A (31 - k) = bit ?B (31 - k)" and "n < 32"
      and "32 - unat p \<le> n" and "bit ?B n"
    then show "bit ?A n" using h [rule_format, of "31 - n"] assms by simp
  qed
  also have "\<dots> \<longleftrightarrow> (\<forall>k < unat p. net_bit a k = net_bit b k)"
    using assms by (simp add: bit_ntohl_net)
  finally show ?thesis .
qed

lemma byte_eq_net: "v6_byte a i = v6_byte b i \<longleftrightarrow> (\<forall>j < 8. net_bit a (8 * i + j) = net_bit b (8 * i + j))"
proof
  assume h: "\<forall>j < 8. net_bit a (8 * i + j) = net_bit b (8 * i + j)"
  show "v6_byte a i = v6_byte b i"
  proof (rule bit_word_eqI)
    fix n assume "n < LENGTH(8)"
    then show "bit (v6_byte a i) n = bit (v6_byte b i) n"
      using h [rule_format, of "7 - n"] net_bit_byte [of "7 - n" _ i] by simp
  qed
qed (simp add: net_bit_byte)

lemma rest_eq_net:
  assumes "r < 8"
  shows "v6_byte a i AND mask_rest r = v6_byte b i AND mask_rest r \<longleftrightarrow>
    (\<forall>j < r. net_bit a (8 * i + j) = net_bit b (8 * i + j))"
proof -
  have "v6_byte a i AND mask_rest r = v6_byte b i AND mask_rest r \<longleftrightarrow>
      (\<forall>n < 8. 8 - r \<le> n \<longrightarrow> bit (v6_byte a i) n = bit (v6_byte b i) n)"
    by (auto simp: mask_rest_eq bit_eq_iff bit_simps)
  also have "\<dots> \<longleftrightarrow> (\<forall>j < r. bit (v6_byte a i) (7 - j) = bit (v6_byte b i) (7 - j))"
    (is "?L \<longleftrightarrow> ?R")
  proof
    assume h: ?L
    show ?R using assms by (intro allI impI h [rule_format]) auto
  next
    assume h: ?R
    show ?L
    proof (intro allI impI)
      fix n assume n: "n < 8" "8 - r \<le> n"
      then show "bit (v6_byte a i) n = bit (v6_byte b i) n" using h [rule_format, of "7 - n"] by simp
    qed
  qed
  also have "\<dots> \<longleftrightarrow> (\<forall>j < r. net_bit a (8 * i + j) = net_bit b (8 * i + j))"
    using assms by (simp add: net_bit_byte)
  finally show ?thesis .
qed

lemma split_bits:
  assumes "r < 8"
  shows "(\<forall>k < 8 * f + r. P k) \<longleftrightarrow> (\<forall>i < f. \<forall>j < 8. P (8 * i + j)) \<and> (\<forall>j < r. P (8 * f + j :: nat))"
    (is "?L \<longleftrightarrow> ?R")
proof
  assume h: ?R
  show ?L
  proof (intro allI impI)
    fix k assume k: "k < 8 * f + r"
    show "P k"
    proof (cases "k < 8 * f")
      case True
      then have "k div 8 < f" by (simp add: less_mult_imp_div_less mult.commute)
      then show ?thesis
        using h [THEN conjunct1, rule_format, of "k div 8" "k mod 8"] by simp
    next
      case False
      then have "P (8 * f + (k - 8 * f))" using h k by (intro h [THEN conjunct2, rule_format]) simp
      then show ?thesis using False by simp
    qed
  qed
qed auto

lemma v6_match:
  "(memcmp (addr_bytes (p div 8) a) (addr_bytes (p div 8) b) = 0 \<and>
    (p mod 8 > 0 \<longrightarrow> v6_byte a (p div 8) AND mask_rest (p mod 8) = v6_byte b (p div 8) AND mask_rest (p mod 8)))
   \<longleftrightarrow> (\<forall>k < p. net_bit a k = net_bit b k)"
proof -
  have r: "p mod 8 < 8" by simp
  have "memcmp (addr_bytes (p div 8) a) (addr_bytes (p div 8) b) = 0 \<longleftrightarrow>
      (\<forall>i < p div 8. \<forall>j < 8. net_bit a (8 * i + j) = net_bit b (8 * i + j))"
    unfolding byte_eq_net [symmetric] addr_bytes_eq_iff [symmetric]
    by (rule memcmp_eq_0) (simp add: addr_bytes_def)
  then show ?thesis
    using split_bits [OF r, of "p div 8" "\<lambda>k. net_bit a k = net_bit b k"] rest_eq_net [OF r, of a "p div 8" b]
    by auto
qed

lemma ip_in_cidr_net:
  assumes "family net = AF_INET \<Longrightarrow> p \<le> 32"
  shows "ip_in_cidr ip net p \<longleftrightarrow>
    family ip = family net \<and> (\<forall>k < unat p. net_bit ip k = net_bit net k)"
proof (cases "family ip = family net \<and> family ip = AF_INET")
  case True
  then have "p \<le> 32" using assms by metis
  then have "unat p \<le> 32" by (simp add: word_le_nat_alt)
  with True show ?thesis by (auto simp: ip_in_cidr_def v4_match)
next
  case False
  then show ?thesis using v6_match [of "unat p" ip net] by (auto simp: ip_in_cidr_def Let_def)
qed

section \<open>Sequences of operations\<close>

datatype ipset_op =
    Op_add bool ip_addr
  | Op_add_expiring bool ip_addr time_t
  | Op_add_cidr bool string
  | Op_remove ip_addr
  | Op_clear
  | Op_cleanup time_t

fun ipset_exec ::
    "(string \<Rightarrow> u32 option) \<Rightarrow> (string \<Rightarrow> 128 word option) \<Rightarrow> ipset option \<Rightarrow> ipset_op \<Rightarrow> ipset option"
where
  "ipset_exec p4 p6 sp (Op_add ok ip) = snd (ipset_add ok sp ip)"
| "ipset_exec p4 p6 sp (Op_add_expiring ok ip t) = snd (ipset_add_expiring ok sp ip t)"
| "ipset_exec p4 p6 sp (Op_add_cidr ok str) = snd (ipset_add_cidr (string_to_ip_addr p4 p6) ok sp str)"
| "ipset_exec p4 p6 sp (Op_remove ip) = snd (ipset_remove sp ip)"
| "ipset_exec p4 p6 sp Op_clear = ipset_clear sp"
| "ipset_exec p4 p6 sp (Op_cleanup now) = snd (ipset_cleanup_expired sp now)"

lemma exec_Some: "\<exists>s'. ipset_exec p4 p6 (Some s) op = Some s' \<and> max_size s' = max_size s"
proof (cases op)
  case (Op_cleanup now)
  have "max_size (fst (fold (sweep_bucket now) is (s, c))) = max_size s" for "is" c
    by (induction "is" arbitrary: s c) (simp_all add: sweep_bucket_step)
  with Op_cleanup show ?thesis by (simp add: ipset_cleanup_expired_def split: prod.split) (metis fst_conv)
qed (auto simp: ipset_add_def ipset_add_expiring_def ipset_add_cidr_def ipset_remove_def
    ipset_clear_def ipset_push_def Let_def split: option.splits if_splits)

lemma exec_wf:
  assumes wf: "ipset_wf s" and ex: "ipset_exec p4 p6 (Some s) op = Some s'"
  shows "ipset_wf s'"
proof (cases op)
  case (Op_add ok ip)
  with ex add_expiring_wf [OF wf, of ok ip 0] show ?thesis
    by (cases "ipset_add ok (Some s) ip") (auto simp: ipset_add_def)
next
  case (Op_add_expiring ok ip t)
  with ex add_expiring_wf [OF wf, of ok ip t] show ?thesis
    by (cases "ipset_add_expiring ok (Some s) ip t") auto
next
  case (Op_add_cidr ok str)
  with ex add_cidr_wf [OF wf, of p4 p6 ok str] show ?thesis
    by (cases "ipset_add_cidr (string_to_ip_addr p4 p6) ok (Some s) str") auto
next
  case (Op_remove ip)
  with ex remove_wf [OF wf, of ip] show ?thesis
    by (cases "ipset_remove (Some s) ip") auto
next
  case Op_clear
  with ex clear_wf [OF wf] show ?thesis by auto
next
  case (Op_cleanup now)
  with ex cleanup_eq [OF wf, of now] show ?thesis by auto
qed

text \<open>C1: in a set made by \<open>ipset_create\<close>, whatever sequence of additions, removals, expiry sweeps
  and clears follows, \<open>entry_count\<close> (kept in 32 bits) is the number of entries in the chains,
  never exceeds \<open>max_size\<close>, every entry sits in the chain of its hash and every prefix length
  fits the family of its address.\<close>

theorem ipset_ops_keep_wf:
  "\<exists>s. foldl (ipset_exec p4 p6) (ipset_create True True limit) ops = Some s \<and> ipset_wf s \<and>
       unat (ipset_size (Some s)) = length (ipset_elems s) \<and> ipset_size (Some s) \<le> limit"
proof -
  have run: "\<exists>s'. foldl (ipset_exec p4 p6) (Some s) ops = Some s' \<and> ipset_wf s' \<and> max_size s' = max_size s"
    if "ipset_wf s" for s
    using that
  proof (induction ops arbitrary: s)
    case (Cons op ops)
    obtain s1 where s1: "ipset_exec p4 p6 (Some s) op = Some s1" "max_size s1 = max_size s"
      using exec_Some by blast
    with Cons.IH [of s1] exec_wf [OF Cons.prems s1(1)] show ?case by simp
  qed simp
  obtain s0 where s0: "ipset_create True True limit = Some s0" "max_size s0 = limit"
    by (simp add: ipset_create_def)
  from run [OF create_wf [OF s0(1)]] s0 show ?thesis
    by (auto simp: ipset_size_def ipset_wf_def)
qed

section \<open>What additions and removals change\<close>

text \<open>C2: \<open>ipset_contains\<close> answers by the entries that have not expired: true exactly when one
  of them has the address asked for, wherever it is stored.\<close>

theorem ipset_contains_correct:
  assumes "ipset_wf s"
  shows "ipset_contains now (Some s) ip \<longleftrightarrow>
    (\<exists>e \<in> set (ipset_elems s). (e_expires e \<le> 0 \<or> now \<le> e_expires e) \<and> same_ip (e_ip e) ip)"
  using contains_iff [OF assms, of now ip] by (auto simp: entry_expired_def not_less)

lemma contains_chain:
  "ipset_contains now (Some s) ip \<longleftrightarrow>
    (\<exists>e \<in> set (buckets s (unat (ipset_hash ip))). ip_addr_compare (e_ip e) ip = 0 \<and> \<not> entry_expired now e)"
  by (auto simp: ipset_contains_def chain_contains_iff ip_addr_compare_0)

lemma contains_other_upd:
  assumes "\<not> same_ip ip ip'"
    and "\<And>e. \<not> same_ip (e_ip e) ip \<Longrightarrow> e \<in> set es \<longleftrightarrow> e \<in> set (buckets s (unat (ipset_hash ip)))"
  shows "ipset_contains now (Some (s\<lparr>buckets := (buckets s)(unat (ipset_hash ip) := es), entry_count := c\<rparr>)) ip' \<longleftrightarrow>
    ipset_contains now (Some s) ip'"
  using ipset_key.search_other [of ip ip' e_ip es "buckets s" "\<lambda>e. \<not> entry_expired now e"] assms
  by (simp add: contains_chain ip_addr_compare_0 del: fun_upd_apply)

text \<open>The entries of an address that an \<open>ipset_add_expiring\<close> does not refresh: all but the first \<open>/32\<close>
  entry. There are none when the address had no entry, or only that one.\<close>

definition other_entries :: "ip_addr \<Rightarrow> ipset \<Rightarrow> ipset_entry list" where
  "other_entries ip s =
     (let own = filter (\<lambda>e. same_ip (e_ip e) ip) (buckets s (unat (ipset_hash ip)))
      in case unlink_first (\<lambda>e. e_prefix_len e = 32) own of None \<Rightarrow> own | Some es \<Rightarrow> es)"

lemma other_entries_none:
  assumes "ipset_wf s"
  shows "\<forall>e \<in> set (ipset_elems s). \<not> same_ip (e_ip e) ip \<Longrightarrow> other_entries ip s = []"
    and "filter (\<lambda>e. same_ip (e_ip e) ip) (buckets s (unat (ipset_hash ip))) = [e] \<Longrightarrow> e_prefix_len e = 32 \<Longrightarrow> other_entries ip s = []"
proof -
  show "other_entries ip s = []" if "\<forall>e \<in> set (ipset_elems s). \<not> same_ip (e_ip e) ip"
  proof -
    have "filter (\<lambda>e. same_ip (e_ip e) ip) (buckets s (unat (ipset_hash ip))) = []"
      using that set_elems [OF assms] by (auto simp: filter_empty_conv)
    then show ?thesis by (simp add: other_entries_def)
  qed
qed (simp add: other_entries_def)

lemma unlink_first_append:
  "\<forall>u \<in> set us. \<not> P u \<Longrightarrow> P e \<Longrightarrow> unlink_first P (us @ e # vs) = Some (us @ vs)"
  by (induction us) auto

lemma add_expiring_chain:
  assumes "ipset_add_expiring ok (Some s) ip t = (0, Some s')"
  shows "\<exists>es c. s' = s\<lparr>buckets := (buckets s)(unat (ipset_hash ip) := es), entry_count := c\<rparr> \<and>
    (\<forall>now. (\<exists>e \<in> set es. same_ip (e_ip e) ip \<and> \<not> entry_expired now e) \<longleftrightarrow>
      t \<le> 0 \<or> now \<le> t \<or> (\<exists>e \<in> set (other_entries ip s). \<not> entry_expired now e)) \<and>
    (\<forall>e. \<not> same_ip (e_ip e) ip \<longrightarrow> e \<in> set es \<longleftrightarrow> e \<in> set (buckets s (unat (ipset_hash ip))))"
proof (cases "ipset_touch ip t (buckets s (unat (ipset_hash ip)))")
  case None
  let ?h = "unat (ipset_hash ip)"
  let ?e = "\<lparr>e_ip = ip, e_prefix_len = (if family ip = AF_INET then 32 else 128), e_expires = t\<rparr>"
  have "unlink_first (\<lambda>e. e_prefix_len e = 32) (filter (\<lambda>e. same_ip (e_ip e) ip) (buckets s ?h)) = None"
    using None by (auto simp: touch_None unlink_first_None)
  then have o: "other_entries ip s = filter (\<lambda>e. same_ip (e_ip e) ip) (buckets s ?h)" by (simp add: other_entries_def)
  have "s' = s\<lparr>buckets := (buckets s)(?h := ?e # buckets s ?h), entry_count := entry_count s + 1\<rparr>"
    using None assms by (auto simp: ipset_add_expiring_def ipset_push_def Let_def split: if_splits)
  moreover have "(\<exists>e \<in> set (?e # buckets s ?h). same_ip (e_ip e) ip \<and> \<not> entry_expired now e) \<longleftrightarrow>
      t \<le> 0 \<or> now \<le> t \<or> (\<exists>e \<in> set (other_entries ip s). \<not> entry_expired now e)" for now
    unfolding o by (auto simp: entry_expired_def)
  ultimately show ?thesis by (intro exI [of _ "?e # buckets s ?h"] exI [of _ "entry_count s + 1"]) auto
next
  case (Some es)
  let ?h = "unat (ipset_hash ip)"
  obtain us e vs where t: "buckets s ?h = us @ e # vs" "es = us @ e\<lparr>e_expires := t\<rparr> # vs" "same_ip (e_ip e) ip" "e_prefix_len e = 32"
    "\<forall>u \<in> set us. \<not> (same_ip (e_ip u) ip \<and> e_prefix_len u = 32)"
    using touch_Some [OF Some] by blast
  let ?f = "filter (\<lambda>e. same_ip (e_ip e) ip)"
  have "unlink_first (\<lambda>e. e_prefix_len e = 32) (?f (us @ e # vs)) = Some (?f us @ ?f vs)"
    using t(3-5) unlink_first_append [of "?f us" "\<lambda>e. e_prefix_len e = 32" e "?f vs"] by auto
  then have o: "other_entries ip s = ?f us @ ?f vs" by (simp add: other_entries_def t(1))
  have "s' = s\<lparr>buckets := (buckets s)(?h := es), entry_count := entry_count s\<rparr>"
    using Some assms by (auto simp: ipset_add_expiring_def Let_def split: if_splits)
  moreover have "(\<exists>e \<in> set es. same_ip (e_ip e) ip \<and> \<not> entry_expired now e) \<longleftrightarrow>
      t \<le> 0 \<or> now \<le> t \<or> (\<exists>e \<in> set (other_entries ip s). \<not> entry_expired now e)" for now
    unfolding o t(2) using t(3) by (auto simp: entry_expired_def)
  ultimately show ?thesis using t by (intro exI [of _ es] exI [of _ "entry_count s"]) auto
qed

text \<open>C3: what a successful \<open>ipset_add_expiring\<close> does to membership. From then on the address is a
  member exactly until its expiry time (forever when it is 0 or negative), or as long as an older
  entry of the address that the call did not refresh is alive; of those there are none when the
  address had no entry, or one of prefix length 32, whose old expiry time then counts no more. The
  answer for every other address stays.\<close>

theorem ipset_add_expiring_contains:
  assumes "ipset_wf s" and add: "ipset_add_expiring ok (Some s) ip t = (0, Some s')"
  shows "(ipset_contains now (Some s') ip \<longleftrightarrow>
      t \<le> 0 \<or> now \<le> t \<or> (\<exists>e \<in> set (other_entries ip s). \<not> entry_expired now e)) \<and>
    ((\<forall>e \<in> set (ipset_elems s). \<not> same_ip (e_ip e) ip) \<or>
     (\<exists>e. filter (\<lambda>e. same_ip (e_ip e) ip) (buckets s (unat (ipset_hash ip))) = [e] \<and> e_prefix_len e = 32) \<longrightarrow>
       (ipset_contains now (Some s') ip \<longleftrightarrow> t \<le> 0 \<or> now \<le> t)) \<and>
    (\<not> same_ip ip ip' \<longrightarrow> ipset_contains now (Some s') ip' = ipset_contains now (Some s) ip')"
proof -
  let ?h = "unat (ipset_hash ip)"
  obtain es c where s': "s' = s\<lparr>buckets := (buckets s)(?h := es), entry_count := c\<rparr>"
    and own: "\<And>now. (\<exists>e \<in> set es. same_ip (e_ip e) ip \<and> \<not> entry_expired now e) \<longleftrightarrow>
      t \<le> 0 \<or> now \<le> t \<or> (\<exists>e \<in> set (other_entries ip s). \<not> entry_expired now e)"
    and old: "\<And>e. \<not> same_ip (e_ip e) ip \<Longrightarrow> e \<in> set es \<longleftrightarrow> e \<in> set (buckets s ?h)"
    using add_expiring_chain [OF add] by blast
  have c: "ipset_contains now (Some s') ip \<longleftrightarrow>
      t \<le> 0 \<or> now \<le> t \<or> (\<exists>e \<in> set (other_entries ip s). \<not> entry_expired now e)"
    using own by (simp add: s' contains_chain ip_addr_compare_0)
  then show ?thesis
    using contains_other_upd [OF _ old, of ip' now c] other_entries_none [OF assms(1), of ip] by (auto simp: s')
qed

text \<open>C4: \<open>ipset_cleanup_expired\<close> removes exactly the entries whose expiry time has passed, keeps
  the others in their order, returns how many it removed, and no membership question asked at
  this time or later can tell the difference.\<close>

theorem ipset_cleanup_correct:
  assumes "ipset_wf s" and "now \<le> later"
  shows "\<exists>s'. ipset_cleanup_expired (Some s) now =
           (int (length (filter (entry_expired now) (ipset_elems s))), Some s') \<and>
         ipset_wf s' \<and>
         ipset_elems s' = filter (\<lambda>e. \<not> entry_expired now e) (ipset_elems s) \<and>
         (\<forall>ip. ipset_contains later (Some s') ip = ipset_contains later (Some s) ip \<and>
               ipset_contains_cidr later (Some s') ip = ipset_contains_cidr later (Some s) ip)"
proof -
  obtain s' where s': "ipset_cleanup_expired (Some s) now =
      (int (length (filter (entry_expired now) (ipset_elems s))), Some s')"
    and wf': "ipset_wf s'" and el: "ipset_elems s' = filter (\<lambda>e. \<not> entry_expired now e) (ipset_elems s)"
    using cleanup_eq [OF assms(1), of now] by blast
  have later: "\<not> entry_expired later e \<Longrightarrow> \<not> entry_expired now e" for e
    using assms(2) by (auto simp: entry_expired_def)
  have "ipset_contains later (Some s') ip = ipset_contains later (Some s) ip" for ip
    using later by (auto simp: contains_iff [OF assms(1)] contains_iff [OF wf'] el)
  moreover have "ipset_contains_cidr later (Some s') ip = ipset_contains_cidr later (Some s) ip" for ip
    using later by (auto simp: contains_cidr_iff el)
  ultimately show ?thesis using s' wf' el by blast
qed

section \<open>Ranges\<close>

text \<open>C5: for every prefix length its family allows, \<open>ip_in_cidr\<close> (a 32-bit mask for IPv4, a byte
  comparison and a mask on the rest for IPv6) is true exactly for the addresses of the same
  family whose first \<open>prefix_len\<close> bits in network order are those of the network address.\<close>

theorem ip_in_cidr_correct:
  assumes "family network = AF_INET \<Longrightarrow> prefix_len \<le> 32"
  shows "ip_in_cidr ip network prefix_len \<longleftrightarrow>
    family ip = family network \<and> (\<forall>k < unat prefix_len. net_bit ip k = net_bit network k)"
  by (rule ip_in_cidr_net [OF assms])

lemma push_elems:
  "ipset_wf s \<Longrightarrow> entry_count s < max_size s \<Longrightarrow> prefix_ok e \<Longrightarrow>
    set (ipset_elems (ipset_push s e)) = insert e (set (ipset_elems s))"
  using push_wf [of s e] by (auto simp: set_elems ipset_push_def Let_def split: if_splits) metis

lemma push_cidr:
  assumes "ipset_wf s" and "entry_count s < max_size s" and "prefix_ok e" and "e_expires e = 0"
  shows "ipset_contains_cidr now (Some (ipset_push s e)) ip \<longleftrightarrow>
    ipset_contains_cidr now (Some s) ip \<or>
    family ip = family (e_ip e) \<and> (\<forall>k < unat (e_prefix_len e). net_bit ip k = net_bit (e_ip e) k)"
proof -
  have "family (e_ip e) = AF_INET \<Longrightarrow> e_prefix_len e \<le> 32"
    using assms(3) by (simp add: prefix_ok_def)
  with assms(4) show ?thesis
    by (auto simp: contains_cidr_iff push_elems [OF assms(1-3)] entry_expired_def ip_in_cidr_net)
qed

lemma ucast_prefix: "p \<le> 128 \<Longrightarrow> unat (ucast (p :: u32) :: u8) = unat p"
  by (simp add: word_le_nat_alt unsigned_ucast_eq take_bit_nat_eq_self)

text \<open>C6: a successful \<open>ipset_add_cidr\<close> of a text \<open>address/length\<close> adds exactly the addresses of
  that range to what \<open>ipset_contains_cidr\<close> accepts, at any time, and nothing else changes.\<close>

theorem ipset_add_cidr_covers:
  assumes "ipset_wf s"
    and "CHR ''/'' \<notin> set addr"
    and "string_to_ip_addr p4 p6 addr = Some ip"
    and "ipset_add_cidr (string_to_ip_addr p4 p6) ok (Some s) (addr @ CHR ''/'' # len) = (0, Some s')"
  shows "ipset_contains_cidr now (Some s') x \<longleftrightarrow>
    ipset_contains_cidr now (Some s) x \<or>
    family x = family ip \<and> (\<forall>k < unat (word_of_int (atoi len) :: u32). net_bit x k = net_bit ip k)"
proof -
  let ?p = "word_of_int (atoi len) :: u32"
  have tw: "takeWhile (\<lambda>c. c \<noteq> CHR ''/'') (addr @ CHR ''/'' # len) = addr"
    using assms(2) by (subst takeWhile_append2) auto
  have fam: "family ip = AF_INET \<or> family ip = AF_INET6"
    using assms(3) by (auto simp: string_to_ip_addr_def split: option.splits)
  have facts: "entry_count s < max_size s" "?p \<le> (if family ip = AF_INET then 32 else 128)"
      "s' = ipset_push s \<lparr>e_ip = ip, e_prefix_len = ucast ?p, e_expires = 0\<rparr>"
    using assms(3,4) fam
    by (auto simp: ipset_add_cidr_def Let_def tw not_le not_less AF_INET_def AF_INET6_def split: if_splits)
  have le: "?p \<le> 128" using facts(2) by (auto split: if_splits intro: order_trans)
  have "prefix_ok \<lparr>e_ip = ip, e_prefix_len = ucast ?p, e_expires = 0\<rparr>"
    using facts(2) ucast_prefix [OF le]
    by (simp add: prefix_ok_def word_le_nat_alt split: if_splits)
  from push_cidr [OF assms(1) facts(1) this] show ?thesis
    by (simp add: facts(3) ucast_prefix [OF le])
qed

text \<open>The text of an IPv6 address without a slash is meant as a single host (the code's comment
  says \<open>/32 or /128\<close>), but \<open>ipset_add_cidr\<close> stores prefix length 32: the fresh set then covers
  every IPv6 address that shares the first 32 bits, not just the address given.\<close>

theorem ipset_add_cidr_plain_ipv6_is_slash_32:
  assumes "p4 str = None" and "p6 str = Some a" and "CHR ''/'' \<notin> set str" and "length str < 46"
    and "0 < limit"
  shows "\<exists>s. ipset_add_cidr (string_to_ip_addr p4 p6) True (ipset_create True True limit) str = (0, Some s) \<and>
    (\<forall>now x. ipset_contains_cidr now (Some s) x \<longleftrightarrow>
       family x = AF_INET6 \<and> (\<forall>k < 32. net_bit x k = net_bit \<lparr>family = AF_INET6, ip_bits = a\<rparr> k))"
proof -
  obtain s0 where s0: "ipset_create True True limit = Some s0" "entry_count s0 = 0" "max_size s0 = limit"
    by (simp add: ipset_create_def)
  let ?ip = "\<lparr>family = AF_INET6, ip_bits = a\<rparr>"
  let ?e = "\<lparr>e_ip = ?ip, e_prefix_len = 32, e_expires = 0\<rparr>"
  have wf: "ipset_wf s0" using create_wf s0(1) .
  have none: "ipset_elems s0 = []"
    using s0(1) by (auto simp: ipset_create_def ipset_elems_def table_entries_def)
  have "ipset_add_cidr (string_to_ip_addr p4 p6) True (Some s0) str = (0, Some (ipset_push s0 ?e))"
    using assms s0
    by (simp add: ipset_add_cidr_def Let_def string_to_ip_addr_def MAX_IP_STR_LEN_def
        AF_INET_def AF_INET6_def take_all not_le)
  moreover have "ipset_contains_cidr now (Some (ipset_push s0 ?e)) x \<longleftrightarrow>
       family x = AF_INET6 \<and> (\<forall>k < 32. net_bit x k = net_bit ?ip k)" for now x
    using assms(5) s0 none
    by (subst push_cidr [OF wf]) (auto simp: prefix_ok_def contains_cidr_iff AF_INET_def AF_INET6_def)
  ultimately show ?thesis unfolding s0(1) by (intro exI [of _ "ipset_push s0 ?e"] conjI allI)
qed

section \<open>Adding twice, removing once\<close>

text \<open>Adding an address twice and removing it once leaves a fresh set without the address when it
  is IPv4 (the second addition finds the first entry), but an IPv6 address stays a member: its
  entries carry prefix length 128 while the search for an existing entry asks for 32, so every
  addition makes another entry and a removal takes only one.\<close>

theorem ipset_add_twice_remove_once:
  assumes "2 \<le> limit"
  shows "let s1 = snd (ipset_add True (ipset_create True True limit) ip);
             s2 = snd (ipset_add True s1 ip);
             s3 = snd (ipset_remove s2 ip)
         in ipset_size s2 = (if family ip = AF_INET then 1 else 2) \<and>
            (ipset_contains now s3 ip \<longleftrightarrow> family ip \<noteq> AF_INET)"
proof -
  have "\<not> limit \<le> 0" "\<not> limit \<le> 1" using assms by (auto simp: word_le_nat_alt)
  then show ?thesis
    by (simp add: ipset_add_def ipset_add_expiring_def ipset_create_def ipset_push_def Let_def
        ip_addr_compare_0 ipset_size_def ipset_remove_def ipset_contains_def entry_expired_def)
qed


section \<open>A concrete set\<close>

text \<open>192.0.2.1 (in memory order 0x010200C0), blocked until time 100, in a set for 5 entries.\<close>

definition example_ip :: ip_addr where
  "example_ip = \<lparr>family = AF_INET, ip_bits = 0x010200C0\<rparr>"

definition example_entry :: ipset_entry where
  "example_entry = \<lparr>e_ip = example_ip, e_prefix_len = 32, e_expires = 100\<rparr>"

definition empty_set :: ipset where
  "empty_set = \<lparr>buckets = (\<lambda>_. []), bucket_count = IPSET_BUCKETS, entry_count = 0, max_size = 5\<rparr>"

definition example_set :: ipset where
  "example_set = ipset_push empty_set example_entry"

lemma empty_set_create: "ipset_create True True 5 = Some empty_set"
  by (simp add: ipset_create_def empty_set_def)

lemma empty_set_wf: "ipset_wf empty_set"
  by (rule create_wf [OF empty_set_create])

lemma empty_set_room: "entry_count empty_set < max_size empty_set"
  by (simp add: empty_set_def)

lemma example_prefix_ok: "prefix_ok example_entry"
  by (simp add: prefix_ok_def example_entry_def example_ip_def)

lemma example_set_wf: "ipset_wf example_set"
  unfolding example_set_def by (rule push_wf [OF empty_set_wf empty_set_room example_prefix_ok])

lemma example_set_elems: "set (ipset_elems example_set) = {example_entry}"
  unfolding example_set_def push_elems [OF empty_set_wf empty_set_room example_prefix_ok]
  by (auto simp: empty_set_def ipset_elems_def table_entries_def)

lemma example_add:
  "ipset_add_expiring True (Some empty_set) example_ip 100 = (0, Some example_set)"
  by (simp add: ipset_add_expiring_def empty_set_def example_set_def example_entry_def
      example_ip_def Let_def)

theorem ipset_contains_correct_witness:
  "ipset_wf example_set \<and> ipset_contains 100 (Some example_set) example_ip \<and>
   \<not> ipset_contains 101 (Some example_set) example_ip"
proof -
  have "ipset_contains now (Some example_set) example_ip \<longleftrightarrow> now \<le> 100" for now
    using ipset_contains_correct [OF example_set_wf, of now example_ip]
    by (simp add: example_set_elems) (simp add: example_entry_def)
  then show ?thesis using example_set_wf by simp
qed

theorem ipset_add_expiring_contains_witness:
  "ipset_wf empty_set \<and>
   ipset_add_expiring True (Some empty_set) example_ip 100 = (0, Some example_set) \<and>
   ipset_contains 42 (Some example_set) example_ip \<and> \<not> ipset_contains 101 (Some example_set) example_ip"
proof -
  have "\<forall>e \<in> set (ipset_elems empty_set). \<not> same_ip (e_ip e) example_ip"
    using set_elems [OF empty_set_wf] by (auto simp: empty_set_def)
  then show ?thesis
    using ipset_add_expiring_contains [OF empty_set_wf example_add, of 42 example_ip]
      ipset_add_expiring_contains [OF empty_set_wf example_add, of 101 example_ip]
      empty_set_wf example_add by auto
qed
theorem ipset_cleanup_correct_witness:
  "ipset_wf example_set \<and> (101 :: int) \<le> 102 \<and>
   fst (ipset_cleanup_expired (Some example_set) 101) = 1"
proof -
  have "filter (entry_expired 101) (ipset_elems example_set) = ipset_elems example_set"
    using example_set_elems
    by (intro filter_True) (simp add: entry_expired_def example_entry_def)
  moreover have "length (ipset_elems example_set) = 1"
    using example_set_wf unfolding ipset_wf_def
    by (simp add: example_set_def ipset_push_def empty_set_def Let_def)
  ultimately show ?thesis
    using ipset_cleanup_correct [OF example_set_wf, of 101 102] example_set_wf by auto
qed

theorem ip_in_cidr_correct_witness:
  "family example_ip = AF_INET \<and> (24 :: u8) \<le> 32 \<and>
   (ip_in_cidr example_ip example_ip 24 \<longleftrightarrow>
    family example_ip = family example_ip \<and> (\<forall>k < unat (24 :: u8). net_bit example_ip k = net_bit example_ip k))"
  using ip_in_cidr_correct [of example_ip 24 example_ip] by (simp add: example_ip_def)

theorem ipset_add_cidr_covers_witness:
  "\<exists>s'. ipset_add_cidr (string_to_ip_addr (\<lambda>_. Some 0x010200C0) (\<lambda>_. None)) True
          (Some empty_set) (''192.0.2.1'' @ CHR ''/'' # ''24'') = (0, Some s') \<and>
        ipset_contains_cidr 7 (Some s') example_ip"
proof -
  let ?parse = "string_to_ip_addr (\<lambda>_. Some 0x010200C0) (\<lambda>_. None)"
  have parse: "?parse ''192.0.2.1'' = Some example_ip"
    by (simp add: string_to_ip_addr_def example_ip_def)
  have slash: "CHR ''/'' \<notin> set ''192.0.2.1''" by simp
  have len: "atoi ''24'' = 24" by (simp add: atoi_def is_blank_def is_digit_def)
  have add: "\<exists>s'. ipset_add_cidr ?parse True (Some empty_set) (''192.0.2.1'' @ CHR ''/'' # ''24'') = (0, Some s')"
    using parse len by (simp add: ipset_add_cidr_def MAX_IP_STR_LEN_def empty_set_def
        example_ip_def AF_INET_def AF_INET6_def)
  then obtain s' where s': "ipset_add_cidr ?parse True (Some empty_set)
      (''192.0.2.1'' @ CHR ''/'' # ''24'') = (0, Some s')" by blast
  from ipset_add_cidr_covers [OF empty_set_wf slash parse s', of 7 example_ip] s'
  show ?thesis by blast
qed

theorem ipset_add_cidr_plain_ipv6_is_slash_32_witness:
  "\<exists>s. ipset_add_cidr (string_to_ip_addr (\<lambda>_. None) (\<lambda>_. Some 1)) True (ipset_create True True 5) ''::1'' = (0, Some s) \<and>
       ipset_contains_cidr 0 (Some s) \<lparr>family = AF_INET6, ip_bits = push_bit 64 1 OR 1\<rparr>"
proof -
  let ?x = "\<lparr>family = AF_INET6, ip_bits = push_bit 64 1 OR 1\<rparr>"
  have b: "bit (push_bit 64 1 OR 1 :: 128 word) n = bit (1 :: 128 word) n" if "n < 64" for n
    unfolding bit_or_iff bit_push_bit_iff using that by simp
  have "net_bit ?x k = net_bit \<lparr>family = AF_INET6, ip_bits = 1\<rparr> k" if "k < 32" for k
  proof -
    have "8 * (k div 8) + (7 - k mod 8) < 64" using that by simp
    then show ?thesis unfolding net_bit_def bit_v6_byte by (simp only: ip_addr.simps b)
  qed
  then show ?thesis
    using ipset_add_cidr_plain_ipv6_is_slash_32 [of "\<lambda>_. None" "''::1''" "\<lambda>_. Some 1" 1 5] by auto
qed

theorem ipset_add_twice_remove_once_witness:
  "(2 :: u32) \<le> 5 \<and>
   ipset_size (snd (ipset_add True (snd (ipset_add True (ipset_create True True 5)
      \<lparr>family = AF_INET6, ip_bits = 1\<rparr>)) \<lparr>family = AF_INET6, ip_bits = 1\<rparr>)) = 2"
  using ipset_add_twice_remove_once [of 5 "\<lparr>family = AF_INET6, ip_bits = 1\<rparr>"]
  by (simp add: Let_def AF_INET_def AF_INET6_def)

section \<open>Saving and loading\<close>

lemma of_char_48: "n < 10 \<Longrightarrow> of_char (char_of (48 + n) :: char) = (48 + n :: nat)"
  by simp

lemma is_digit_48 [simp]: "n < 10 \<Longrightarrow> is_digit (char_of (48 + n :: nat))"
  by (simp add: is_digit_def)

lemma int_of_char_48: "n < 10 \<Longrightarrow> of_char (char_of (48 + n :: nat) :: char) = (48 + int n)"
  by (metis of_char_48 of_nat_of_char of_nat_add of_nat_numeral)

lemma dec_digits_induct_step:
  "dec_digits n = (if n < 10 then [char_of (48 + n)] else dec_digits (n div 10) @ [char_of (48 + n mod 10)])"
  by (rule dec_digits.simps)

lemma dec_digits_all: "c \<in> set (dec_digits n) \<Longrightarrow> is_digit c"
proof (induction n rule: dec_digits.induct)
  case (1 n)
  then show ?case by (subst (asm) (2) dec_digits_induct_step) (auto split: if_splits)
qed

lemma dec_digits_nonempty: "dec_digits n \<noteq> []"
  by (subst dec_digits_induct_step) simp

lemma digits_value_append:
  "(\<And>c. c \<in> set xs \<Longrightarrow> is_digit c) \<Longrightarrow> digits_value acc (xs @ ys) = digits_value (digits_value acc xs) ys"
  by (induction xs arbitrary: acc) auto

lemma digits_value_one: "n < 10 \<Longrightarrow> digits_value acc [char_of (48 + n :: nat)] = 10 * acc + int n"
  by (simp add: int_of_char_48)

lemma digits_value_dec: "digits_value 0 (dec_digits n) = int n"
proof (induction n rule: dec_digits.induct)
  case (1 n)
  show ?case
  proof (cases "n < 10")
    case True
    then show ?thesis
      using digits_value_one [OF True, of 0] by (subst dec_digits_induct_step) simp
  next
    case False
    have "digits_value 0 (dec_digits n) = digits_value (digits_value 0 (dec_digits (n div 10))) [char_of (48 + n mod 10)]"
      using False by (subst dec_digits_induct_step) (simp only: if_False digits_value_append [OF dec_digits_all])
    also have "\<dots> = 10 * int (n div 10) + int (n mod 10)"
      using "1.IH" [OF False] digits_value_one [of "n mod 10"] by simp
    also have "\<dots> = int n" by presburger
    finally show ?thesis .
  qed
qed

lemma digit_not_special:
  "is_digit c \<Longrightarrow> \<not> is_blank c \<and> c \<noteq> CHR ''-'' \<and> c \<noteq> CHR ''+'' \<and> c \<noteq> CHR ''/'' \<and> c \<noteq> CHR 0x0A"
  by (auto simp: is_digit_def is_blank_def)

lemma atoi_dec_digits: "atoi (dec_digits n) = int n"
proof (cases "dec_digits n")
  case Nil
  then show ?thesis by (simp add: dec_digits_nonempty)
next
  case (Cons c cs)
  then have "is_digit c" using dec_digits_all [of c n] by simp
  from digit_not_special [OF this] Cons digits_value_dec [of n] show ?thesis by (simp add: atoi_def)
qed

text \<open>What the C library's text forms must give for one entry: the text parses back, and holds no
  slash, line break or comment sign and fits the buffer.\<close>

definition prints_back ::
    "(string \<Rightarrow> u32 option) \<Rightarrow> (string \<Rightarrow> 128 word option) \<Rightarrow> (ip_addr \<Rightarrow> string) \<Rightarrow> ip_addr \<Rightarrow> bool" where
  "prints_back p4 p6 show_ip ip \<longleftrightarrow>
     string_to_ip_addr p4 p6 (show_ip ip) = Some ip \<and> length (show_ip ip) < 46 \<and>
     show_ip ip \<noteq> [] \<and> hd (show_ip ip) \<noteq> CHR ''#'' \<and>
     CHR ''/'' \<notin> set (show_ip ip) \<and> CHR 0x0A \<notin> set (show_ip ip)"

lemma strip_print_entry:
  assumes "prints_back p4 p6 show_ip (e_ip e)"
  shows "strip_newline (print_entry show_ip e) =
    show_ip (e_ip e) @ CHR ''/'' # dec_digits (unat (e_prefix_len e))"
proof -
  have "\<forall>c \<in> set (show_ip (e_ip e) @ ''/'' @ dec_digits (unat (e_prefix_len e))). c \<noteq> CHR 0x0A"
    using assms digit_not_special dec_digits_all by (auto simp: prints_back_def)
  then have "takeWhile (\<lambda>c. c \<noteq> CHR 0x0A) ((show_ip (e_ip e) @ ''/'' @ dec_digits (unat (e_prefix_len e))) @ [CHR 0x0A])
      = show_ip (e_ip e) @ ''/'' @ dec_digits (unat (e_prefix_len e))"
    by (subst takeWhile_append2) auto
  then show ?thesis by (simp add: strip_newline_def print_entry_def)
qed

lemma add_printed:
  assumes pb: "prints_back p4 p6 show_ip (e_ip e)" and "prefix_ok e"
    and room: "entry_count s < max_size s"
  shows "ipset_add_cidr (string_to_ip_addr p4 p6) True (Some s)
      (show_ip (e_ip e) @ CHR ''/'' # dec_digits (unat (e_prefix_len e))) =
    (0, Some (ipset_push s (e\<lparr>e_expires := 0\<rparr>)))"
proof -
  let ?p = "word_of_int (atoi (dec_digits (unat (e_prefix_len e)))) :: u32"
  have p: "?p = ucast (e_prefix_len e)" by (simp add: atoi_dec_digits)
  have up: "unat (ucast (e_prefix_len e) :: u32) = unat (e_prefix_len e)"
    by (simp add: unsigned_ucast_eq take_bit_nat_eq_self unsigned_less [THEN order_less_trans])
  have back2: "ucast (ucast (e_prefix_len e) :: u32) = e_prefix_len e"
    by (rule bit_word_eqI) (simp add: bit_simps)
  have tw: "takeWhile (\<lambda>c. c \<noteq> CHR ''/'') (show_ip (e_ip e) @ CHR ''/'' # xs) = show_ip (e_ip e)" for xs
    using pb by (subst takeWhile_append2) (auto simp: prints_back_def)
  have rec: "\<lparr>e_ip = e_ip e, e_prefix_len = e_prefix_len e, e_expires = 0\<rparr> = e\<lparr>e_expires := 0\<rparr>"
    by (cases e) simp
  show ?thesis
    using assms unfolding ipset_add_cidr_def Let_def tw
    by (auto simp: prints_back_def p up back2 MAX_IP_STR_LEN_def prefix_ok_def not_le
        word_le_nat_alt word_less_nat_alt split: if_splits; simp only: rec)
qed

lemma load_printed:
  assumes "\<forall>e \<in> set es. prints_back p4 p6 show_ip (e_ip e) \<and> prefix_ok e"
    and "ipset_wf s" and "length (ipset_elems s) + length es \<le> unat (max_size s)"
  shows "\<exists>s'. load_lines (string_to_ip_addr p4 p6) [] (Some s) (map (print_entry show_ip) es) n =
      (n + int (length es), Some s') \<and> ipset_wf s' \<and> max_size s' = max_size s \<and>
      mset (ipset_elems s') = mset (ipset_elems s) + mset (map (\<lambda>e. e\<lparr>e_expires := 0\<rparr>) es)"
  using assms
proof (induction es arbitrary: s n)
  case (Cons e es)
  let ?e = "e\<lparr>e_expires := 0\<rparr>" and ?h = "unat (ipset_hash (e_ip e))"
  have pb: "prints_back p4 p6 show_ip (e_ip e)" and ok: "prefix_ok e" "prefix_ok ?e"
    using Cons.prems(1) by (auto simp: prefix_ok_def)
  have "length (ipset_elems s) = unat (entry_count s)" using Cons.prems(2) by (simp add: ipset_wf_def)
  with Cons.prems(3) have room: "entry_count s < max_size s" by (simp add: word_less_nat_alt)
  have wf': "ipset_wf (ipset_push s ?e)" using push_wf [OF Cons.prems(2) room ok(2)] .
  have ms: "mset (ipset_elems (ipset_push s ?e)) = mset (ipset_elems s) + {#?e#}"
    using mset_table_upd [OF unat_ipset_hash [of "e_ip e"], of "buckets s" "?e # buckets s ?h"]
      bucket_count_4096 [OF Cons.prems(2)]
    by (simp add: ipset_elems_def ipset_push_def Let_def)
  then have "length (ipset_elems (ipset_push s ?e)) = length (ipset_elems s) + 1"
    by (metis size_mset size_union size_single)
  with Cons.prems have "length (ipset_elems (ipset_push s ?e)) + length es \<le> unat (max_size (ipset_push s ?e))"
    by (simp add: ipset_push_def Let_def)
  from Cons.IH [OF _ wf' this, of "n + 1"] Cons.prems(1) obtain s' where
    s': "load_lines (string_to_ip_addr p4 p6) [] (Some (ipset_push s ?e)) (map (print_entry show_ip) es) (n + 1) =
      (n + 1 + int (length es), Some s')" "ipset_wf s'" "max_size s' = max_size (ipset_push s ?e)"
      "mset (ipset_elems s') = mset (ipset_elems (ipset_push s ?e)) + mset (map (\<lambda>e. e\<lparr>e_expires := 0\<rparr>) es)"
    by auto
  have hd: "hd (show_ip (e_ip e) @ xs) \<noteq> CHR ''#''" "show_ip (e_ip e) @ xs \<noteq> []" for xs
    using pb by (cases "show_ip (e_ip e)"; simp add: prints_back_def)+
  have "load_lines (string_to_ip_addr p4 p6) [] (Some s) (map (print_entry show_ip) (e # es)) n =
      (n + 1 + int (length es), Some s')"
    using s'(1) hd by (simp add: strip_print_entry [OF pb] add_printed [OF pb ok(1) room] Let_def)
  with s'(2-4) ms show ?case by (intro exI [of _ s']) (simp add: ipset_push_def Let_def ac_simps)
qed simp

text \<open>C7: loading into a fresh set the lines that \<open>ipset_save_to_file\<close> printed gives a set with the
  same entries (addresses and prefix lengths, with multiplicity) and reports their number, but every
  expiry time is lost: a temporary block becomes permanent. The hypotheses are what \<open>inet_ntop\<close> and
  \<open>inet_pton\<close> document of each other, and that the entries fit the new set.\<close>

theorem ipset_save_load:
  assumes "ipset_wf s" and "\<forall>e \<in> set (ipset_elems s). prints_back p4 p6 show_ip (e_ip e)"
    and "length (ipset_elems s) \<le> unat limit"
  shows "\<exists>s'. ipset_load_from_file (string_to_ip_addr p4 p6) [] (ipset_create True True limit)
             (Some (snd (ipset_save_to_file show_ip s True))) =
           (fst (ipset_save_to_file show_ip s True), Some s') \<and> ipset_wf s' \<and>
         mset (ipset_elems s') = mset (map (\<lambda>e. e\<lparr>e_expires := 0\<rparr>) (ipset_elems s))"
proof -
  obtain s0 where s0: "ipset_create True True limit = Some s0" "max_size s0 = limit" "ipset_elems s0 = []"
    by (simp add: ipset_create_def ipset_elems_def table_entries_def)
  have sv: "ipset_save_to_file show_ip s True =
      (int (length (ipset_elems s)), map (print_entry show_ip) (ipset_elems s))"
    by (simp add: ipset_save_to_file_def ipset_elems_def table_entries_def map_concat comp_def Let_def length_concat)
  have "\<forall>e \<in> set (ipset_elems s). prints_back p4 p6 show_ip (e_ip e) \<and> prefix_ok e"
    using assms by (auto simp: ipset_wf_def)
  from load_printed [OF this create_wf [OF s0(1)], of 0] assms(3) s0 sv show ?thesis
    by (auto simp: ipset_load_from_file_def)
qed

theorem ipset_save_load_witness:
  "\<exists>s'. ipset_load_from_file (string_to_ip_addr (\<lambda>_. Some 0x010200C0) (\<lambda>_. None)) []
          (ipset_create True True 5) (Some (snd (ipset_save_to_file (\<lambda>_. ''192.0.2.1'') example_set True))) =
        (1, Some s') \<and> \<not> (\<exists>e \<in> set (ipset_elems s'). e_expires e \<noteq> 0)"
proof -
  have pb: "\<forall>e \<in> set (ipset_elems example_set).
      prints_back (\<lambda>_. Some 0x010200C0) (\<lambda>_. None) (\<lambda>_. ''192.0.2.1'') (e_ip e)"
    by (simp add: example_set_elems prints_back_def string_to_ip_addr_def example_entry_def example_ip_def)
  have one: "length (ipset_elems example_set) = 1"
    using example_set_wf unfolding ipset_wf_def
    by (simp add: example_set_def ipset_push_def empty_set_def Let_def)
  have fst: "fst (ipset_save_to_file (\<lambda>_. ''192.0.2.1'') example_set True) = 1"
    using one by (simp add: ipset_save_to_file_def ipset_elems_def table_entries_def map_concat comp_def Let_def length_concat)
  from ipset_save_load [OF example_set_wf pb, of 5] one fst
  obtain s' where s': "ipset_load_from_file (string_to_ip_addr (\<lambda>_. Some 0x010200C0) (\<lambda>_. None)) []
          (ipset_create True True 5) (Some (snd (ipset_save_to_file (\<lambda>_. ''192.0.2.1'') example_set True))) =
        (1, Some s')" and ms: "mset (ipset_elems s') = mset (map (\<lambda>e. e\<lparr>e_expires := 0\<rparr>) (ipset_elems example_set))"
    by auto
  have "set (ipset_elems s') = (\<lambda>e. e\<lparr>e_expires := 0\<rparr>) ` set (ipset_elems example_set)"
    using arg_cong [OF ms, where f = set_mset] by simp
  with s' show ?thesis by auto
qed

end
