(* ===== verification/Analyzer.thy ===== *)
theory Analyzer
  imports Complex_Main Detection IpSet
begin

text \<open>
  \<open>src/detection/analyzer.c\<close>: the table of per-address statistics, reputation, the traffic baseline
  and the entry point that dispatches a packet to the protection modules. The statistics live on a
  heap (0 is \<open>NULL\<close>), because the table keeps pointers to them. A \<open>double\<close> is a real number.
\<close>

section \<open>State\<close>

type_synonym stats_heap = "nat \<rightharpoonup> ip_stats"

record traffic_pattern =
  entropy :: real
  packet_size_avg :: real
  packet_size_stddev :: real
  inter_arrival_time_avg :: real
  syn_ack_ratio :: u32
  udp_tcp_ratio :: u32
  unique_src_ips :: u32
  unique_dst_ports :: u32

record traffic_analyzer =
  ip_table :: "nat \<Rightarrow> nat"
  baseline :: traffic_pattern
  an_blacklist :: "ipset option"
  an_whitelist :: "ipset option"
  baseline_updated :: time_t

definition IP_STATS_TABLE_SIZE :: u32 where "IP_STATS_TABLE_SIZE = 65536"

definition zero_pattern :: traffic_pattern where
  "zero_pattern = \<lparr>entropy = 0, packet_size_avg = 0, packet_size_stddev = 0, inter_arrival_time_avg = 0,
     syn_ack_ratio = 0, udp_tcp_ratio = 0, unique_src_ips = 0, unique_dst_ports = 0\<rparr>"

text \<open>The arguments are what the three calls of \<open>calloc\<close> and those of the two sets answer.\<close>

definition analyzer_init ::
    "bool \<Rightarrow> bool \<Rightarrow> bool \<Rightarrow> bool \<times> bool \<Rightarrow> bool \<times> bool \<Rightarrow> time_t \<Rightarrow> traffic_analyzer option" where
  "analyzer_init analyzer_ok table_ok locks_ok black_ok white_ok now =
     (if \<not> analyzer_ok then None
      else if \<not> table_ok then None
      else if \<not> locks_ok then None
      else Some \<lparr>ip_table = (\<lambda>_. 0), baseline = zero_pattern,
             an_blacklist = ipset_create (fst black_ok) (snd black_ok) MAX_BLACKLIST_SIZE,
             an_whitelist = ipset_create (fst white_ok) (snd white_ok) MAX_WHITELIST_SIZE,
             baseline_updated = now\<rparr>)"

definition sread :: "stats_heap \<Rightarrow> nat \<Rightarrow> ip_stats run" where
  "sread h p = (if p = 0 then fail NullDeref
     else case h p of None \<Rightarrow> fail UseAfterFree | Some st \<Rightarrow> ret st)"

text \<open>The chain loops assign the pointer to itself: \<open>stats = (ip_stats_t *)stats\<close>.\<close>

partial_function (option) stats_free :: "stats_heap \<Rightarrow> nat \<Rightarrow> stats_heap run" where
  "stats_free h p =
     (if p = 0 then ret h
      else case h p of
        None \<Rightarrow> fail DoubleFree
      | Some st \<Rightarrow> stats_free (h(p := None)) p)"

fun free_tables :: "stats_heap \<Rightarrow> (nat \<Rightarrow> nat) \<Rightarrow> nat list \<Rightarrow> stats_heap run" where
  "free_tables h tab [] = ret h"
| "free_tables h tab (i # is) = bindM (stats_free h (tab i)) (\<lambda>h. free_tables h tab is)"

definition analyzer_cleanup :: "stats_heap \<Rightarrow> traffic_analyzer option \<Rightarrow> stats_heap run" where
  "analyzer_cleanup h ap =
     (case ap of None \<Rightarrow> ret h
      | Some a \<Rightarrow> free_tables h (ip_table a) [0..<unat IP_STATS_TABLE_SIZE])"

section \<open>Statistics of an address\<close>

definition ip_stats_hash :: "ip_addr \<Rightarrow> u32" where
  "ip_stats_hash ip = ip_hash_word ip mod IP_STATS_TABLE_SIZE"

partial_function (option) stats_find :: "stats_heap \<Rightarrow> nat \<Rightarrow> ip_addr \<Rightarrow> nat run" where
  "stats_find h p ip =
     (if p = 0 then ret 0
      else case h p of
        None \<Rightarrow> fail UseAfterFree
      | Some st \<Rightarrow> if ip_addr_compare (st_ip st) ip = 0 then ret p else stats_find h p ip)"

definition new_stats :: "time_t \<Rightarrow> ip_addr \<Rightarrow> ip_stats" where
  "new_stats now ip = zero_ip_stats\<lparr>st_ip := ip, st_first_seen := now, last_update := now, reputation_score := 50\<rparr>"

text \<open>
  \<open>analyzer_get_ip_stats\<close>; \<open>fresh\<close> is what \<open>calloc\<close> answers. The new entry is initialised, then the
  local pointer is overwritten with the head of the chain, which becomes the new head and the result.
\<close>

definition analyzer_get_ip_stats ::
    "time_t \<Rightarrow> nat \<Rightarrow> stats_heap \<Rightarrow> traffic_analyzer option \<Rightarrow> ip_addr \<Rightarrow>
      (nat \<times> stats_heap \<times> traffic_analyzer option) run" where
  "analyzer_get_ip_stats now fresh h ap ip =
     (case ap of
        None \<Rightarrow> ret (0, h, None)
      | Some a \<Rightarrow>
          (let i = unat (ip_stats_hash ip)
           in bindM (stats_find h (ip_table a i) ip) (\<lambda>p.
                if p \<noteq> 0 then ret (p, h, Some a)
                else if fresh = 0 then ret (0, h, Some a)
                else
                  (let h1 = h(fresh \<mapsto> new_stats now ip);
                       stats = ip_table a i
                   in ret (stats, h1, Some (a\<lparr>ip_table := (ip_table a)(i := stats)\<rparr>))))))"

section \<open>Reputation\<close>

text \<open>The score is a \<open>uint32_t\<close>: \<open>delta\<close> is converted to it, and the test below 0 is never true.\<close>

definition reputation_add :: "int \<Rightarrow> u32 \<Rightarrow> u32" where
  "reputation_add delta score =
     (let s = score + word_of_int delta;
          s = (if 100 < s then 100 else s)
      in if s < 0 then 0 else s)"

record rep_env =
  re_time :: time_t
  re_fresh :: nat
  re_now :: time_t
  re_alloc :: bool

definition analyzer_update_reputation ::
    "config \<Rightarrow> rep_env \<Rightarrow> stats_heap \<Rightarrow> traffic_analyzer option \<Rightarrow> ip_addr \<Rightarrow> int \<Rightarrow>
      (stats_heap \<times> traffic_analyzer option) run" where
  "analyzer_update_reputation cfg env h ap ip delta =
     bindM (analyzer_get_ip_stats (re_time env) (re_fresh env) h ap ip) (\<lambda>(p, h, ap).
       if p = 0 then ret (h, ap)
       else bindM (sread h p) (\<lambda>st.
         (let st = st\<lparr>reputation_score := reputation_add delta (reputation_score st)\<rparr>
          in if reputation_score st < 10 \<and> \<not> is_blacklisted st then
               (case ap of
                  None \<Rightarrow> fail NullDeref
                | Some a \<Rightarrow>
                    (let st = st\<lparr>is_blacklisted := True,
                                 blacklist_expires := re_now env + int (unat (blacklist_duration cfg))\<rparr>
                     in ret (h(p \<mapsto> st),
                             Some (a\<lparr>an_blacklist := snd (ipset_add_expiring (re_alloc env) (an_blacklist a) ip
                                       (blacklist_expires st))\<rparr>))))
             else ret (h(p \<mapsto> st), ap))))"

section \<open>Entropy and baseline\<close>

partial_function (option) sum_chain ::
    "(ip_stats \<Rightarrow> 's \<Rightarrow> 's) \<Rightarrow> stats_heap \<Rightarrow> nat \<Rightarrow> 's \<Rightarrow> 's run" where
  "sum_chain f h p acc =
     (if p = 0 then ret acc
      else case h p of
        None \<Rightarrow> fail UseAfterFree
      | Some st \<Rightarrow> sum_chain f h p (f st acc))"

fun sum_table :: "(ip_stats \<Rightarrow> 's \<Rightarrow> 's) \<Rightarrow> stats_heap \<Rightarrow> (nat \<Rightarrow> nat) \<Rightarrow> nat list \<Rightarrow> 's \<Rightarrow> 's run" where
  "sum_table f h tab [] acc = ret acc"
| "sum_table f h tab (i # is) acc = bindM (sum_chain f h (tab i) acc) (\<lambda>acc. sum_table f h tab is acc)"

abbreviation over_table :: "(ip_stats \<Rightarrow> 's \<Rightarrow> 's) \<Rightarrow> stats_heap \<Rightarrow> traffic_analyzer \<Rightarrow> 's \<Rightarrow> 's run" where
  "over_table f h a \<equiv> sum_table f h (ip_table a) [0..<unat IP_STATS_TABLE_SIZE]"

text \<open>One entry's contribution to the entropy loop: \<open>total_packets\<close> and the 256 counters.\<close>

definition entropy_entry :: "ip_stats \<Rightarrow> u64 \<times> (nat \<Rightarrow> u64) \<Rightarrow> u64 \<times> (nat \<Rightarrow> u64)" where
  "entropy_entry st =
     fold (\<lambda>j (tot, counts).
       (tot + st_packets st j,
        counts(attack_index j mod 256 := counts (attack_index j mod 256) + st_packets st j))) attack_types"

definition shannon :: "(nat \<Rightarrow> u64) \<Rightarrow> u64 \<Rightarrow> real" where
  "shannon counts tot =
     fold (\<lambda>i e. if 0 < counts i then
         (let p = real (unat (counts i)) / real (unat tot) in e - p * log 2 p) else e) [0..<256] 0"

definition analyzer_calculate_entropy :: "stats_heap \<Rightarrow> traffic_analyzer \<Rightarrow> real run" where
  "analyzer_calculate_entropy h a =
     bindM (over_table entropy_entry h a (0, \<lambda>_. 0)) (\<lambda>(tot, counts).
       if tot = 0 then ret 0 else ret (shannon counts tot))"

definition baseline_entry :: "ip_stats \<Rightarrow> u64 \<times> u64 \<times> u32 \<Rightarrow> u64 \<times> u64 \<times> u32" where
  "baseline_entry st = (\<lambda>(packets, bytes, ips).
     (fold (\<lambda>j n. n + st_packets st j) attack_types packets,
      fold (\<lambda>j n. n + st_bytes st j) attack_types bytes,
      ips + 1))"

definition analyzer_update_baseline ::
    "time_t \<Rightarrow> stats_heap \<Rightarrow> traffic_analyzer option \<Rightarrow> (int \<times> traffic_analyzer option) run" where
  "analyzer_update_baseline now h ap =
     (case ap of
        None \<Rightarrow> ret (-1, None)
      | Some a \<Rightarrow>
          bindM (analyzer_calculate_entropy h a) (\<lambda>e.
            bindM (over_table baseline_entry h a (0, 0, 0)) (\<lambda>(packets, bytes, ips).
              (let b = (baseline a)\<lparr>entropy := e\<rparr>;
                   b = (if 0 < packets
                        then b\<lparr>packet_size_avg := real (unat bytes) / real (unat packets)\<rparr> else b)
               in ret (0, Some (a\<lparr>baseline := b\<lparr>unique_src_ips := ips\<rparr>, baseline_updated := now\<rparr>))))))"

definition analyzer_is_anomaly :: "traffic_analyzer option \<Rightarrow> traffic_pattern option \<Rightarrow> bool" where
  "analyzer_is_anomaly ap pp =
     (case (ap, pp) of
        (Some a, Some pattern) \<Rightarrow>
          (if 2 < \<bar>entropy pattern - entropy (baseline a)\<bar> then True
           else if 0 < packet_size_avg pattern \<and> 0 < packet_size_avg (baseline a) then
             (let size_ratio = packet_size_avg pattern / packet_size_avg (baseline a)
              in if 5 < size_ratio \<or> size_ratio < 0.2 then True else False)
           else False)
      | _ \<Rightarrow> False)"

definition analyzer_ml_train ::
    "time_t \<Rightarrow> stats_heap \<Rightarrow> traffic_analyzer option \<Rightarrow> (int \<times> traffic_analyzer option) run" where
  "analyzer_ml_train = analyzer_update_baseline"

section \<open>Classification\<close>

text \<open>Each block falls through to the next when none of its tests holds.\<close>

definition classify_udp :: "packet \<Rightarrow> attack_type option result" where
  "classify_udp pkt =
     (if protocol pkt \<noteq> PROTO_UDP then Inr None
      else bindR (is_dns_amplification pkt) (\<lambda>dns. if dns then Inr (Some ATTACK_DNS_AMPLIFICATION)
      else bindR (is_ntp_amplification pkt) (\<lambda>ntp. if ntp then Inr (Some ATTACK_NTP_AMPLIFICATION)
      else bindR (is_ssdp_reflection pkt) (\<lambda>ssdp. if ssdp then Inr (Some ATTACK_SSDP_REFLECTION)
      else bindR (is_memcached_amplification pkt) (\<lambda>mem. if mem then Inr (Some ATTACK_MEMCACHED_AMPLIFICATION)
      else if 1400 < payload_len pkt then Inr (Some ATTACK_UDP_FLOOD)
      else Inr None)))))"

definition classify_tcp :: "packet \<Rightarrow> attack_type option" where
  "classify_tcp pkt =
     (if protocol pkt \<noteq> PROTO_TCP then None
      else if tcp_flags pkt = TCP_FLAG_SYN then Some ATTACK_TCP_SYN_FLOOD
      else if tcp_flags pkt = TCP_FLAG_ACK then Some ATTACK_TCP_ACK_FLOOD
      else if tcp_flags pkt AND TCP_FLAG_RST \<noteq> 0 then Some ATTACK_TCP_RST_FLOOD
      else None)"

definition classify_icmp :: "packet \<Rightarrow> attack_type option" where
  "classify_icmp pkt =
     (if protocol pkt \<noteq> PROTO_ICMP then None
      else if 1500 < pkt_len pkt then Some ATTACK_PING_OF_DEATH
      else Some ATTACK_ICMP_FLOOD)"

definition classify_http :: "packet \<Rightarrow> attack_type option" where
  "classify_http pkt =
     (if is_http pkt then
        (case http_method pkt of
           None \<Rightarrow> None
         | Some m \<Rightarrow>
             if m = ''GET'' then Some ATTACK_HTTP_GET_FLOOD
             else if m = ''POST'' then Some ATTACK_HTTP_POST_FLOOD
             else None)
      else None)"

definition analyzer_ml_classify :: "traffic_analyzer option \<Rightarrow> packet option \<Rightarrow> attack_type result" where
  "analyzer_ml_classify ap pp =
     (case (ap, pp) of
        (Some a, Some pkt) \<Rightarrow>
          bindR (classify_udp pkt) (\<lambda>u. case u of Some k \<Rightarrow> Inr k
          | None \<Rightarrow> (case classify_tcp pkt of Some k \<Rightarrow> Inr k
          | None \<Rightarrow> (case classify_icmp pkt of Some k \<Rightarrow> Inr k
          | None \<Rightarrow> (case classify_http pkt of Some k \<Rightarrow> Inr k
          | None \<Rightarrow> Inr ATTACK_NONE))))
      | _ \<Rightarrow> Inr ATTACK_NONE)"

section \<open>One packet\<close>

text \<open>What the analyzer and the modules it calls work on; every module has its static context.\<close>

record analyzer_world =
  aw_an :: "traffic_analyzer option"
  aw_stats :: stats_heap
  aw_udp :: "udp_protect_ctx option"
  aw_tcp :: "tcp_protect_ctx option"
  aw_icmp :: "icmp_protect_ctx option"
  aw_http :: "http_protect_ctx option"
  aw_conns :: conn_heap
  aw_cache :: "lru_cache option"
  aw_glob :: global_stats

record analyzer_env =
  ae_stats_time :: time_t
  ae_fresh :: nat
  ae_white_now :: time_t
  ae_black_now :: time_t
  ae_tcp :: tcp_env
  ae_http_now :: time_t
  ae_rep :: rep_env

text \<open>The \<open>switch\<close> over the protocol; UDP and ICMP read the clock as TCP does (\<open>te_now\<close>).\<close>

definition dispatch ::
    "analyzer_env \<Rightarrow> packet \<Rightarrow> ip_stats \<Rightarrow> analyzer_world \<Rightarrow> (verdict \<times> ip_stats \<times> analyzer_world) run" where
  "dispatch env pkt st w =
     (let cfg = te_cfg (ae_tcp env); now = te_now (ae_tcp env)
      in if protocol pkt = PROTO_UDP then
           bindM (Some (udp_protect_analyze cfg now pkt (aw_udp w, aw_glob w, st))) (\<lambda>(v, u, g, st).
             ret (v, st, w\<lparr>aw_udp := u, aw_glob := g\<rparr>))
         else if protocol pkt = PROTO_TCP then
           bindM (tcp_protect_analyze (ae_tcp env) pkt
                    \<lparr>tw_ctx = aw_tcp w, tw_heap = aw_conns w, tw_cache = aw_cache w,
                     tw_glob = aw_glob w, tw_stats = st\<rparr>) (\<lambda>(v, t).
             ret (v, tw_stats t, w\<lparr>aw_tcp := tw_ctx t, aw_conns := tw_heap t, aw_cache := tw_cache t,
                                   aw_glob := tw_glob t\<rparr>))
         else if protocol pkt = PROTO_ICMP then
           bindM (Some (icmp_protect_analyze cfg now pkt (aw_icmp w, aw_glob w, st))) (\<lambda>(v, i, g, st).
             ret (v, st, w\<lparr>aw_icmp := i, aw_glob := g\<rparr>))
         else ret (VERDICT_ACCEPT, st, w))"

definition http_layer ::
    "analyzer_env \<Rightarrow> packet \<Rightarrow> verdict \<times> ip_stats \<times> analyzer_world \<Rightarrow> (verdict \<times> ip_stats \<times> analyzer_world) run" where
  "http_layer env pkt = (\<lambda>(v, st, w).
     if v = VERDICT_ACCEPT \<and> is_http pkt then
       bindM (Some (http_protect_analyze (te_cfg (ae_tcp env)) (ae_http_now env) pkt (aw_http w, aw_glob w, st)))
         (\<lambda>(v, c, g, st). ret (v, st, w\<lparr>aw_http := c, aw_glob := g\<rparr>))
     else ret (v, st, w))"

definition after_verdict :: "analyzer_env \<Rightarrow> packet \<Rightarrow> verdict \<Rightarrow> analyzer_world \<Rightarrow> (verdict \<times> analyzer_world) run" where
  "after_verdict env pkt v w =
     (if v = VERDICT_DROP then
        bindM (analyzer_update_reputation (te_cfg (ae_tcp env)) (ae_rep env) (aw_stats w) (aw_an w) (src_ip pkt) (-10))
          (\<lambda>(h, ap). ret (v, w\<lparr>aw_stats := h, aw_an := ap\<rparr>))
      else if v = VERDICT_ACCEPT then
        bindM (analyzer_update_reputation (te_cfg (ae_tcp env)) (ae_rep env) (aw_stats w) (aw_an w) (src_ip pkt) 1)
          (\<lambda>(h, ap). ret (v, w\<lparr>aw_stats := h, aw_an := ap\<rparr>))
      else ret (v, w))"

definition analyzer_process_packet :: "analyzer_env \<Rightarrow> packet \<Rightarrow> analyzer_world \<Rightarrow> (verdict \<times> analyzer_world) run" where
  "analyzer_process_packet env pkt w =
     (if aw_an w = None then ret (VERDICT_ACCEPT, w)
      else
        bindM (analyzer_get_ip_stats (ae_stats_time env) (ae_fresh env) (aw_stats w) (aw_an w) (src_ip pkt)) (\<lambda>(p, h, ap).
          (let w = w\<lparr>aw_stats := h, aw_an := ap\<rparr>
           in if p = 0 then ret (VERDICT_ACCEPT, w)
              else bindM (sread h p) (\<lambda>st.
                (case ap of
                   None \<Rightarrow> fail NullDeref
                 | Some a \<Rightarrow>
                     if ipset_contains_cidr (ae_white_now env) (an_whitelist a) (src_ip pkt) then
                       ret (VERDICT_ACCEPT, w\<lparr>aw_stats := h(p \<mapsto> st\<lparr>is_whitelisted := True\<rparr>)\<rparr>)
                     else if ipset_contains_cidr (ae_black_now env) (an_blacklist a) (src_ip pkt) then
                       ret (VERDICT_DROP, w\<lparr>aw_stats := h(p \<mapsto> st\<lparr>is_blacklisted := True\<rparr>)\<rparr>)
                     else
                       bindM (dispatch env pkt st w) (\<lambda>r.
                       bindM (http_layer env pkt r) (\<lambda>(v, st, w).
                         after_verdict env pkt v (w\<lparr>aw_stats := h(p \<mapsto> st)\<rparr>))))))))"

end
