(* ===== verification/AnalyzerProofs.thy ===== *)
theory AnalyzerProofs
  imports Analyzer
begin

text \<open>
  What the analyzer does: its table never receives an entry, so no packet reaches the protection
  modules; what it would do with entries; reputation, baseline and classification.
\<close>

section \<open>The chains\<close>

interpretation stats_key: hashed_key ip_addr_compare "\<lambda>ip. unat (ip_stats_hash ip)"
  by unfold_locales
    (auto simp: ip_addr_compare_0 ip_stats_hash_def dest: ip_hash_word_cong
      intro: same_ip_sym same_ip_trans)

lemma unat_ip_stats_hash: "unat (ip_stats_hash ip) < 65536"
  by (simp add: ip_stats_hash_def IP_STATS_TABLE_SIZE_def unat_mod)

lemma stats_find_0 [simp]: "stats_find h 0 ip = ret 0"
  by (subst stats_find.simps) simp

lemma stats_find_match:
  "p \<noteq> 0 \<Longrightarrow> h p = Some st \<Longrightarrow> same_ip (st_ip st) ip \<Longrightarrow> stats_find h p ip = ret p"
  by (subst stats_find.simps) (simp add: ip_addr_compare_0)

text \<open>A search that returns found \<open>NULL\<close>, a dangling head or the address itself.\<close>

lemma stats_find_Some:
  assumes "stats_find h p ip = Some r"
  shows "p = 0 \<or> (\<forall>st. h p = Some st \<longrightarrow> same_ip (st_ip st) ip)"
proof (rule stats_find.raw_induct [OF _ assms])
  fix f :: "stats_heap \<Rightarrow> nat \<Rightarrow> ip_addr \<Rightarrow> nat run" and h p ip r
  assume IH: "\<And>h p ip r. f h p ip = Some r \<Longrightarrow> p = 0 \<or> (\<forall>st. h p = Some st \<longrightarrow> same_ip (st_ip st) ip)"
    and body: "(if p = 0 then ret 0
      else case h p of None \<Rightarrow> fail UseAfterFree
        | Some st \<Rightarrow> if ip_addr_compare (st_ip st) ip = 0 then ret p else f h p ip) = Some r"
  show "p = 0 \<or> (\<forall>st. h p = Some st \<longrightarrow> same_ip (st_ip st) ip)"
    using body IH [of h p ip r] by (auto simp: ip_addr_compare_0 split: if_splits)
qed

lemma stats_find_diverges:
  "p \<noteq> 0 \<Longrightarrow> h p = Some st \<Longrightarrow> \<not> same_ip (st_ip st) ip \<Longrightarrow> stats_find h p ip = None"
  using stats_find_Some [of h p ip] by (cases "stats_find h p ip") auto

lemma sum_chain_0 [simp]: "sum_chain f h 0 acc = ret acc"
  by (subst sum_chain.simps) simp

lemma sum_chain_Some: "sum_chain f h p acc = Some r \<Longrightarrow> p = 0 \<or> h p = None"
  by (rule sum_chain.raw_induct [of "\<lambda>f h p acc r. p = 0 \<or> h p = None"])
    (simp split: if_splits option.splits, fastforce)

lemma sum_chain_diverges: "p \<noteq> 0 \<Longrightarrow> h p = Some st \<Longrightarrow> sum_chain f h p acc = None"
  using sum_chain_Some [of f h p acc] by (cases "sum_chain f h p acc") auto

lemma sum_table_empty: "\<forall>i \<in> set is. tab i = 0 \<Longrightarrow> sum_table f h tab is acc = ret acc"
  by (induction "is") auto

lemma stats_free_0 [simp]: "stats_free h 0 = ret h"
  by (subst stats_free.simps) simp

lemma stats_free_twice: "p \<noteq> 0 \<Longrightarrow> h p = Some st \<Longrightarrow> stats_free h p = fail DoubleFree"
  by (subst stats_free.simps, simp, subst stats_free.simps) simp

lemma free_tables_empty: "\<forall>i \<in> set is. tab i = 0 \<Longrightarrow> free_tables h tab is = ret h"
  by (induction "is") auto

section \<open>The table stays empty\<close>

definition table_empty :: "traffic_analyzer option \<Rightarrow> bool" where
  "table_empty ap \<longleftrightarrow> (\<forall>a. ap = Some a \<longrightarrow> ip_table a = (\<lambda>_. 0))"

lemma analyzer_init_empty: "table_empty (analyzer_init a b c d e now)"
  by (simp add: table_empty_def analyzer_init_def)

lemma get_ip_stats_empty:
  assumes "table_empty ap"
  shows "analyzer_get_ip_stats now fresh h ap ip =
    ret (0, if ap = None \<or> fresh = 0 then h else h(fresh \<mapsto> new_stats now ip), ap)"
  using assms by (cases ap) (auto simp: table_empty_def analyzer_get_ip_stats_def Let_def fun_upd_idem)

lemma process_empty:
  assumes "table_empty (aw_an w)"
  shows "analyzer_process_packet env pkt w = ret (VERDICT_ACCEPT,
    if aw_an w = None \<or> ae_fresh env = 0 then w
    else w\<lparr>aw_stats := (aw_stats w)(ae_fresh env \<mapsto> new_stats (ae_stats_time env) (src_ip pkt))\<rparr>)"
  using assms by (simp add: analyzer_process_packet_def get_ip_stats_empty)

text \<open>The protection modules are never reached. From the table \<open>analyzer_init\<close> makes, any run of
  packets is accepted packet for packet, whatever the sets, configuration, clock and allocator say;
  no module context, connection, blacklist or statistic changes; and each packet for which
  \<open>calloc\<close> succeeds leaves one more statistics block on the heap that nothing points to.\<close>

theorem analyzer_accepts_everything:
  assumes "table_empty (aw_an w)" and "aw_an w \<noteq> None"
  shows "\<exists>w'. run_steps analyzer_process_packet ps w = ret (replicate (length ps) VERDICT_ACCEPT, w') \<and>
    w' = w\<lparr>aw_stats := aw_stats w'\<rparr> \<and>
    dom (aw_stats w') = dom (aw_stats w) \<union> (ae_fresh ` fst ` set ps - {0})"
  using assms
proof (induction ps arbitrary: w)
  case (Cons x ps)
  obtain env pkt where x: "x = (env, pkt)" by (cases x)
  define w1 where "w1 = (if aw_an w = None \<or> ae_fresh env = 0 then w
    else w\<lparr>aw_stats := (aw_stats w)(ae_fresh env \<mapsto> new_stats (ae_stats_time env) (src_ip pkt))\<rparr>)"
  have step: "analyzer_process_packet env pkt w = ret (VERDICT_ACCEPT, w1)"
    unfolding w1_def by (rule process_empty [OF Cons.prems(1)])
  have an: "aw_an w1 = aw_an w" and w1: "w1 = w\<lparr>aw_stats := aw_stats w1\<rparr>"
    and d: "dom (aw_stats w1) = dom (aw_stats w) \<union> ({ae_fresh env} - {0})"
    using Cons.prems(2) by (auto simp: w1_def)
  obtain w' where r: "run_steps analyzer_process_packet ps w1 = ret (replicate (length ps) VERDICT_ACCEPT, w')"
    "w' = w1\<lparr>aw_stats := aw_stats w'\<rparr>" "dom (aw_stats w') = dom (aw_stats w1) \<union> (ae_fresh ` fst ` set ps - {0})"
    using Cons.IH [of w1] Cons.prems an by auto
  have "w' = w\<lparr>aw_stats := aw_stats w'\<rparr>"
    by (subst r(2), subst w1) simp
  moreover have "dom (aw_stats w') = dom (aw_stats w) \<union> (ae_fresh ` fst ` set (x # ps) - {0})"
    using r(3) d x by auto
  ultimately show ?case using step r(1) x by (intro exI [of _ w']) simp
qed simp

section \<open>What a filled table would do\<close>

text \<open>C25: a bucket that holds an entry serves that address only. A lookup of the same address returns
  the entry; a lookup of any other address that hashes to the bucket never returns, and neither do
  the entropy and the baseline, which walk the same chains; the clean-up frees the entry twice.\<close>

theorem analyzer_chain_never_ends:
  assumes "ip_table a (unat (ip_stats_hash ip)) = p" and "p \<noteq> 0" and "h p = Some st"
  shows "analyzer_get_ip_stats now fresh h (Some a) ip = (if same_ip (st_ip st) ip then ret (p, h, Some a) else None) \<and>
    ((\<forall>i < unat (ip_stats_hash ip). ip_table a i = 0) \<longrightarrow>
      analyzer_calculate_entropy h a = None \<and> analyzer_update_baseline now h (Some a) = None \<and>
      analyzer_cleanup h (Some a) = fail DoubleFree)"
proof (intro conjI impI)
  show "analyzer_get_ip_stats now fresh h (Some a) ip = (if same_ip (st_ip st) ip then ret (p, h, Some a) else None)"
    using assms by (simp add: analyzer_get_ip_stats_def Let_def stats_find_match stats_find_diverges)
  let ?n = "unat (ip_stats_hash ip)"
  assume "\<forall>i < ?n. ip_table a i = 0"
  then have z: "\<forall>i \<in> set [0..<?n]. ip_table a i = 0" by auto
  have "?n < unat IP_STATS_TABLE_SIZE" using unat_ip_stats_hash [of ip] by (simp add: IP_STATS_TABLE_SIZE_def)
  then obtain r where sp: "[0..<unat IP_STATS_TABLE_SIZE] = [0..<?n] @ ?n # r"
    using upt_add_eq_append [of 0 ?n "unat IP_STATS_TABLE_SIZE - ?n"] by (auto simp: upt_conv_Cons)
  have skip: "sum_table f h (ip_table a) (is @ js) acc = sum_table f h (ip_table a) js acc"
    if "\<forall>i \<in> set is. ip_table a i = 0" for f :: "ip_stats \<Rightarrow> 's \<Rightarrow> 's" and "is" js acc
    using that by (induction "is") auto
  have freeskip: "free_tables h (ip_table a) (is @ js) = free_tables h (ip_table a) js"
    if "\<forall>i \<in> set is. ip_table a i = 0" for "is" js
    using that by (induction "is") auto
  have st: "over_table f h a acc = None" for f :: "ip_stats \<Rightarrow> 's \<Rightarrow> 's" and acc
    by (simp add: sp skip [OF z] assms sum_chain_diverges [where st = st])
  show e: "analyzer_calculate_entropy h a = None" by (simp add: analyzer_calculate_entropy_def st)
  show "analyzer_update_baseline now h (Some a) = None" by (simp add: analyzer_update_baseline_def e)
  show "analyzer_cleanup h (Some a) = fail DoubleFree"
    by (simp add: analyzer_cleanup_def sp freeskip [OF z] assms stats_free_twice [where st = st])
qed

section \<open>The modules and the identity of an entry\<close>

text \<open>No module changes the address or the blacklist mark; only HTTP changes the score.\<close>

definition same_entry :: "ip_stats \<Rightarrow> ip_stats \<Rightarrow> bool" where
  "same_entry st st' \<longleftrightarrow> st_ip st' = st_ip st \<and> is_blacklisted st' = is_blacklisted st"

definition same_standing :: "ip_stats \<Rightarrow> ip_stats \<Rightarrow> bool" where
  "same_standing st st' \<longleftrightarrow> same_entry st st' \<and> reputation_score st' = reputation_score st"

lemma same_refl [simp]: "same_entry st st" "same_standing st st"
  by (simp_all add: same_entry_def same_standing_def)

lemma same_standing_trans: "same_standing a b \<Longrightarrow> same_standing b c \<Longrightarrow> same_standing a c"
  by (simp add: same_standing_def same_entry_def)

lemma same_standing_upd [simp]:
  "same_standing st (count_attack a st') = same_standing st st'"
  "same_standing st (st'\<lparr>udp_pps := n\<rparr>) = same_standing st st'"
  "same_standing st (st'\<lparr>tcp_syn_pps := n\<rparr>) = same_standing st st'"
  "same_standing st (st'\<lparr>tcp_ack_pps := n\<rparr>) = same_standing st st'"
  "same_standing st (st'\<lparr>icmp_pps := n\<rparr>) = same_standing st st'"
  "same_standing st (st'\<lparr>last_update := t\<rparr>) = same_standing st st'"
  "same_standing (st\<lparr>tcp_ack_pps := n\<rparr>) st' = same_standing st st'"
  by (simp_all add: same_entry_def same_standing_def count_attack_def)

lemma same_entry_upd [simp]:
  "same_entry st (count_attack a st') = same_entry st st'"
  "same_entry st (st'\<lparr>http_rps := n\<rparr>) = same_entry st st'"
  "same_entry st (st'\<lparr>reputation_score := s\<rparr>) = same_entry st st'"
  "same_entry st (st'\<lparr>last_update := t\<rparr>) = same_entry st st'"
  by (simp_all add: same_entry_def count_attack_def)

lemma udp_standing:
  assumes "udp_protect_analyze cfg now pkt (up, g, st) = Inr (v, up', g', st')"
  shows "same_standing st st'"
proof -
  have checks: "same_standing st st2"
    if "udp_checks u g pkt st1 = Inr (v, up', g', st2)" "same_standing st st1" for u st1 st2
    using that by (auto simp: udp_checks_def bindR_Inr_iff split: if_splits)
  show ?thesis using assms
    by (auto simp: udp_protect_analyze_def Let_def bindR_Inr_iff split: if_splits option.splits intro: checks)
qed

lemma icmp_standing:
  assumes "icmp_protect_analyze cfg now pkt (ip, g, st) = Inr (v, ip', g', st')"
  shows "same_standing st st'"
proof -
  have checks: "same_standing st st2"
    if "icmp_checks cfg i g pkt st1 = Inr (v, ip', g', st2)" "same_standing st st1" for i st1 st2
    using that by (auto simp: icmp_checks_def icmp_type_checks_def bindR_Inr_iff split: if_splits)
  show ?thesis using assms
    by (auto simp: icmp_protect_analyze_def Let_def split: if_splits option.splits intro: checks)
qed

lemma http_entry:
  assumes "http_protect_analyze cfg now pkt (hp, g, st) = Inr (v, hp', g', st')"
  shows "same_entry st st'"
proof -
  have checks: "same_entry st st2"
    if "http_checks cfg h g pkt st1 = Inr (v, hp', g', st2)" "same_entry st st1" for h st1 st2
    using that by (auto simp: http_checks_def http_reputation_def Let_def bindR_Inr_iff split: if_splits)
  show ?thesis using assms
    by (auto simp: http_protect_analyze_def Let_def split: if_splits option.splits intro: checks)
qed

lemma tcp_counted_standing: "tcp_counted a w = (early, w') \<Longrightarrow> same_standing (tw_stats w) (tw_stats w')"
  by (auto simp: tcp_counted_def Let_def split: if_splits)

lemma psh_ack_standing: "on_psh_ack flags w = (early, w') \<Longrightarrow> same_standing (tw_stats w) (tw_stats w')"
  by (auto simp: on_psh_ack_def split: if_splits)

lemma set_conn_stats: "set_conn p f w = ret w' \<Longrightarrow> tw_stats w' = tw_stats w"
  by (auto simp: set_conn_ret)

lemma on_syn_standing:
  assumes "on_syn cfg now p w = ret (early, w')"
  shows "same_standing (tw_stats w) (tw_stats w')"
proof -
  let ?w = "on_stats (\<lambda>st. st\<lparr>tcp_syn_pps := tcp_syn_pps st + 1\<rparr>)
      (tcp_count (\<lambda>t. t\<lparr>syn_packets := syn_packets t + 1\<rparr>) w)"
  obtain w1 where "set_conn p (\<lambda>e. e\<lparr>ce_state := TCP_STATE_SYN_SENT\<rparr>) ?w = ret w1"
    and rest: "(if 1 \<le> now - last_update (tw_stats w1) then
        if ucast (tcp_syn_pps_threshold cfg) < tcp_syn_pps (tw_stats w1) then
          ret (Some VERDICT_DROP, tcp_drop (tcp_alarm ATTACK_TCP_SYN_FLOOD
            (on_stats (count_attack ATTACK_TCP_SYN_FLOOD) w1)))
        else ret (None, on_stats (\<lambda>st. st\<lparr>tcp_syn_pps := 0, last_update := now\<rparr>) w1)
      else ret (None, w1)) = ret (early, w')"
    using assms by (auto simp: on_syn_def Let_def bindM_ret)
  then have s1: "same_standing (tw_stats w) (tw_stats w1)" by (simp add: set_conn_stats)
  have "same_standing (tw_stats w1) (tw_stats w')"
    using rest by (auto split: if_splits)
  with s1 show ?thesis by (rule same_standing_trans)
qed

lemma on_ack_standing:
  assumes "on_ack cfg now p flags w = ret (early, w')"
  shows "same_standing (tw_stats w) (tw_stats w')"
proof -
  let ?w = "on_stats (\<lambda>st. st\<lparr>tcp_ack_pps := tcp_ack_pps st + 1\<rparr>)
      (tcp_count (\<lambda>t. t\<lparr>ack_packets := ack_packets t + 1\<rparr>) w)"
  obtain w1 where "set_conn p (\<lambda>e. e\<lparr>ce_state := ack_state (ce_state e)\<rparr>) ?w = ret w1"
    and rest: "(if 1 \<le> now - last_update (tw_stats w1) then
        if ucast (tcp_ack_pps_threshold cfg) < tcp_ack_pps (tw_stats w1) then
          ret (Some VERDICT_DROP, tcp_drop (tcp_alarm ATTACK_TCP_ACK_FLOOD
            (on_stats (count_attack ATTACK_TCP_ACK_FLOOD) w1)))
        else ret (on_psh_ack flags (on_stats (\<lambda>st. st\<lparr>tcp_ack_pps := 0\<rparr>) w1))
      else ret (on_psh_ack flags w1)) = ret (early, w')"
    using assms by (auto simp: on_ack_def Let_def bindM_ret)
  then have s1: "same_standing (tw_stats w) (tw_stats w1)" by (simp add: set_conn_stats)
  have "same_standing (tw_stats w1) (tw_stats w')"
  proof (cases "1 \<le> now - last_update (tw_stats w1)")
    case True
    then show ?thesis
      using rest psh_ack_standing [of flags "on_stats (\<lambda>st. st\<lparr>tcp_ack_pps := 0\<rparr>) w1" early w']
      by (auto split: if_splits)
  next
    case False
    then show ?thesis using rest psh_ack_standing [of flags w1 early w'] by simp
  qed
  with s1 show ?thesis by (rule same_standing_trans)
qed

lemma then_standing:
  assumes "bindM (set_conn p f w) (\<lambda>w. ret (k w)) = ret (early, w')"
    and "\<And>w early w'. k w = (early, w') \<Longrightarrow> same_standing (tw_stats w) (tw_stats w')"
  shows "same_standing (tw_stats w) (tw_stats w')"
proof -
  obtain w1 where "set_conn p f w = ret w1" "k w1 = (early, w')" using assms(1) by (auto simp: bindM_ret)
  with assms(2) [of w1 early w'] show ?thesis by (simp add: set_conn_stats)
qed

lemma on_rst_fin_standing:
  assumes "on_rst p w = ret (early, w') \<or> on_fin p w = ret (early, w')"
  shows "same_standing (tw_stats w) (tw_stats w')"
  using assms unfolding on_rst_def on_fin_def
  by (auto dest!: then_standing intro: tcp_counted_standing)

lemma tcp_flags_standing:
  assumes "tcp_flag_analysis cfg now p flags w = ret (early, w')"
  shows "same_standing (tw_stats w) (tw_stats w')"
proof -
  consider "on_syn cfg now p w = ret (early, w')" | "on_ack cfg now p flags w = ret (early, w')"
    | "on_rst p w = ret (early, w') \<or> on_fin p w = ret (early, w')" | "w' = w"
    | "bindM (set_conn p (\<lambda>e. e\<lparr>ce_state := syn_ack_state (ce_state e)\<rparr>) w) (\<lambda>w. ret (None, w)) = ret (early, w')"
    using assms unfolding tcp_flag_analysis_def by (auto split: if_splits)
  then show ?thesis
    by cases (auto intro: on_syn_standing on_ack_standing on_rst_fin_standing then_standing)
qed

lemma tcp_final_standing:
  "tcp_final_checks pkt w = ret (v, w') \<Longrightarrow> same_standing (tw_stats w) (tw_stats w')"
  by (auto simp: tcp_final_checks_def bindM_ret split: if_splits)

lemma tcp_standing:
  assumes "tcp_protect_analyze env pkt w = ret (v, w')"
  shows "same_standing (tw_stats w) (tw_stats w')"
  using assms
  by (auto simp: tcp_protect_analyze_def Let_def bindM_ret set_conn_ret split: if_splits option.splits prod.splits
      dest!: tcp_flags_standing tcp_final_standing intro: same_standing_trans)

section \<open>Reputation\<close>

definition tracked :: "stats_heap \<Rightarrow> traffic_analyzer \<Rightarrow> ip_addr \<Rightarrow> nat \<Rightarrow> ip_stats \<Rightarrow> bool" where
  "tracked h a ip p st \<longleftrightarrow> ip_table a (unat (ip_stats_hash ip)) = p \<and> p \<noteq> 0 \<and> h p = Some st \<and> same_ip (st_ip st) ip"

lemma get_ip_stats_tracked:
  "tracked h a ip p st \<Longrightarrow> analyzer_get_ip_stats now fresh h (Some a) ip = ret (p, h, Some a)"
  by (simp add: tracked_def analyzer_get_ip_stats_def Let_def stats_find_match)

text \<open>The entry after one update.\<close>

definition rescored :: "int \<Rightarrow> ip_stats \<Rightarrow> ip_stats \<Rightarrow> bool" where
  "rescored delta st st' \<longleftrightarrow> st_ip st' = st_ip st \<and>
     reputation_score st' = reputation_add delta (reputation_score st) \<and>
     (is_blacklisted st' \<longleftrightarrow> is_blacklisted st \<or> reputation_score st' < 10)"

lemma update_reputation_tracked:
  assumes "tracked h a ip p st"
  shows "\<exists>st' a'. analyzer_update_reputation cfg env h (Some a) ip delta = ret (h(p \<mapsto> st'), Some a') \<and>
    tracked (h(p \<mapsto> st')) a' ip p st' \<and> rescored delta st st' \<and> ip_table a' = ip_table a \<and>
    (is_blacklisted st' = is_blacklisted st \<longrightarrow> a' = a) \<and>
    (is_blacklisted st' \<and> \<not> is_blacklisted st \<longrightarrow>
       an_blacklist a' = snd (ipset_add_expiring (re_alloc env) (an_blacklist a) ip
         (re_now env + int (unat (blacklist_duration cfg)))))"
  using assms
  by (auto simp: analyzer_update_reputation_def get_ip_stats_tracked [OF assms] sread_def Let_def
      tracked_def rescored_def)

text \<open>Scores as numbers: a drop takes 10 points off, but below 10 the subtraction wraps around and
  the clamp at 100 makes the score perfect.\<close>

definition score_next :: "int \<Rightarrow> nat \<Rightarrow> nat" where
  "score_next delta n = (if delta = 1 then min 100 (n + 1) else if 10 \<le> n then n - 10 else 100)"

lemma reputation_add_score:
  assumes "unat s \<le> 100" and "delta = 1 \<or> delta = -10"
  shows "unat (reputation_add delta s) = score_next delta (unat s)"
proof (cases "delta = 1")
  case True
  have i: "unat (s + 1) = unat s + 1" using assms(1) by (intro unat_inc) simp
  then show ?thesis using assms(1) True by (auto simp: reputation_add_def score_next_def word_less_nat_alt)
next
  case False
  then have d: "delta = -10" using assms(2) by simp
  have w: "s + word_of_int (-10) = s - 10" by simp
  show ?thesis
  proof (cases "10 \<le> unat s")
    case True
    then have "unat (s - 10) = unat s - 10" by (subst unat_sub) (simp_all add: word_le_nat_alt)
    then show ?thesis using assms(1) True d by (simp add: reputation_add_def score_next_def w word_less_nat_alt)
  next
    case low: False
    have "unat (s - 10) = 2 ^ 32 + unat s - 10" using low
      by (subst unat_sub_if') (simp add: word_le_nat_alt)
    then show ?thesis using low d by (simp add: reputation_add_def score_next_def w word_less_nat_alt)
  qed
qed

fun rep_run ::
    "config \<Rightarrow> ip_addr \<Rightarrow> (rep_env \<times> int) list \<Rightarrow> stats_heap \<Rightarrow> traffic_analyzer option \<Rightarrow>
      (stats_heap \<times> traffic_analyzer option) run" where
  "rep_run cfg ip [] h ap = ret (h, ap)"
| "rep_run cfg ip ((env, delta) # ds) h ap =
     bindM (analyzer_update_reputation cfg env h ap ip delta) (\<lambda>(h, ap). rep_run cfg ip ds h ap)"

lemma score_next_le: "n \<le> 100 \<Longrightarrow> score_next d n \<le> 100"
  by (simp add: score_next_def, linarith)

text \<open>C24: the reputation of an address. Over any sequence of rewards (+1) and penalties (-10) the
  score of an entry follows \<open>score_next\<close>: it never leaves 0 to 100, and a penalty at a score below 10
  makes it 100. The entry is marked as blacklisted as soon as a score below 10 has been reached,
  and stays so.\<close>

theorem reputation_follows_score:
  assumes "tracked h a ip p st" and "unat (reputation_score st) \<le> 100"
    and "\<forall>(env, d) \<in> set ds. d = 1 \<or> d = -10"
  shows "\<exists>h' a' st'. rep_run cfg ip ds h (Some a) = ret (h', Some a') \<and> tracked h' a' ip p st' \<and>
    unat (reputation_score st') = fold score_next (map snd ds) (unat (reputation_score st)) \<and>
    unat (reputation_score st') \<le> 100 \<and>
    (is_blacklisted st' \<longleftrightarrow> is_blacklisted st \<or>
       (\<exists>k < length ds. fold score_next (map snd (take (Suc k) ds)) (unat (reputation_score st)) < 10))"
  using assms
proof (induction ds arbitrary: h a st)
  case (Cons x ds)
  obtain env d where x: "x = (env, d)" "d = 1 \<or> d = -10" using Cons.prems(3) by (cases x) auto
  obtain st1 a1 where u: "analyzer_update_reputation cfg env h (Some a) ip d = ret (h(p \<mapsto> st1), Some a1)"
    "tracked (h(p \<mapsto> st1)) a1 ip p st1" "rescored d st st1"
    using update_reputation_tracked [OF Cons.prems(1)] by blast
  let ?n = "score_next d (unat (reputation_score st))"
  have s1: "unat (reputation_score st1) = ?n"
    using u(3) reputation_add_score [OF Cons.prems(2) x(2)] by (simp add: rescored_def)
  then have le: "unat (reputation_score st1) \<le> 100" using score_next_le Cons.prems(2) by simp
  have b1: "is_blacklisted st1 \<longleftrightarrow> is_blacklisted st \<or> ?n < 10"
    using u(3) s1 by (simp add: rescored_def word_less_nat_alt)
  have "\<forall>(env, d) \<in> set ds. d = 1 \<or> d = -10" using Cons.prems(3) by simp
  note ih = Cons.IH [OF u(2) le this]
  obtain h' a' st' where r: "rep_run cfg ip ds (h(p \<mapsto> st1)) (Some a1) = ret (h', Some a')" "tracked h' a' ip p st'"
    "unat (reputation_score st') = fold score_next (map snd ds) ?n" "unat (reputation_score st') \<le> 100"
    "is_blacklisted st' \<longleftrightarrow> is_blacklisted st1 \<or> (\<exists>k < length ds. fold score_next (map snd (take (Suc k) ds)) ?n < 10)"
    using ih [unfolded s1] by blast
  have "(\<exists>k < length (x # ds). fold score_next (map snd (take (Suc k) (x # ds))) (unat (reputation_score st)) < 10) \<longleftrightarrow>
      ?n < 10 \<or> (\<exists>k < length ds. fold score_next (map snd (take (Suc k) ds)) ?n < 10)"
    by (simp add: Ex_less_Suc2 x)
  with r(5) b1 have "is_blacklisted st' \<longleftrightarrow> is_blacklisted st \<or>
      (\<exists>k < length (x # ds). fold score_next (map snd (take (Suc k) (x # ds))) (unat (reputation_score st)) < 10)"
    by blast
  moreover have "rep_run cfg ip (x # ds) h (Some a) = ret (h', Some a')" using u(1) r(1) by (simp add: x)
  ultimately show ?case using r x by (intro exI [of _ h'] exI [of _ a'] exI [of _ st']) simp
qed (auto simp: tracked_def)

section \<open>A packet of a known address\<close>

definition module_drops :: "analyzer_world \<Rightarrow> u64 \<times> u64 \<times> u64 \<times> u64" where
  "module_drops w = (case aw_udp w of None \<Rightarrow> 0 | Some c \<Rightarrow> udp_dropped c,
     case aw_tcp w of None \<Rightarrow> 0 | Some c \<Rightarrow> tcp_dropped c,
     case aw_icmp w of None \<Rightarrow> 0 | Some c \<Rightarrow> icmp_dropped c,
     case aw_http w of None \<Rightarrow> 0 | Some c \<Rightarrow> http_dropped c)"

text \<open>What a module call may do to the analyzer's world.\<close>

definition module_effect :: "analyzer_world \<Rightarrow> verdict \<Rightarrow> analyzer_world \<Rightarrow> bool" where
  "module_effect w v w' \<longleftrightarrow> aw_an w' = aw_an w \<and> aw_stats w' = aw_stats w \<and>
     (v = VERDICT_ACCEPT \<longrightarrow> module_drops w' = module_drops w \<and> aw_glob w' = aw_glob w)"

lemma module_effect_refl [simp]: "module_effect w v w"
  by (simp add: module_effect_def)

lemma dispatch_effect:
  assumes "dispatch env pkt st w = ret (v, st', w')"
  shows "same_standing st st' \<and> module_effect w v w'"
proof -
  let ?cfg = "te_cfg (ae_tcp env)" and ?now = "te_now (ae_tcp env)"
  let ?t = "\<lparr>tw_ctx = aw_tcp w, tw_heap = aw_conns w, tw_cache = aw_cache w, tw_glob = aw_glob w, tw_stats = st\<rparr>"
  consider
    (udp) u g where "udp_protect_analyze ?cfg ?now pkt (aw_udp w, aw_glob w, st) = Inr (v, u, g, st')"
      "w' = w\<lparr>aw_udp := u, aw_glob := g\<rparr>"
  | (tcp) t where "tcp_protect_analyze (ae_tcp env) pkt ?t = ret (v, t)" "st' = tw_stats t"
      "w' = w\<lparr>aw_tcp := tw_ctx t, aw_conns := tw_heap t, aw_cache := tw_cache t, aw_glob := tw_glob t\<rparr>"
  | (icmp) i g where "icmp_protect_analyze ?cfg ?now pkt (aw_icmp w, aw_glob w, st) = Inr (v, i, g, st')"
      "w' = w\<lparr>aw_icmp := i, aw_glob := g\<rparr>"
  | (other) "v = VERDICT_ACCEPT" "st' = st" "w' = w"
  proof (cases "protocol pkt = PROTO_UDP")
    case True
    then show ?thesis using assms udp by (auto simp: dispatch_def Let_def bindM_ret)
  next
    case nu: False
    show ?thesis
    proof (cases "protocol pkt = PROTO_TCP")
      case True
      then have "bindM (tcp_protect_analyze (ae_tcp env) pkt ?t) (\<lambda>(v, t). ret (v, tw_stats t,
          w\<lparr>aw_tcp := tw_ctx t, aw_conns := tw_heap t, aw_cache := tw_cache t, aw_glob := tw_glob t\<rparr>)) = ret (v, st', w')"
        using assms nu by (simp add: dispatch_def Let_def)
      then obtain t where "tcp_protect_analyze (ae_tcp env) pkt ?t = ret (v, t)" "st' = tw_stats t"
        "w' = w\<lparr>aw_tcp := tw_ctx t, aw_conns := tw_heap t, aw_cache := tw_cache t, aw_glob := tw_glob t\<rparr>"
        by (auto simp only: bindM_ret prod.case split_paired_Ex option.inject sum.inject prod.inject)
      then show ?thesis by (rule tcp)
    next
      case nt: False
      show ?thesis
      proof (cases "protocol pkt = PROTO_ICMP")
        case True
        then show ?thesis using assms nu nt icmp by (auto simp: dispatch_def Let_def bindM_ret)
      next
        case False
        then show ?thesis using assms nu nt other by (auto simp: dispatch_def Let_def)
      qed
    qed
  qed
  then show ?thesis
  proof cases
    case udp
    from udp_standing [OF udp(1)] udp_analyze_counted [OF udp(1)] udp(2) show ?thesis
      by (auto simp: module_effect_def module_drops_def udp_drops_def udp_glob_def counted_outcome_def)
  next
    case tcp
    have "same_standing st st'" using tcp_standing [OF tcp(1)] tcp(2) by simp
    moreover have "v = VERDICT_ACCEPT \<Longrightarrow> tcp_drops t = tcp_drops ?t \<and> tw_glob t = tw_glob ?t"
      using tcp.accept_quiet [of "ae_tcp env" pkt ?t t] tcp(1) by auto
    ultimately show ?thesis using tcp(3)
      by (auto simp: module_effect_def module_drops_def tcp_drops_def)
  next
    case icmp
    from icmp_standing [OF icmp(1)] icmp_analyze_counted [OF icmp(1)] icmp(2) show ?thesis
      by (auto simp: module_effect_def module_drops_def icmp_drops_def icmp_glob_def counted_outcome_def)
  qed simp
qed

lemma http_layer_effect:
  assumes "http_layer env pkt (v0, st, w) = ret (v, st', w')"
  shows "same_entry st st' \<and> (\<not> is_http pkt \<longrightarrow> st' = st \<and> v = v0) \<and>
    (v0 \<noteq> VERDICT_ACCEPT \<longrightarrow> v = v0) \<and> module_effect w v w'"
proof (cases "v0 = VERDICT_ACCEPT \<and> is_http pkt")
  case True
  then obtain c g where h: "http_protect_analyze (te_cfg (ae_tcp env)) (ae_http_now env) pkt (aw_http w, aw_glob w, st) =
      Inr (v, c, g, st')" "w' = w\<lparr>aw_http := c, aw_glob := g\<rparr>"
    using assms by (auto simp: http_layer_def bindM_ret)
  from http_entry [OF h(1)] http_analyze_outcome [OF h(1)] h(2) True show ?thesis
    by (auto simp: module_effect_def module_drops_def http_drops_def http_glob_def http_outcome_def counted_outcome_def)
next
  case False
  with assms show ?thesis by (auto simp: http_layer_def)
qed

lemma module_effect_trans:
  "module_effect w v0 w1 \<Longrightarrow> module_effect w1 v w2 \<Longrightarrow> (v = VERDICT_ACCEPT \<longrightarrow> v0 = VERDICT_ACCEPT) \<Longrightarrow>
    module_effect w v w2"
  by (auto simp: module_effect_def)

definition verdict_delta :: "verdict \<Rightarrow> int" where
  "verdict_delta v = (if v = VERDICT_DROP then -10 else if v = VERDICT_ACCEPT then 1 else 0)"

text \<open>What the modules make of a packet: the module of its protocol and no other is called, on the state
  and the statistics at hand, and its answer taken; a packet of another protocol is accepted unseen.\<close>

definition module_answer ::
    "analyzer_env \<Rightarrow> packet \<Rightarrow> ip_stats \<Rightarrow> analyzer_world \<Rightarrow> verdict \<Rightarrow> ip_stats \<Rightarrow> analyzer_world \<Rightarrow> bool" where
  "module_answer env pkt st w v st1 w1 \<longleftrightarrow>
     (protocol pkt = PROTO_UDP \<longrightarrow>
        (\<exists>u g. udp_protect_analyze (te_cfg (ae_tcp env)) (te_now (ae_tcp env)) pkt (aw_udp w, aw_glob w, st) = Inr (v, u, g, st1) \<and>
          w1 = w\<lparr>aw_udp := u, aw_glob := g\<rparr>)) \<and>
     (protocol pkt = PROTO_TCP \<longrightarrow>
        (\<exists>t. tcp_protect_analyze (ae_tcp env) pkt \<lparr>tw_ctx = aw_tcp w, tw_heap = aw_conns w, tw_cache = aw_cache w,
            tw_glob = aw_glob w, tw_stats = st\<rparr> = ret (v, t) \<and> st1 = tw_stats t \<and>
          w1 = w\<lparr>aw_tcp := tw_ctx t, aw_conns := tw_heap t, aw_cache := tw_cache t, aw_glob := tw_glob t\<rparr>)) \<and>
     (protocol pkt = PROTO_ICMP \<longrightarrow>
        (\<exists>i g. icmp_protect_analyze (te_cfg (ae_tcp env)) (te_now (ae_tcp env)) pkt (aw_icmp w, aw_glob w, st) = Inr (v, i, g, st1) \<and>
          w1 = w\<lparr>aw_icmp := i, aw_glob := g\<rparr>)) \<and>
     (protocol pkt \<notin> {PROTO_UDP, PROTO_TCP, PROTO_ICMP} \<longrightarrow> v = VERDICT_ACCEPT \<and> st1 = st \<and> w1 = w)"

text \<open>The HTTP module sees an HTTP packet that the module before it accepted, and no other.\<close>

definition http_answer ::
    "analyzer_env \<Rightarrow> packet \<Rightarrow> verdict \<times> ip_stats \<times> analyzer_world \<Rightarrow> verdict \<times> ip_stats \<times> analyzer_world \<Rightarrow> bool" where
  "http_answer env pkt = (\<lambda>(v1, st1, w1) (v, st2, w2).
     if v1 = VERDICT_ACCEPT \<and> is_http pkt then
       \<exists>c g. http_protect_analyze (te_cfg (ae_tcp env)) (ae_http_now env) pkt (aw_http w1, aw_glob w1, st1) = Inr (v, c, g, st2) \<and>
         w2 = w1\<lparr>aw_http := c, aw_glob := g\<rparr>
     else v = v1 \<and> st2 = st1 \<and> w2 = w1)"

lemma dispatch_answer: "dispatch env pkt st w = ret (v, st1, w1) \<longleftrightarrow> module_answer env pkt st w v st1 w1"
proof -
  have d: "PROTO_UDP \<noteq> PROTO_TCP" "PROTO_UDP \<noteq> PROTO_ICMP" "PROTO_TCP \<noteq> PROTO_ICMP"
    "PROTO_TCP \<noteq> PROTO_UDP" "PROTO_ICMP \<noteq> PROTO_UDP" "PROTO_ICMP \<noteq> PROTO_TCP" by (simp_all add: proto_defs)
  consider "protocol pkt = PROTO_UDP" | "protocol pkt = PROTO_TCP" | "protocol pkt = PROTO_ICMP"
    | "protocol pkt \<notin> {PROTO_UDP, PROTO_TCP, PROTO_ICMP}" by blast
  then show ?thesis
    using d
    by cases (simp_all only: dispatch_def module_answer_def Let_def bindM_ret split_paired_Ex prod.case option.inject
        sum.inject prod.inject refl if_True if_False insert_iff empty_iff simp_thms not_False_eq_True de_Morgan_disj, fast+)
qed

lemma http_layer_answer: "http_layer env pkt (v1, st1, w1) = ret (v, st2, w2) \<longleftrightarrow> http_answer env pkt (v1, st1, w1) (v, st2, w2)"
proof (cases "v1 = VERDICT_ACCEPT \<and> is_http pkt")
  case True
  then show ?thesis
    by (simp only: http_layer_def http_answer_def bindM_ret split_paired_Ex prod.case option.inject sum.inject prod.inject
        if_True simp_thms) fast
next
  case False
  then show ?thesis by (auto simp: http_layer_def http_answer_def)
qed

text \<open>What \<open>analyzer_process_packet\<close> makes of a verdict: the score of the entry as the modules left it moves
  by +1 or -10, and an entry newly marked goes to the blacklist for the configured time.\<close>

definition settled :: "analyzer_env \<Rightarrow> ip_addr \<Rightarrow> verdict \<Rightarrow> ip_stats \<Rightarrow> traffic_analyzer \<Rightarrow> ip_stats \<Rightarrow> traffic_analyzer \<Rightarrow> bool" where
  "settled env ip v st a st' a' \<longleftrightarrow>
     (if v \<in> {VERDICT_ACCEPT, VERDICT_DROP} then rescored (verdict_delta v) st st' else st' = st) \<and> ip_table a' = ip_table a \<and>
     (is_blacklisted st' = is_blacklisted st \<longrightarrow> a' = a) \<and>
     (is_blacklisted st' \<and> \<not> is_blacklisted st \<longrightarrow>
        an_blacklist a' = snd (ipset_add_expiring (re_alloc (ae_rep env)) (an_blacklist a) ip
          (re_now (ae_rep env) + int (unat (blacklist_duration (te_cfg (ae_tcp env)))))))"

lemma after_verdict_settles:
  assumes "tracked ((aw_stats w)(p \<mapsto> st)) a (src_ip pkt) p st" and "aw_an w2 = Some a"
  shows "\<exists>st' a'. after_verdict env pkt v (w2\<lparr>aw_stats := (aw_stats w)(p \<mapsto> st)\<rparr>) =
      ret (v, w2\<lparr>aw_stats := (aw_stats w)(p \<mapsto> st'), aw_an := Some a'\<rparr>) \<and>
    tracked ((aw_stats w)(p \<mapsto> st')) a' (src_ip pkt) p st' \<and> settled env (src_ip pkt) v st a st' a'"
proof (cases "v \<in> {VERDICT_ACCEPT, VERDICT_DROP}")
  case False
  then have "after_verdict env pkt v (w2\<lparr>aw_stats := (aw_stats w)(p \<mapsto> st)\<rparr>) = ret (v, w2\<lparr>aw_stats := (aw_stats w)(p \<mapsto> st)\<rparr>)"
    by (simp add: after_verdict_def)
  moreover have "w2\<lparr>aw_stats := (aw_stats w)(p \<mapsto> st), aw_an := Some a\<rparr> = w2\<lparr>aw_stats := (aw_stats w)(p \<mapsto> st)\<rparr>"
    using assms(2) by simp
  moreover have "settled env (src_ip pkt) v st a st a" using False by (simp add: settled_def)
  ultimately show ?thesis using assms(1) by (intro exI [of _ st] exI [of _ a]) (simp del: fun_upd_apply)
next
  case True
  obtain st' a' where u: "analyzer_update_reputation (te_cfg (ae_tcp env)) (ae_rep env) ((aw_stats w)(p \<mapsto> st)) (Some a) (src_ip pkt)
      (verdict_delta v) = ret ((aw_stats w)(p \<mapsto> st, p \<mapsto> st'), Some a')"
    "tracked ((aw_stats w)(p \<mapsto> st, p \<mapsto> st')) a' (src_ip pkt) p st'" "rescored (verdict_delta v) st st'" "ip_table a' = ip_table a"
    "is_blacklisted st' = is_blacklisted st \<longrightarrow> a' = a"
    "is_blacklisted st' \<and> \<not> is_blacklisted st \<longrightarrow> an_blacklist a' = snd (ipset_add_expiring (re_alloc (ae_rep env)) (an_blacklist a) (src_ip pkt)
         (re_now (ae_rep env) + int (unat (blacklist_duration (te_cfg (ae_tcp env))))))"
    using update_reputation_tracked [OF assms(1)] by blast
  have "after_verdict env pkt v (w2\<lparr>aw_stats := (aw_stats w)(p \<mapsto> st)\<rparr>) =
      ret (v, w2\<lparr>aw_stats := (aw_stats w)(p \<mapsto> st'), aw_an := Some a'\<rparr>)"
    using u(1) True assms(2) by (auto simp: after_verdict_def verdict_delta_def)
  moreover have "settled env (src_ip pkt) v st a st' a'" using u(3-6) True unfolding settled_def by simp
  ultimately show ?thesis using u(2) by (intro exI [of _ st'] exI [of _ a']) simp
qed

text \<open>C23: \<open>analyzer_process_packet\<close> for an address that has an entry. A whitelisted source is accepted
  and a blacklisted one dropped without any module seeing the packet. Otherwise the module of the
  packet's protocol judges it (\<open>module_answer\<close>: that module, on the current state, and no other), then
  the HTTP module an HTTP packet accepted so far (\<open>http_answer\<close>): the analysis returns a verdict exactly
  when they do, and it is theirs. What they changed is kept, the entry's score moves by +1 when the
  packet is accepted and by -10 when it is dropped, from where the modules left it, and an entry that
  falls below 10 goes to the blacklist (\<open>settled\<close>). An accepted packet leaves every drop counter and
  the global statistics as they were; no module but HTTP touches the score.\<close>

theorem analyzer_known_address:
  assumes "aw_an w = Some a" and "tracked (aw_stats w) a (src_ip pkt) p st"
  shows "(ipset_contains_cidr (ae_white_now env) (an_whitelist a) (src_ip pkt) \<longrightarrow>
      analyzer_process_packet env pkt w =
        ret (VERDICT_ACCEPT, w\<lparr>aw_stats := (aw_stats w)(p \<mapsto> st\<lparr>is_whitelisted := True\<rparr>)\<rparr>)) \<and>
    (\<not> ipset_contains_cidr (ae_white_now env) (an_whitelist a) (src_ip pkt) \<and>
      ipset_contains_cidr (ae_black_now env) (an_blacklist a) (src_ip pkt) \<longrightarrow>
      analyzer_process_packet env pkt w =
        ret (VERDICT_DROP, w\<lparr>aw_stats := (aw_stats w)(p \<mapsto> st\<lparr>is_blacklisted := True\<rparr>)\<rparr>)) \<and>
    (\<not> ipset_contains_cidr (ae_white_now env) (an_whitelist a) (src_ip pkt) \<and>
      \<not> ipset_contains_cidr (ae_black_now env) (an_blacklist a) (src_ip pkt) \<longrightarrow>
      (\<forall>v1 st1 w1 v st2 w2. module_answer env pkt st w v1 st1 w1 \<and> http_answer env pkt (v1, st1, w1) (v, st2, w2) \<longrightarrow>
        (\<exists>w'. analyzer_process_packet env pkt w = ret (v, w'))) \<and>
      (\<forall>v w'. analyzer_process_packet env pkt w = ret (v, w') \<longrightarrow>
        (v = VERDICT_ACCEPT \<longrightarrow> module_drops w' = module_drops w \<and> aw_glob w' = aw_glob w) \<and>
        (\<exists>v1 st1 w1 st2 w2 st' a'. module_answer env pkt st w v1 st1 w1 \<and> http_answer env pkt (v1, st1, w1) (v, st2, w2) \<and>
          w' = w2\<lparr>aw_stats := (aw_stats w)(p \<mapsto> st'), aw_an := Some a'\<rparr> \<and>
          tracked (aw_stats w') a' (src_ip pkt) p st' \<and> settled env (src_ip pkt) v st2 a st' a' \<and>
          (\<not> is_http pkt \<longrightarrow> reputation_score st2 = reputation_score st))))"
proof (intro conjI impI)
  have p: "p \<noteq> 0" "aw_stats w p = Some st" using assms(2) by (auto simp: tracked_def)
  note unfold = analyzer_process_packet_def get_ip_stats_tracked [OF assms(2)] assms(1) sread_def p Let_def
  have w: "w\<lparr>aw_an := Some a\<rparr> = w" using assms(1) by simp
  show "analyzer_process_packet env pkt w =
      ret (VERDICT_ACCEPT, w\<lparr>aw_stats := (aw_stats w)(p \<mapsto> st\<lparr>is_whitelisted := True\<rparr>)\<rparr>)"
    if "ipset_contains_cidr (ae_white_now env) (an_whitelist a) (src_ip pkt)"
    using that by (simp add: unfold w)
  show "analyzer_process_packet env pkt w =
      ret (VERDICT_DROP, w\<lparr>aw_stats := (aw_stats w)(p \<mapsto> st\<lparr>is_blacklisted := True\<rparr>)\<rparr>)"
    if "\<not> ipset_contains_cidr (ae_white_now env) (an_whitelist a) (src_ip pkt) \<and>
      ipset_contains_cidr (ae_black_now env) (an_blacklist a) (src_ip pkt)"
    using that by (simp add: unfold w)
  assume unlisted: "\<not> ipset_contains_cidr (ae_white_now env) (an_whitelist a) (src_ip pkt) \<and>
      \<not> ipset_contains_cidr (ae_black_now env) (an_blacklist a) (src_ip pkt)"
  have step: "analyzer_process_packet env pkt w = bindM (dispatch env pkt st w) (\<lambda>r. bindM (http_layer env pkt r)
      (\<lambda>(v, st, w'). after_verdict env pkt v (w'\<lparr>aw_stats := (aw_stats w)(p \<mapsto> st)\<rparr>)))"
    using unlisted by (simp add: unfold w)
  have settle: "\<exists>st' a'. analyzer_process_packet env pkt w =
        ret (v, w2\<lparr>aw_stats := (aw_stats w)(p \<mapsto> st'), aw_an := Some a'\<rparr>) \<and>
      tracked ((aw_stats w)(p \<mapsto> st')) a' (src_ip pkt) p st' \<and> settled env (src_ip pkt) v st2 a st' a' \<and>
      (\<not> is_http pkt \<longrightarrow> reputation_score st2 = reputation_score st) \<and> module_effect w v w2"
    if m: "dispatch env pkt st w = ret (v1, st1, w1)" "http_layer env pkt (v1, st1, w1) = ret (v, st2, w2)" for v1 st1 w1 v st2 w2
  proof -
    note de = dispatch_effect [OF m(1)] and le = http_layer_effect [OF m(2)]
    have e: "module_effect w v w2" using de le by (auto intro: module_effect_trans)
    have s2: "same_entry st st2" "\<not> is_http pkt \<longrightarrow> reputation_score st2 = reputation_score st"
      using de le by (auto simp: same_standing_def same_entry_def)
    have t2: "tracked ((aw_stats w)(p \<mapsto> st2)) a (src_ip pkt) p st2"
      using assms(2) s2(1) by (auto simp: tracked_def same_entry_def)
    have "aw_an w2 = Some a" using e assms(1) by (simp add: module_effect_def)
    from after_verdict_settles [OF t2 this, of env v] s2(2) e m show ?thesis by (simp add: step)
  qed
  show "\<forall>v1 st1 w1 v st2 w2. module_answer env pkt st w v1 st1 w1 \<and> http_answer env pkt (v1, st1, w1) (v, st2, w2) \<longrightarrow>
      (\<exists>w'. analyzer_process_packet env pkt w = ret (v, w'))"
    unfolding dispatch_answer [symmetric] http_layer_answer [symmetric] using settle by blast
  show "\<forall>v w'. analyzer_process_packet env pkt w = ret (v, w') \<longrightarrow>
      (v = VERDICT_ACCEPT \<longrightarrow> module_drops w' = module_drops w \<and> aw_glob w' = aw_glob w) \<and>
      (\<exists>v1 st1 w1 st2 w2 st' a'. module_answer env pkt st w v1 st1 w1 \<and> http_answer env pkt (v1, st1, w1) (v, st2, w2) \<and>
          w' = w2\<lparr>aw_stats := (aw_stats w)(p \<mapsto> st'), aw_an := Some a'\<rparr> \<and>
          tracked (aw_stats w') a' (src_ip pkt) p st' \<and> settled env (src_ip pkt) v st2 a st' a' \<and>
          (\<not> is_http pkt \<longrightarrow> reputation_score st2 = reputation_score st))"
  proof (intro allI impI)
    fix v w' assume run: "analyzer_process_packet env pkt w = ret (v, w')"
    then obtain v1 st1 w1 v2 st2 w2 where d: "dispatch env pkt st w = ret (v1, st1, w1)"
      and l: "http_layer env pkt (v1, st1, w1) = ret (v2, st2, w2)"
      unfolding step by (auto simp only: bindM_ret prod.case split_paired_Ex)
    obtain st' a' where s: "analyzer_process_packet env pkt w = ret (v2, w2\<lparr>aw_stats := (aw_stats w)(p \<mapsto> st'), aw_an := Some a'\<rparr>)"
      "tracked ((aw_stats w)(p \<mapsto> st')) a' (src_ip pkt) p st'" "settled env (src_ip pkt) v2 st2 a st' a'"
      "\<not> is_http pkt \<longrightarrow> reputation_score st2 = reputation_score st" "module_effect w v2 w2"
      using settle [OF d l] by blast
    from s(1) run have eq: "v2 = v" "w' = w2\<lparr>aw_stats := (aw_stats w)(p \<mapsto> st'), aw_an := Some a'\<rparr>" by simp_all
    have "aw_stats w' = (aw_stats w)(p \<mapsto> st')" unfolding eq(2) by simp
    moreover have "v = VERDICT_ACCEPT \<longrightarrow> module_drops w' = module_drops w \<and> aw_glob w' = aw_glob w"
      using s(5) unfolding eq by (simp add: module_effect_def module_drops_def)
    ultimately show "(v = VERDICT_ACCEPT \<longrightarrow> module_drops w' = module_drops w \<and> aw_glob w' = aw_glob w) \<and>
      (\<exists>v1 st1 w1 st2 w2 st' a'. module_answer env pkt st w v1 st1 w1 \<and> http_answer env pkt (v1, st1, w1) (v, st2, w2) \<and>
          w' = w2\<lparr>aw_stats := (aw_stats w)(p \<mapsto> st'), aw_an := Some a'\<rparr> \<and>
          tracked (aw_stats w') a' (src_ip pkt) p st' \<and> settled env (src_ip pkt) v st2 a st' a' \<and>
          (\<not> is_http pkt \<longrightarrow> reputation_score st2 = reputation_score st))"
      unfolding dispatch_answer [symmetric] http_layer_answer [symmetric]
      using d l s(2-4) eq by (intro conjI exI [of _ v1] exI [of _ st1] exI [of _ w1] exI [of _ st2] exI [of _ w2] exI [of _ st'] exI [of _ a'])
        (simp_all only:)
  qed
qed

section \<open>Baseline and anomalies\<close>

lemma entropy_empty: "table_empty (Some a) \<Longrightarrow> analyzer_calculate_entropy h a = ret 0"
  by (simp add: analyzer_calculate_entropy_def table_empty_def sum_table_empty)

lemma baseline_empty:
  "table_empty (Some a) \<Longrightarrow> analyzer_update_baseline now h (Some a) =
    ret (0, Some (a\<lparr>baseline := (baseline a)\<lparr>entropy := 0, unique_src_ips := 0\<rparr>, baseline_updated := now\<rparr>))"
  by (simp add: analyzer_update_baseline_def entropy_empty table_empty_def sum_table_empty)

fun train_run :: "stats_heap \<Rightarrow> time_t list \<Rightarrow> traffic_analyzer option \<Rightarrow> traffic_analyzer option run" where
  "train_run h [] ap = ret ap"
| "train_run h (t # ts) ap = bindM (analyzer_ml_train t h ap) (\<lambda>(_, ap). train_run h ts ap)"

lemma train_run_empty:
  "table_empty (Some a) \<Longrightarrow> train_run h ts (Some a) = ret (Some (if ts = [] then a
     else a\<lparr>baseline := (baseline a)\<lparr>entropy := 0, unique_src_ips := 0\<rparr>, baseline_updated := last ts\<rparr>))"
proof (induction ts arbitrary: a)
  case (Cons t ts)
  let ?a = "a\<lparr>baseline := (baseline a)\<lparr>entropy := 0, unique_src_ips := 0\<rparr>, baseline_updated := t\<rparr>"
  have "table_empty (Some ?a)" using Cons.prems by (simp add: table_empty_def)
  from Cons.IH [OF this] Cons.prems show ?case
    by (simp add: analyzer_ml_train_def baseline_empty)
qed simp

text \<open>Training teaches the analyzer nothing. After any number of trainings from the state
  \<open>analyzer_init\<close> makes, the baseline still has entropy 0, average packet size 0 and no address; a
  pattern is then an anomaly exactly when its entropy is beyond 2 bits, whatever its packet sizes.\<close>

theorem training_learns_nothing:
  assumes "analyzer_init True True True bl wl now = Some a"
  shows "\<exists>a'. train_run h ts (Some a) = ret (Some a') \<and> entropy (baseline a') = 0 \<and>
    packet_size_avg (baseline a') = 0 \<and> unique_src_ips (baseline a') = 0 \<and>
    (\<forall>pattern. analyzer_is_anomaly (Some a') (Some pattern) \<longleftrightarrow> 2 < \<bar>entropy pattern\<bar>)"
proof -
  have "table_empty (Some a)" using analyzer_init_empty [of True True True bl wl now] assms by simp
  from train_run_empty [OF this, of h ts] assms show ?thesis
    by (auto simp: analyzer_init_def zero_pattern_def analyzer_is_anomaly_def)
qed

section \<open>Classification\<close>

lemma classify_udp_amplification:
  "protocol pkt = PROTO_UDP \<Longrightarrow> classify_udp pkt = bindR (amplification_of pkt) (\<lambda>k.
     if k \<noteq> ATTACK_NONE then Inr (Some k)
     else if 1400 < payload_len pkt then Inr (Some ATTACK_UDP_FLOOD) else Inr None)"
  by (auto simp: classify_udp_def amplification_of_def bindR_def split: sum.splits)

lemma classify_amplification:
  assumes "protocol pkt = PROTO_UDP"
    and "k \<in> {ATTACK_DNS_AMPLIFICATION, ATTACK_NTP_AMPLIFICATION, ATTACK_SSDP_REFLECTION, ATTACK_MEMCACHED_AMPLIFICATION}"
  shows "analyzer_ml_classify (Some a) (Some pkt) = Inr k \<longleftrightarrow> amplification_of pkt = Inr k"
proof (cases "amplification_of pkt")
  case (Inl f)
  then show ?thesis by (simp add: analyzer_ml_classify_def classify_udp_amplification [OF assms(1)])
next
  case (Inr j)
  have np: "classify_tcp pkt = None" "classify_icmp pkt = None"
    using assms(1) by (simp_all add: classify_tcp_def classify_icmp_def proto_defs)
  have h: "classify_http pkt \<noteq> Some k" using assms(2) by (auto simp: classify_http_def split: option.splits)
  show ?thesis using Inr assms(2) h
    by (auto simp: analyzer_ml_classify_def classify_udp_amplification [OF assms(1)] np split: option.splits)
qed

text \<open>Which alarm the UDP module raises: that of the signature, or of a flood or a fragment, or none.\<close>

lemma udp_alarm:
  assumes "udp_protect_analyze cfg now pkt (Some u, g, st) = Inr (v, s')" and "protocol pkt = PROTO_UDP"
  shows "\<exists>j. amplification_of pkt = Inr j \<and>
    (if j = ATTACK_NONE then udp_glob s' \<in> {g, alarm ATTACK_UDP_FLOOD g, alarm ATTACK_UDP_FRAGMENTATION g}
     else udp_glob s' = alarm j g)"
proof -
  obtain j where j: "amplification_of pkt = Inr j"
    using assms by (cases "amplification_of pkt") (auto simp: udp_protect_analyze_def Let_def)
  have chk: "udp_glob s' \<in> {g, alarm ATTACK_UDP_FRAGMENTATION g}" if "udp_checks u1 g pkt st1 = Inr (v, s')" for u1 st1
    using that by (auto simp: udp_checks_def bindR_Inr_iff udp_glob_def split: if_splits)
  show ?thesis
  proof (cases "j = ATTACK_NONE")
    case True
    then consider "udp_glob s' = alarm ATTACK_UDP_FLOOD g" | u1 st1 where "udp_checks u1 g pkt st1 = Inr (v, s')"
      using assms j by (auto simp: udp_protect_analyze_def Let_def udp_glob_def split: if_splits)
    then show ?thesis by cases (use j True chk in auto)
  next
    case False
    then show ?thesis using assms j by (auto simp: udp_protect_analyze_def Let_def udp_glob_def)
  qed
qed

text \<open>C27: the classifier agrees with the UDP module on amplification. For each of the four amplification
  attacks \<open>k\<close>, a UDP packet is classified as \<open>k\<close> exactly when \<open>udp_protect_analyze\<close> raises the alarm of
  \<open>k\<close> on it, whatever the threshold, the clock and the statistics; and then the module drops the
  packet, counts the drop, and changes nothing else but the packet count of \<open>k\<close>.\<close>

theorem classify_agrees_udp:
  assumes "protocol pkt = PROTO_UDP"
    and "k \<in> {ATTACK_DNS_AMPLIFICATION, ATTACK_NTP_AMPLIFICATION, ATTACK_SSDP_REFLECTION, ATTACK_MEMCACHED_AMPLIFICATION}"
  shows "(analyzer_ml_classify (Some a) (Some pkt) = Inr k \<longleftrightarrow>
      (\<exists>v s'. udp_protect_analyze cfg now pkt (Some u, g, st) = Inr (v, s') \<and> udp_glob s' = alarm k g)) \<and>
    (analyzer_ml_classify (Some a) (Some pkt) = Inr k \<longrightarrow>
      udp_protect_analyze cfg now pkt (Some u, g, st) =
        Inr (VERDICT_DROP, udp_count_drop (u\<lparr>total_udp_packets := total_udp_packets u + 1\<rparr>), alarm k g, count_attack k st))"
proof -
  have k: "k \<notin> {ATTACK_NONE, ATTACK_UDP_FLOOD, ATTACK_UDP_FRAGMENTATION}" using assms(2) by auto
  have drop: "udp_protect_analyze cfg now pkt (Some u, g, st) =
      Inr (VERDICT_DROP, udp_count_drop (u\<lparr>total_udp_packets := total_udp_packets u + 1\<rparr>), alarm k g, count_attack k st)"
    if "amplification_of pkt = Inr k"
    using that assms(1) k by (simp add: udp_protect_analyze_def Let_def)
  have "amplification_of pkt = Inr k"
    if r: "udp_protect_analyze cfg now pkt (Some u, g, st) = Inr (v, s')" "udp_glob s' = alarm k g" for v s'
    using udp_alarm [OF r(1) assms(1)] r(2) k by (auto simp: alarm_inject alarm_changes split: if_splits)
  then show ?thesis
    unfolding classify_amplification [OF assms] using drop by (auto simp: udp_glob_def)
qed

section \<open>A concrete analyzer\<close>

definition fresh_analyzer :: traffic_analyzer where
  "fresh_analyzer = the (analyzer_init True True True (True, True) (True, True) 0)"

definition fresh_world :: "traffic_analyzer option \<Rightarrow> stats_heap \<Rightarrow> analyzer_world" where
  "fresh_world ap h = \<lparr>aw_an = ap, aw_stats = h, aw_udp = Some udp_ctx0, aw_tcp = Some tcp_ctx0,
     aw_icmp = Some icmp_ctx0, aw_http = Some http_ctx0, aw_conns = Map.empty,
     aw_cache = Some empty_cache, aw_glob = zero_global_stats\<rparr>"

definition example_rep_env :: rep_env where
  "example_rep_env = \<lparr>re_time = 0, re_fresh = 9, re_now = 0, re_alloc = True\<rparr>"

definition example_analyzer_env :: analyzer_env where
  "example_analyzer_env = \<lparr>ae_stats_time = 0, ae_fresh = 5, ae_white_now = 0, ae_black_now = 0,
     ae_tcp = example_env 0 7, ae_http_now = 0, ae_rep = example_rep_env\<rparr>"

lemma fresh_analyzer_init:
  "analyzer_init True True True (True, True) (True, True) 0 = Some fresh_analyzer"
  by (simp add: fresh_analyzer_def analyzer_init_def)

theorem analyzer_accepts_everything_witness:
  "\<exists>w'. run_steps analyzer_process_packet [(example_analyzer_env, example_udp)] (fresh_world (Some fresh_analyzer) Map.empty) =
      ret ([VERDICT_ACCEPT], w') \<and> dom (aw_stats w') = {5}"
proof -
  have "table_empty (aw_an (fresh_world (Some fresh_analyzer) Map.empty))"
    using analyzer_init_empty [of True True True "(True, True)" "(True, True)" 0]
    by (simp add: fresh_analyzer_init fresh_world_def)
  moreover have "aw_an (fresh_world (Some fresh_analyzer) Map.empty) \<noteq> None" by (simp add: fresh_world_def)
  ultimately obtain w' where "run_steps analyzer_process_packet [(example_analyzer_env, example_udp)]
      (fresh_world (Some fresh_analyzer) Map.empty) = ret (replicate (length [(example_analyzer_env, example_udp)]) VERDICT_ACCEPT, w')"
    "dom (aw_stats w') = dom (aw_stats (fresh_world (Some fresh_analyzer) Map.empty)) \<union>
      (ae_fresh ` fst ` set [(example_analyzer_env, example_udp)] - {0})"
    using analyzer_accepts_everything by blast
  then show ?thesis by (auto simp: fresh_world_def example_analyzer_env_def)
qed

text \<open>An analyzer whose bucket 0 holds an entry for the zero address at 5.\<close>

definition filled_analyzer :: traffic_analyzer where
  "filled_analyzer = fresh_analyzer\<lparr>ip_table := (\<lambda>_. 0)(0 := 5)\<rparr>"

definition filled_heap :: stats_heap where
  "filled_heap = [5 \<mapsto> new_stats 0 zero_ip]"

lemma hash_zero [simp]: "unat (ip_stats_hash zero_ip) = 0"
  by (simp add: ip_stats_hash_def ip_hash_word_def zero_ip_def v6_word_def AF_INET_def upt_rec)

lemma filled_tracked: "tracked filled_heap filled_analyzer zero_ip 5 (new_stats 0 zero_ip)"
  by (simp add: tracked_def filled_analyzer_def filled_heap_def new_stats_def)

theorem analyzer_chain_never_ends_witness:
  "analyzer_get_ip_stats 0 8 filled_heap (Some filled_analyzer) \<lparr>family = AF_INET, ip_bits = 0\<rparr> = None \<and>
   analyzer_cleanup filled_heap (Some filled_analyzer) = fail DoubleFree"
proof -
  have "unat (ip_stats_hash \<lparr>family = AF_INET, ip_bits = 0\<rparr>) = 0"
    by (simp add: ip_stats_hash_def ip_hash_word_def s_addr_def bswap32_def be32_def)
  then show ?thesis
    using analyzer_chain_never_ends [of filled_analyzer "\<lparr>family = AF_INET, ip_bits = 0\<rparr>" 5 filled_heap
        "new_stats 0 zero_ip" 0 8]
    by (simp add: filled_analyzer_def filled_heap_def new_stats_def same_ip_def zero_ip_def AF_INET_def)
qed

text \<open>Six dropped packets take a new address from 50 down to 0 and then up to 100.\<close>

theorem reputation_follows_score_witness:
  "\<exists>h' a' st'. rep_run example_cfg zero_ip (replicate 6 (example_rep_env, -10)) filled_heap (Some filled_analyzer) =
      ret (h', Some a') \<and> tracked h' a' zero_ip 5 st' \<and> unat (reputation_score st') = 100 \<and> is_blacklisted st'"
proof -
  let ?ds = "replicate 6 (example_rep_env, -10 :: int)"
  have r: "unat (reputation_score (new_stats 0 zero_ip)) = 50" by (simp add: new_stats_def)
  have f: "fold score_next (map snd ?ds) 50 = 100" "fold score_next (map snd (take (Suc 4) ?ds)) 50 < 10"
    by (simp_all add: score_next_def numeral_eq_Suc)
  have "unat (reputation_score (new_stats 0 zero_ip)) \<le> 100" "\<forall>(env, d) \<in> set ?ds. d = 1 \<or> d = -10"
    using r by simp_all
  from reputation_follows_score [OF filled_tracked this, of example_cfg]
  obtain h' a' st' where "rep_run example_cfg zero_ip ?ds filled_heap (Some filled_analyzer) = ret (h', Some a')"
    "tracked h' a' zero_ip 5 st'" "unat (reputation_score st') = fold score_next (map snd ?ds) 50"
    and b: "is_blacklisted st' \<longleftrightarrow> is_blacklisted (new_stats 0 zero_ip) \<or>
       (\<exists>k < length ?ds. fold score_next (map snd (take (Suc k) ?ds)) 50 < 10)"
    unfolding r by blast
  moreover have "\<exists>k < length ?ds. fold score_next (map snd (take (Suc k) ?ds)) 50 < 10"
    using f(2) by (intro exI [of _ 4]) simp
  ultimately show ?thesis using f(1) by auto
qed

lemma fresh_sets:
  "ipset_contains_cidr now (an_whitelist filled_analyzer) ip = False"
  "ipset_contains_cidr now (an_blacklist filled_analyzer) ip = False"
proof -
  have "scan_cidr now ip (\<lambda>_. []) is = False" for "is" by (induction "is") simp_all
  then show "ipset_contains_cidr now (an_whitelist filled_analyzer) ip = False"
    "ipset_contains_cidr now (an_blacklist filled_analyzer) ip = False"
    by (simp_all add: filled_analyzer_def fresh_analyzer_def analyzer_init_def ipset_create_def
        ipset_contains_cidr_def)
qed

text \<open>A UDP packet of a known address is accepted by the UDP module and the address rewarded.\<close>

theorem analyzer_known_address_witness:
  "\<exists>w' a' st'. analyzer_process_packet example_analyzer_env example_udp (fresh_world (Some filled_analyzer) filled_heap) =
      ret (VERDICT_ACCEPT, w') \<and> tracked (aw_stats w') a' zero_ip 5 st' \<and> reputation_score st' = 51 \<and>
      aw_udp w' = Some (udp_ctx0\<lparr>total_udp_packets := 1\<rparr>)"
proof -
  let ?w = "fresh_world (Some filled_analyzer) filled_heap" and ?st = "new_stats 0 zero_ip"
  have w: "aw_an ?w = Some filled_analyzer" "aw_stats ?w = filled_heap" "aw_udp ?w = Some udp_ctx0" "aw_glob ?w = zero_global_stats"
    by (simp_all add: fresh_world_def)
  have src: "src_ip example_udp = zero_ip" "\<not> is_http example_udp" "protocol example_udp = PROTO_UDP"
    by (simp_all add: example_udp_def zero_packet_def)
  have t: "tracked (aw_stats ?w) filled_analyzer (src_ip example_udp) 5 ?st"
    by (simp add: w src filled_tracked)
  have env: "te_cfg (ae_tcp example_analyzer_env) = example_cfg" "te_now (ae_tcp example_analyzer_env) = 0"
    by (simp_all add: example_analyzer_env_def)
  have lu: "last_update ?st = 0" by (simp add: new_stats_def)
  have n: "PROTO_UDP \<noteq> PROTO_TCP" "PROTO_UDP \<noteq> PROTO_ICMP" by (simp_all add: proto_defs)
  have u: "udp_protect_analyze example_cfg 0 example_udp (Some udp_ctx0, zero_global_stats, ?st) =
      Inr (VERDICT_ACCEPT, Some (udp_ctx0\<lparr>total_udp_packets := 1\<rparr>), zero_global_stats, ?st\<lparr>udp_pps := udp_pps ?st + 1\<rparr>)"
    by (simp add: example_udp_analyze lu)
  let ?w1 = "?w\<lparr>aw_udp := Some (udp_ctx0\<lparr>total_udp_packets := 1\<rparr>), aw_glob := zero_global_stats\<rparr>"
  have m: "module_answer example_analyzer_env example_udp ?st ?w VERDICT_ACCEPT (?st\<lparr>udp_pps := udp_pps ?st + 1\<rparr>) ?w1"
    "http_answer example_analyzer_env example_udp (VERDICT_ACCEPT, ?st\<lparr>udp_pps := udp_pps ?st + 1\<rparr>, ?w1)
       (VERDICT_ACCEPT, ?st\<lparr>udp_pps := udp_pps ?st + 1\<rparr>, ?w1)"
    using u by (simp_all add: module_answer_def http_answer_def src env n w)
  from analyzer_known_address [OF w(1) t, of example_analyzer_env] fresh_sets [of _ "src_ip example_udp"]
  have all: "\<forall>v1 st1 w1 v st2 w2. module_answer example_analyzer_env example_udp ?st ?w v1 st1 w1 \<and>
        http_answer example_analyzer_env example_udp (v1, st1, w1) (v, st2, w2) \<longrightarrow>
      (\<exists>w'. analyzer_process_packet example_analyzer_env example_udp ?w = ret (v, w'))"
    and inv: "\<forall>v w'. analyzer_process_packet example_analyzer_env example_udp ?w = ret (v, w') \<longrightarrow>
        (\<exists>v1 st1 w1 st2 w2 st' a'. module_answer example_analyzer_env example_udp ?st ?w v1 st1 w1 \<and>
          http_answer example_analyzer_env example_udp (v1, st1, w1) (v, st2, w2) \<and>
          w' = w2\<lparr>aw_stats := (aw_stats ?w)(5 \<mapsto> st'), aw_an := Some a'\<rparr> \<and>
          tracked (aw_stats w') a' (src_ip example_udp) 5 st' \<and>
          settled example_analyzer_env (src_ip example_udp) v st2 filled_analyzer st' a' \<and>
          (\<not> is_http example_udp \<longrightarrow> reputation_score st2 = reputation_score ?st))"
    by blast+
  obtain w' where r: "analyzer_process_packet example_analyzer_env example_udp ?w = ret (VERDICT_ACCEPT, w')"
    using all m by blast
  then obtain v1 st1 w1 st2 w2 st' a' where s: "module_answer example_analyzer_env example_udp ?st ?w v1 st1 w1"
    "http_answer example_analyzer_env example_udp (v1, st1, w1) (VERDICT_ACCEPT, st2, w2)"
    "w' = w2\<lparr>aw_stats := (aw_stats ?w)(5 \<mapsto> st'), aw_an := Some a'\<rparr>" "tracked (aw_stats w') a' (src_ip example_udp) 5 st'"
    "settled example_analyzer_env (src_ip example_udp) VERDICT_ACCEPT st2 filled_analyzer st' a'"
    "reputation_score st2 = reputation_score ?st" using inv src(2) by blast
  have "w2 = w1" "aw_udp w1 = Some (udp_ctx0\<lparr>total_udp_packets := 1\<rparr>)"
    using s(1,2) u by (auto simp: module_answer_def http_answer_def src env w)
  then have "aw_udp w' = Some (udp_ctx0\<lparr>total_udp_packets := 1\<rparr>)" using s(3) by simp
  moreover have "reputation_score st' = 51"
    using s(5,6) by (simp add: settled_def rescored_def verdict_delta_def reputation_add_def new_stats_def)
  ultimately show ?thesis using r s(4) unfolding src by blast
qed

theorem training_learns_nothing_witness:
  "\<exists>a'. train_run Map.empty [1, 2] (Some fresh_analyzer) = ret (Some a') \<and>
     analyzer_is_anomaly (Some a') (Some (zero_pattern\<lparr>packet_size_avg := 1500\<rparr>)) = False"
proof -
  obtain a' where "train_run Map.empty [1, 2] (Some fresh_analyzer) = ret (Some a')"
    "\<forall>pattern. analyzer_is_anomaly (Some a') (Some pattern) \<longleftrightarrow> 2 < \<bar>entropy pattern\<bar>"
    using training_learns_nothing [OF fresh_analyzer_init, of Map.empty "[1, 2]"] by blast
  then show ?thesis by (auto simp: zero_pattern_def)
qed

text \<open>A 513-byte answer from port 53 with the QR bit set.\<close>

definition example_dns :: packet where
  "example_dns = zero_packet\<lparr>data := [0, 0, 0x80], payload := Some 0, payload_len := 513, pkt_len := 555,
     protocol := PROTO_UDP, src_port := 53\<rparr>"

theorem classify_agrees_udp_witness:
  "analyzer_ml_classify (Some fresh_analyzer) (Some example_dns) = Inr ATTACK_DNS_AMPLIFICATION \<and>
   (\<exists>s'. udp_protect_analyze example_cfg 0 example_dns (Some udp_ctx0, zero_global_stats, zero_ip_stats) = Inr (VERDICT_DROP, s'))"
proof -
  have p: "protocol example_dns = PROTO_UDP" by (simp add: example_dns_def)
  have "amplification_of example_dns = Inr ATTACK_DNS_AMPLIFICATION"
    by (simp add: amplification_of_def is_dns_amplification_def example_dns_def udp_ports hdr8_def)
  then have "analyzer_ml_classify (Some fresh_analyzer) (Some example_dns) = Inr ATTACK_DNS_AMPLIFICATION"
    by (subst classify_amplification [OF p]) simp_all
  with conjunct2 [OF classify_agrees_udp [OF p, of ATTACK_DNS_AMPLIFICATION fresh_analyzer example_cfg 0 udp_ctx0 zero_global_stats zero_ip_stats]]
  show ?thesis by blast
qed

end
