(* ===== verification/ParserProofs.thy ===== *)
theory ParserProofs
  imports PacketCapture
begin

text \<open>
  What \<open>packet_parse\<close> promises: no read outside the captured bytes under the conditions a
  well-formed frame meets, the inputs on which the code does read outside them, and the round
  trips from a built TCP or UDP frame to the parsed packet.
\<close>

section \<open>C string searches on a terminated buffer\<close>

lemma strn_eq_safe:
  "0 \<in> set mem \<Longrightarrow> 0 \<notin> set l \<Longrightarrow> \<exists>b. strn_eq mem l = Inr b \<and> (b \<longrightarrow> 0 \<in> set (drop (length l) mem))"
proof (induction mem l rule: strn_eq.induct)
  case (3 m ms l ls)
  then show ?case by (cases "m = l") auto
qed auto

lemma strchr_safe:
  "0 \<in> set mem \<Longrightarrow> c \<noteq> 0 \<Longrightarrow>
    \<exists>r. strchr_mem mem c = Inr r \<and> (\<forall>i. r = Some i \<longrightarrow> 0 \<in> set (drop (i + 1) mem))"
proof (induction mem c rule: strchr_mem.induct)
  case (2 m ms c)
  then show ?case by (cases "m = c"; cases "m = 0") auto
qed simp

lemma strstr_safe:
  "0 \<in> set mem \<Longrightarrow> 0 \<notin> set l \<Longrightarrow>
    \<exists>r. strstr_mem mem l = Inr r \<and> (\<forall>i. r = Some i \<longrightarrow> 0 \<in> set (drop (i + length l) mem))"
proof (induction mem l rule: strstr_mem.induct)
  case (2 m ms l)
  obtain b where b: "strn_eq (m # ms) l = Inr b" "b \<longrightarrow> 0 \<in> set (drop (length l) (m # ms))"
    using strn_eq_safe [OF "2.prems"] by blast
  show ?case
  proof (cases "b \<or> m = 0")
    case True
    with b show ?thesis by auto
  next
    case False
    then have "0 \<in> set ms" using "2.prems"(1) by auto
    from "2.IH" [OF b(1)] False this "2.prems"(2) b(1) show ?thesis by auto
  qed
qed simp

lemma skip_spaces_safe: "0 \<in> set mem \<Longrightarrow> \<exists>r. skip_spaces mem = Inr r \<and> 0 \<in> set r"
  by (induction mem) auto

lemma skip_blank_safe: "0 \<in> set mem \<Longrightarrow> \<exists>r. skip_blank mem = Inr r \<and> 0 \<in> set r \<and> r \<noteq> []"
proof (induction mem)
  case (Cons m ms)
  then show ?case by (cases "blank_byte m") (auto simp: blank_byte_def)
qed simp

lemma digits_mem_safe: "0 \<in> set mem \<Longrightarrow> \<exists>v. digits_mem acc mem = Inr v"
proof (induction mem arbitrary: acc)
  case (Cons m ms)
  then show ?case by (cases "m = 0") (auto simp: word_le_nat_alt)
qed simp

lemma atoi_mem_safe:
  assumes "0 \<in> set mem"
  shows "\<exists>v. atoi_mem mem = Inr v"
proof -
  obtain r where r: "skip_blank mem = Inr r" "0 \<in> set r" "r \<noteq> []"
    using skip_blank_safe [OF assms] by blast
  have tl: "0 \<in> set (tl r)" if "hd r \<noteq> 0" using r(2,3) that by (cases r) auto
  obtain v w where "digits_mem 0 r = Inr v" "hd r \<noteq> 0 \<Longrightarrow> digits_mem 0 (tl r) = Inr w"
    using digits_mem_safe [OF r(2)] digits_mem_safe [OF tl] by metis
  with r show ?thesis by (auto simp: atoi_mem_def)
qed

lemma lit_no_nul: "(\<forall>c \<in> set str. (of_char c :: nat) mod 256 \<noteq> 0) \<Longrightarrow> 0 \<notin> set (lit str)"
proof
  assume h: "\<forall>c \<in> set str. (of_char c :: nat) mod 256 \<noteq> 0" and "0 \<in> set (lit str)"
  then obtain c where c: "c \<in> set str" "byte_of c = 0" by (auto simp: lit_def)
  then have "unat (byte_of c) = 0" by simp
  then have "(of_char c :: nat) mod 256 = 0" by (simp add: byte_of_def unat_of_nat)
  then show False using h [rule_format, OF c(1)] by simp
qed

lemma length_lit [simp]: "length (lit str) = length str"
  by (simp add: lit_def)

lemma strstr_safe_lit:
  assumes "0 \<in> set mem" and "0 \<notin> set (lit str)" and "length str = n"
  shows "\<exists>r. strstr_mem mem (lit str) = Inr r \<and> (\<forall>i. r = Some i \<longrightarrow> 0 \<in> set (drop (i + n) mem))"
  using strstr_safe [OF assms(1,2)] assms(3) by simp

lemma find_method_safe:
  assumes z: "0 \<in> set mem"
  shows "\<forall>x \<in> set ps. 0 \<notin> set (lit (fst x)) \<Longrightarrow> \<exists>r. find_method mem ps = Inr r"
proof (induction ps)
  case (Cons x ps)
  obtain p m where x: "x = (p, m)" by (cases x)
  with Cons.prems have "0 \<notin> set (lit p)" by simp
  from strn_eq_safe [OF z this] obtain b where "strn_eq mem (lit p) = Inr b" by blast
  with Cons x show ?case by (cases b) simp_all
qed simp

lemma parse_http_safe:
  assumes "\<forall>off. payload pkt = Some off \<and> 16 \<le> payload_len pkt \<longrightarrow> 0 \<in> set (drop off (data pkt))"
  shows "\<exists>r p. parse_http pkt = Inr (r, p)"
proof (cases "payload pkt")
  case None
  then show ?thesis by (simp add: parse_http_def)
next
  case (Some off)
  let ?mem = "drop off (data pkt)"
  show ?thesis
  proof (cases "payload_len pkt < 16")
    case True
    with Some show ?thesis by (simp add: parse_http_def)
  next
    case False
    with Some assms have z: "0 \<in> set ?mem" by (simp add: not_less)
    have m: "\<exists>r. find_method ?mem http_methods = Inr r"
      using z by (intro find_method_safe) (auto simp: http_methods_def intro!: lit_no_nul)
    have uri: "\<exists>r. http_uri_of ?mem x = Inr r" for x
    proof -
      obtain r where r: "strchr_mem ?mem 0x20 = Inr r" "\<forall>i. r = Some i \<longrightarrow> 0 \<in> set (drop (i + 1) ?mem)"
        using strchr_safe [OF z, of "0x20"] by auto
      then show ?thesis
        using strchr_safe [of "drop (the r + 1) ?mem" "0x20"]
        by (cases r) (auto simp: http_uri_of_def Let_def split: option.split)
    qed
    have ua: "\<exists>r. http_ua_of ?mem x = Inr r" for x
    proof -
      have n: "0 \<notin> set (lit ''User-Agent:'')" by (rule lit_no_nul) simp
      obtain r where r: "strstr_mem ?mem (lit ''User-Agent:'') = Inr r"
        "\<forall>i. r = Some i \<longrightarrow> 0 \<in> set (drop (i + 11) ?mem)"
        using strstr_safe_lit [OF z n, of 11] by auto
      show ?thesis
      proof (cases r)
        case (Some i)
        then obtain u where u: "skip_spaces (drop (i + 11) ?mem) = Inr u" "0 \<in> set u"
          using r(2) skip_spaces_safe by blast
        with strstr_safe [of u "[0x0D, 0x0A]"] r(1) Some show ?thesis
          by (auto simp: http_ua_of_def split: option.split)
      qed (use r(1) in \<open>simp add: http_ua_of_def\<close>)
    qed
    have cl: "\<exists>r. http_cl_of ?mem x = Inr r" for x
    proof -
      have n: "0 \<notin> set (lit ''Content-Length:'')" by (rule lit_no_nul) simp
      obtain r where r: "strstr_mem ?mem (lit ''Content-Length:'') = Inr r"
        "\<forall>i. r = Some i \<longrightarrow> 0 \<in> set (drop (i + 15) ?mem)"
        using strstr_safe_lit [OF z n, of 15] by auto
      show ?thesis
      proof (cases r)
        case (Some i)
        with r(2) obtain v where "atoi_mem (drop (i + 15) ?mem) = Inr v" using atoi_mem_safe by blast
        with r(1) Some show ?thesis by (simp add: http_cl_of_def)
      qed (use r(1) in \<open>simp add: http_cl_of_def\<close>)
    qed
    obtain m' where m': "find_method ?mem http_methods = Inr m'" using m by blast
    from uri [of "http_uri pkt"] ua [of "http_user_agent pkt"] cl [of "http_content_length pkt"]
    show ?thesis using m' Some False by (auto simp: parse_http_def Let_def split: option.split)
  qed
qed

section \<open>Reads inside the frame\<close>

text \<open>
  The lengths in a frame's own IP header agree with the number of captured bytes: the condition
  the parser would have to check, and does not.
\<close>

definition lengths_agree :: "u8 list \<Rightarrow> bool" where
  "lengths_agree buf \<longleftrightarrow>
     (let v = drop_bit 4 (buf ! 14) AND 0x0F in
       (v = 4 \<longrightarrow> 4 * unat (buf ! 14 AND 0x0F) \<le> unat (be16 (buf ! 16) (buf ! 17)) \<and>
                14 + unat (be16 (buf ! 16) (buf ! 17)) \<le> length buf) \<and>
       (v = 6 \<longrightarrow> 54 + unat (be16 (buf ! 18) (buf ! 19)) \<le> length buf))"

lemma low_nibble: "unat (b AND 0x0F :: u8) < 16"
proof -
  have "b AND 0x0F = take_bit 4 b" by (simp add: take_bit_eq_mask mask_eq_exp_minus_1 and.commute)
  then have "unat (b AND 0x0F) = take_bit 4 (unat b)" by (simp add: unsigned_take_bit_eq)
  then show ?thesis by (simp add: take_bit_nat_def)
qed

lemma unat_ihl: "unat (4 * ucast (b AND 0x0F :: u8) :: u32) = 4 * unat (b AND 0x0F)"
proof -
  have "unat (ucast (b AND 0x0F) :: u32) = unat (b AND 0x0F)"
    using low_nibble [of b] by (simp add: unsigned_ucast_eq take_bit_nat_eq_self)
  then show ?thesis using low_nibble [of b] by (simp add: unat_word_ariths(2))
qed

lemma unat_ucast_16: "unat (ucast (w :: u16) :: u32) = unat w"
proof -
  have "unat w < 2 ^ LENGTH(16)" by (rule unsigned_less)
  then show ?thesis by (simp add: unsigned_ucast_eq take_bit_nat_eq_self)
qed

text \<open>What \<open>parse_ip\<close> leaves behind when it succeeds on a frame whose lengths agree.\<close>

definition in_frame :: "packet \<Rightarrow> bool" where
  "in_frame p \<longleftrightarrow> (\<exists>t. transport_header p = Some t \<and> t + unat (transport_len p) \<le> length (data p)) \<and>
     payload p = None"

lemma parse_ip_in_frame:
  assumes buf: "data pkt = buf" "pkt_len pkt = of_nat (length buf)" "length buf < 2 ^ 32"
    and eth: "eth_len pkt = 14" and pl: "payload pkt = None" and ok: "lengths_agree buf"
  shows "\<exists>r p. parse_ip pkt = Inr (r, p) \<and> (r = 0 \<longrightarrow> in_frame p \<and> data p = buf)"
proof (cases "length buf < 34")
  case True
  then have "unat (pkt_len pkt) < 34" using buf by (simp add: unat_of_nat)
  then show ?thesis using eth by (simp add: parse_ip_def hdr_lens)
next
  case False
  let ?v = "drop_bit 4 (buf ! 14) AND 0x0F"
  have len: "\<not> unat (pkt_len pkt) < 34" using buf False by (simp add: unat_of_nat)
  consider "?v = 4" | "?v = 6" | "?v \<noteq> 4" "?v \<noteq> 6" by blast
  then show ?thesis
  proof cases
    case 1
    let ?ihl = "unat (buf ! 14 AND 0x0F)" and ?tot = "be16 (buf ! 16) (buf ! 17)"
    have le: "4 * ?ihl \<le> unat ?tot" "14 + unat ?tot \<le> length buf"
      using ok 1 by (simp_all add: lengths_agree_def Let_def)
    have "(4 * ucast (buf ! 14 AND 0x0F) :: u32) \<le> ucast ?tot"
      using le(1) by (simp add: word_le_nat_alt unat_ihl unat_ucast_16)
    then have "unat (ucast ?tot - 4 * ucast (buf ! 14 AND 0x0F) :: u32) = unat ?tot - 4 * ?ihl"
      by (simp add: unat_sub unat_ihl unat_ucast_16)
    with 1 le len False eth buf pl show ?thesis
      by (simp add: parse_ip_def hdr_lens parse_ip4_def Let_def in_frame_def unat_ihl)
  next
    case 2
    have le: "54 + unat (be16 (buf ! 18) (buf ! 19)) \<le> length buf"
      using ok 2 by (simp add: lengths_agree_def Let_def)
    with 2 len False eth buf pl show ?thesis
      by (simp add: parse_ip_def hdr_lens parse_ip6_def Let_def in_frame_def rd_bytes_def unat_ucast_16)
  next
    case 3
    with len False eth buf show ?thesis by (simp add: parse_ip_def hdr_lens Let_def)
  qed
qed

lemma parse_tcp_in_frame:
  assumes "in_frame p"
  shows "\<exists>r q. parse_tcp p = Inr (r, q) \<and> data q = data p \<and>
    (\<forall>off. payload q = Some off \<longrightarrow> off + unat (payload_len q) \<le> length (data q))"
proof -
  obtain t where t: "transport_header p = Some t" "t + unat (transport_len p) \<le> length (data p)"
    and pl: "payload p = None" using assms by (auto simp: in_frame_def)
  have sub: "unat (transport_len p - x) = unat (transport_len p) - unat x" if "\<not> transport_len p < x" for x
    using that by (simp add: unat_sub not_less)
  show ?thesis
    using t pl sub
    by (auto simp: parse_tcp_def hdr_lens hdr_defs Let_def not_less word_le_nat_alt word_less_nat_alt)
qed

lemma parse_transport_in_frame:
  assumes "in_frame p" and last: "last (data p) = 0"
  shows "\<exists>q. parse_transport p = Inr q"
proof -
  obtain t where t: "transport_header p = Some t" "t + unat (transport_len p) \<le> length (data p)"
    using assms by (auto simp: in_frame_def)
  obtain r q where q: "parse_tcp p = Inr (r, q)" "data q = data p"
    "\<forall>off. payload q = Some off \<longrightarrow> off + unat (payload_len q) \<le> length (data q)"
    using parse_tcp_in_frame [OF assms(1)] by blast
  have "\<forall>off. payload q = Some off \<and> 16 \<le> payload_len q \<longrightarrow> 0 \<in> set (drop off (data q))"
  proof (intro allI impI)
    fix off assume h: "payload q = Some off \<and> 16 \<le> payload_len q"
    then have "16 \<le> unat (payload_len q)" by (simp add: word_le_nat_alt)
    then have "off < length (data q)" using q(3) h by fastforce
    then have "last (drop off (data q)) = 0" "drop off (data q) \<noteq> []" using last q(2) by auto
    then show "0 \<in> set (drop off (data q))" by (metis last_in_set)
  qed
  from parse_http_safe [OF this] obtain r' q' where "parse_http q = Inr (r', q')" by blast
  with q(1) t show ?thesis
    by (auto simp: parse_transport_def parse_udp_def parse_icmp_def hdr_lens hdr_defs not_less)
qed

text \<open>C8: on a frame whose IP length fields agree with the number of captured bytes and whose last
  byte is a NUL (which ends the text searches of \<open>parse_http\<close>), parsing never reads outside the
  captured bytes and never dereferences a null pointer, whatever the other bytes are.\<close>

theorem packet_parse_in_bounds:
  assumes "length buf < 2 ^ 32" and "34 \<le> length buf \<Longrightarrow> lengths_agree buf" and "last buf = 0"
  shows "\<exists>r p. packet_parse zero_packet buf (of_nat (length buf)) ts = Inr (r, p)"
proof (cases "length buf < 34")
  case True
  then have "unat (of_nat (length buf) :: u32) < 34" by (simp add: unat_of_nat)
  then show ?thesis
    by (auto simp: packet_parse_def parse_ethernet_def hdr_lens Let_def parse_ip_def)
next
  case False
  define pkt where "pkt = zero_packet\<lparr>data := buf, pkt_len := of_nat (length buf), timestamp := ts,
    eth_header := Some 0, eth_len := 14\<rparr>"
  have len: "\<not> unat (of_nat (length buf) :: u32) < 14" "(of_nat (length buf) :: u32) \<noteq> 0"
    using False assms(1) by (auto simp: unat_of_nat dest: arg_cong [where f = unat])
  have "parse_ethernet (zero_packet\<lparr>data := buf, pkt_len := of_nat (length buf), timestamp := ts\<rparr>) = (0, pkt)"
    using len by (simp add: parse_ethernet_def hdr_lens pkt_def)
  moreover obtain r p where rp: "parse_ip pkt = Inr (r, p)" "r = 0 \<longrightarrow> in_frame p \<and> data p = buf"
    using parse_ip_in_frame [of pkt buf] assms(1,2) False by (auto simp: pkt_def zero_packet_def)
  moreover obtain q where "r = 0 \<Longrightarrow> parse_transport p = Inr q"
    using parse_transport_in_frame [of p] rp(2) assms(3) by fastforce
  ultimately show ?thesis
    using len by (cases "r = 0") (auto simp: packet_parse_def Let_def)
qed

section \<open>Reads outside the frame\<close>

text \<open>\<open>parse_ip\<close> asks for 34 captured bytes whatever the IP version, but reads the 40 bytes of
  an IPv6 header: every captured frame of 34 to 53 bytes whose version nibble is 6 makes it read
  past the end of the capture.\<close>

theorem parse_ip_short_ipv6_overread:
  assumes "34 \<le> length buf" and "length buf < 54" and "drop_bit 4 (buf ! 14) AND 0x0F = 6"
  shows "packet_parse zero_packet buf (of_nat (length buf)) ts = Inl OutOfBounds"
proof -
  have u: "unat (of_nat (length buf) :: u32) = length buf" using assms(2) by (simp add: unat_of_nat)
  have ne: "(of_nat (length buf) :: u32) \<noteq> 0" using u assms(1) by (metis not_numeral_le_zero unsigned_0)
  let ?pkt = "zero_packet\<lparr>data := buf, pkt_len := of_nat (length buf), timestamp := ts\<rparr>"
  have e: "parse_ethernet ?pkt = (0, ?pkt\<lparr>eth_header := Some 0, eth_len := 14\<rparr>)"
    using u assms(1) by (simp add: parse_ethernet_def hdr_lens)
  have "\<exists>x. rd_bytes buf 22 16 = Inr x \<or> rd_bytes buf 22 16 = Inl OutOfBounds"
    by (simp add: rd_bytes_def)
  then have "parse_ip (?pkt\<lparr>eth_header := Some 0, eth_len := 14\<rparr>) = Inl OutOfBounds"
    using u assms by (simp add: parse_ip_def hdr_lens parse_ip6_def Let_def rd_bytes_def)
  with e ne show ?thesis by (simp add: packet_parse_def Let_def)
qed

theorem parse_ip_short_ipv6_overread_witness:
  "34 \<le> length (replicate 14 0 @ 0x60 # replicate 25 (0 :: u8)) \<and>
   packet_parse zero_packet (replicate 14 0 @ 0x60 # replicate 25 0)
     (of_nat (length (replicate 14 0 @ 0x60 # replicate 25 (0 :: u8)))) 0 = Inl OutOfBounds"
  using parse_ip_short_ipv6_overread [of "replicate 14 0 @ 0x60 # replicate 25 (0 :: u8)" 0]
  by (simp add: nth_append)

lemma strn_eq_Inl: "strn_eq mem l = Inl f \<Longrightarrow> f = OutOfBounds"
  by (induction mem l rule: strn_eq.induct) (auto split: if_splits)

lemma strn_eq_True: "strn_eq mem l = Inr True \<Longrightarrow> take (length l) mem = l"
  by (induction mem l rule: strn_eq.induct) (auto split: if_splits)

lemma strchr_Inl: "strchr_mem mem c = Inl f \<Longrightarrow> f = OutOfBounds"
  by (induction mem c rule: strchr_mem.induct) (auto simp: bindR_Inl_iff split: if_splits)

lemma strstr_Inl: "strstr_mem mem l = Inl f \<Longrightarrow> f = OutOfBounds"
proof (induction mem l rule: strstr_mem.induct)
  case (2 m ms l)
  then show ?case
    by (cases "strn_eq (m # ms) l") (auto simp: bindR_Inl_iff dest: strn_eq_Inl split: if_splits)
qed simp

lemma strstr_overread:
  "0 \<notin> set mem \<Longrightarrow> \<forall>i. take (length l) (drop i mem) \<noteq> l \<Longrightarrow> strstr_mem mem l = Inl OutOfBounds"
proof (induction mem l rule: strstr_mem.induct)
  case (2 m ms l)
  have tl: "\<forall>i. take (length l) (drop i ms) \<noteq> l"
    using "2.prems"(2) by (metis drop_Suc_Cons)
  show ?case
  proof (cases "strn_eq (m # ms) l")
    case (Inl f)
    then show ?thesis using strn_eq_Inl by simp
  next
    case (Inr b)
    have "\<not> b" using strn_eq_True [of "m # ms" l] Inr "2.prems"(2) [rule_format, of 0] by auto
    with 2 Inr tl show ?thesis by simp
  qed
qed simp

lemma skip_spaces_Inl: "skip_spaces mem = Inl f \<Longrightarrow> f = OutOfBounds"
  by (induction mem) (auto split: if_splits)

lemma http_uri_Inl: "http_uri_of mem x = Inl f \<Longrightarrow> f = OutOfBounds"
  by (auto simp: http_uri_of_def Let_def bindR_Inl_iff split: option.splits dest: strchr_Inl)

lemma http_ua_Inl: "http_ua_of mem x = Inl f \<Longrightarrow> f = OutOfBounds"
  by (auto simp: http_ua_of_def bindR_Inl_iff split: option.splits dest: strstr_Inl skip_spaces_Inl)

lemma fifteen: "length ''Content-Length:'' = 15"
  by simp

text \<open>The captured payload is not a C string. For every request that \<open>parse_http\<close> recognises
  and whose captured payload holds no NUL byte and no \<open>Content-Length:\<close> header (an ordinary GET),
  its \<open>strstr\<close> for that header reads past the end of the capture.\<close>

theorem parse_http_overread:
  assumes "payload pkt = Some off" and "16 \<le> payload_len pkt"
    and "find_method (drop off (data pkt)) http_methods = Inr (Some m)"
    and "0 \<notin> set (drop off (data pkt))"
    and "\<forall>i. take 15 (drop i (drop off (data pkt))) \<noteq> lit ''Content-Length:''"
  shows "parse_http pkt = Inl OutOfBounds"
proof -
  let ?mem = "drop off (data pkt)"
  have "strstr_mem ?mem (lit ''Content-Length:'') = Inl OutOfBounds"
    using strstr_overread [OF assms(4), of "lit ''Content-Length:''"] assms(5)
    by (simp only: length_lit fifteen) simp
  then have cl: "http_cl_of ?mem x = Inl OutOfBounds" for x by (simp add: http_cl_of_def)
  show ?thesis
    using assms(1-3) http_uri_Inl [of ?mem "http_uri pkt"] http_ua_Inl [of ?mem "http_user_agent pkt"] cl
    by (cases "http_uri_of ?mem (http_uri pkt)"; cases "http_ua_of ?mem (http_user_agent pkt)")
      (simp_all add: parse_http_def Let_def not_less)
qed

definition example_get :: packet where
  "example_get = zero_packet\<lparr>data := lit ''GET / HTTP/1.1.'' @ [0x0D, 0x0A], payload := Some 0, payload_len := 17\<rparr>"

theorem parse_http_overread_witness: "parse_http example_get = Inl OutOfBounds"
proof (rule parse_http_overread [where m = "''GET''" and off = 0])
  show "find_method (drop 0 (data example_get)) http_methods = Inr (Some ''GET'')"
    by (simp add: example_get_def lit_def byte_of_def http_methods_def)
  show "0 \<notin> set (drop 0 (data example_get))"
    by (simp add: example_get_def lit_def byte_of_def)
  have "0x2D \<notin> set (data example_get)" "0x2D \<in> set (lit ''Content-Length:'')"
    by (simp_all add: example_get_def lit_def byte_of_def)
  then show "\<forall>i. take 15 (drop i (drop 0 (data example_get))) \<noteq> lit ''Content-Length:''"
    by (metis in_set_dropD in_set_takeD)
qed (simp_all add: example_get_def)

section \<open>Lengths that contradict each other\<close>

text \<open>When an IPv4 header claims to be longer than the whole datagram (\<open>ihl * 4 > tot_len\<close>),
  \<open>parse_ip\<close> succeeds with a transport length that has wrapped around to almost \<open>2^32\<close>, and the
  later \<open>packet_is_malformed\<close> does not object as long as both lengths are at least 20 and the
  datagram fits the capture.\<close>

theorem ip_header_longer_than_datagram:
  assumes "length buf < 2 ^ 32" and "data pkt = buf" and "pkt_len pkt = of_nat (length buf)"
    and "eth_len pkt = 14" and "drop_bit 4 (buf ! 14) AND 0x0F = 4"
    and "20 \<le> unat (be16 (buf ! 16) (buf ! 17))"
    and "unat (be16 (buf ! 16) (buf ! 17)) < 4 * unat (buf ! 14 AND 0x0F)"
    and "14 + unat (be16 (buf ! 16) (buf ! 17)) \<le> length buf"
  shows "\<exists>p. parse_ip pkt = Inr (0, p) \<and>
    unat (transport_len p) = 2 ^ 32 + unat (be16 (buf ! 16) (buf ! 17)) - 4 * unat (buf ! 14 AND 0x0F) \<and>
    packet_is_malformed p = Inr False"
proof -
  let ?ihl = "unat (buf ! 14 AND 0x0F)" and ?tot = "be16 (buf ! 16) (buf ! 17)"
  let ?w = "ucast ?tot - 4 * ucast (buf ! 14 AND 0x0F) :: u32"
  have len: "unat (pkt_len pkt) = length buf" using assms by (simp add: unat_of_nat)
  have ihl: "?ihl < 16" by (rule low_nibble)
  have w: "unat ?w = 2 ^ 32 + unat ?tot - 4 * ?ihl"
    using assms(7) by (simp add: unat_sub_if' unat_ihl unat_ucast_16)
  have sub: "unat (pkt_len pkt - 14) = length buf - 14"
    using len assms(6,8) by (simp add: unat_sub word_le_nat_alt)
  have big: "20 \<le> unat (4 * ucast (buf ! 14 AND 0x0F) :: u32)" using assms(6,7) by (simp add: unat_ihl)
  show ?thesis
    using assms len w sub big
    by (simp add: parse_ip_def hdr_lens parse_ip4_def Let_def packet_is_malformed_def hdr_defs
        word_less_nat_alt unat_ucast_16 unat_ihl)
qed

definition long_header_frame :: "u8 list" where
  "long_header_frame = replicate 14 0 @ [0x4F, 0, 0, 20] @ replicate 20 0"

theorem ip_header_longer_than_datagram_witness:
  "\<exists>p. parse_ip (zero_packet\<lparr>data := long_header_frame, pkt_len := 38, eth_len := 14\<rparr>) = Inr (0, p) \<and>
       unat (transport_len p) = 2 ^ 32 - 40 \<and> packet_is_malformed p = Inr False"
proof -
  have b: "be16 0 20 = 20" by (simp add: be16_def)
  show ?thesis
    using ip_header_longer_than_datagram [of long_header_frame
        "zero_packet\<lparr>data := long_header_frame, pkt_len := 38, eth_len := 14\<rparr>"]
    by (simp add: long_header_frame_def nth_append b)
qed

section \<open>Frames as a sender builds them\<close>

text \<open>
  The specification side of parsing: a standard Ethernet/IPv4 frame (20-byte IP header) and TCP and
  UDP segments, from the field values of their headers.
\<close>

definition ip4_frame :: "u8 list \<Rightarrow> u8 \<Rightarrow> u32 \<Rightarrow> u32 \<Rightarrow> u8 list \<Rightarrow> u8 list" where
  "ip4_frame eth proto src dst body =
     eth @ [0x45, 0] @ bytes16 (of_nat (20 + length body)) @ [0, 0, 0, 0, 64, proto, 0, 0] @
     bytes32 src @ bytes32 dst @ body"

definition tcp_segment :: "u16 \<Rightarrow> u16 \<Rightarrow> u32 \<Rightarrow> u32 \<Rightarrow> u8 \<Rightarrow> u8 list \<Rightarrow> u8 list" where
  "tcp_segment sport dport seq ack flags pay =
     bytes16 sport @ bytes16 dport @ bytes32 seq @ bytes32 ack @ [0x50, flags, 0, 0, 0, 0, 0, 0] @ pay"

definition udp_segment :: "u16 \<Rightarrow> u16 \<Rightarrow> u8 list \<Rightarrow> u8 list" where
  "udp_segment sport dport pay =
     bytes16 sport @ bytes16 dport @ bytes16 (of_nat (8 + length pay)) @ [0, 0] @ pay"

lemma if_or: "(if c then f OR k else f) = f OR (if c then k else (0 :: u8))"
  by simp

lemma bit_if_0: "bit (if c then k else (0 :: u8)) n \<longleftrightarrow> c \<and> bit k n"
  by simp

lemma flags_of_eq: "flags_of b = b AND 0x3F"
proof (rule bit_word_eqI)
  fix n assume "n < LENGTH(8)"
  then consider "n = 0" | "n = 1" | "n = 2" | "n = 3" | "n = 4" | "n = 5" | "n = 6" | "n = 7"
    by fastforce
  then show "bit (flags_of b) n = bit (b AND 0x3F) n"
    unfolding flags_of_def Let_def if_or bit_or_iff bit_and_iff bit_if_0 tcp_flag_defs
    by cases (simp_all add: bit_numeral_rec)
qed

lemma length_ip4_frame: "length (ip4_frame eth proto src dst body) = length eth + 20 + length body"
  by (simp add: ip4_frame_def)

lemma ip4_nth:
  assumes "length eth = 14"
  shows "ip4_frame eth proto src dst body ! 14 = 0x45"
    and "ip4_frame eth proto src dst body ! 16 = ucast (drop_bit 8 (of_nat (20 + length body) :: u16))"
    and "ip4_frame eth proto src dst body ! 17 = ucast (of_nat (20 + length body) :: u16)"
    and "ip4_frame eth proto src dst body ! 23 = proto"
    and "ip4_frame eth proto src dst body ! 26 = ucast (drop_bit 24 src)"
    and "ip4_frame eth proto src dst body ! 27 = ucast (drop_bit 16 src)"
    and "ip4_frame eth proto src dst body ! 28 = ucast (drop_bit 8 src)"
    and "ip4_frame eth proto src dst body ! 29 = ucast src"
    and "ip4_frame eth proto src dst body ! 30 = ucast (drop_bit 24 dst)"
    and "ip4_frame eth proto src dst body ! 31 = ucast (drop_bit 16 dst)"
    and "ip4_frame eth proto src dst body ! 32 = ucast (drop_bit 8 dst)"
    and "ip4_frame eth proto src dst body ! 33 = ucast dst"
    and "n < length body \<Longrightarrow> ip4_frame eth proto src dst body ! (34 + n) = body ! n"
  using assms by (simp_all add: ip4_frame_def bytes16_def bytes32_def nth_append)

text \<open>The packet after the IP header of such a frame.\<close>

definition after_ip4 :: "u8 list \<Rightarrow> time_t \<Rightarrow> u8 \<Rightarrow> u32 \<Rightarrow> u32 \<Rightarrow> u8 list \<Rightarrow> packet" where
  "after_ip4 eth ts proto src dst body = zero_packet\<lparr>
     data := ip4_frame eth proto src dst body,
     pkt_len := of_nat (34 + length body), timestamp := ts,
     eth_header := Some 0, eth_len := 14, ip_header := Some 14,
     is_ipv4 := True, is_ipv6 := False, protocol := proto, ip_len := 20,
     src_ip := \<lparr>family = AF_INET, ip_bits = ucast (bswap32 src)\<rparr>,
     dst_ip := \<lparr>family = AF_INET, ip_bits = ucast (bswap32 dst)\<rparr>,
     transport_header := Some 34, transport_len := of_nat (length body)\<rparr>"

lemma packet_parse_ip4:
  assumes eth: "length eth = 14" and body: "20 + length body < 65536"
  shows "packet_parse zero_packet (ip4_frame eth proto src dst body) (of_nat (34 + length body)) ts =
    bindR (parse_transport (after_ip4 eth ts proto src dst body)) (\<lambda>p. Inr (0, p))"
proof -
  let ?f = "ip4_frame eth proto src dst body"
  have u: "unat (34 + of_nat (length body) :: u32) = 34 + length body"
    using unat_of_nat [where 'a = 32, of "34 + length body"] body by simp
  then have ne: "(34 + of_nat (length body) :: u32) \<noteq> 0" by (metis unsigned_0 add_is_0 zero_neq_numeral)
  have v: "drop_bit 4 (0x45 :: u8) AND 0x0F = 4" "(0x45 :: u8) AND 0x0F = 5" by simp_all
  have t: "ucast (of_nat (20 + length body) :: u16) - (20 :: u32) = of_nat (length body)"
  proof -
    have "unat (of_nat (20 + length body) :: u16) = 20 + length body"
      using body by (simp only: unat_of_nat) simp
    moreover have "unat (of_nat (20 + length body) :: u32) = 20 + length body"
      using body by (simp only: unat_of_nat) simp
    ultimately have "ucast (of_nat (20 + length body) :: u16) = (of_nat (20 + length body) :: u32)"
      by (simp only: word_unat_eq_iff unat_ucast_16)
    then show ?thesis by simp
  qed
  let ?p = "zero_packet\<lparr>data := ?f, pkt_len := of_nat (34 + length body), timestamp := ts\<rparr>"
  have e: "parse_ethernet ?p = (0, ?p\<lparr>eth_header := Some 0, eth_len := 14\<rparr>)"
    using u by (simp add: parse_ethernet_def hdr_lens)
  have "parse_ip (?p\<lparr>eth_header := Some 0, eth_len := 14\<rparr>) = Inr (0, after_ip4 eth ts proto src dst body)"
    using u eth t
    by (simp add: parse_ip_def hdr_lens parse_ip4_def Let_def length_ip4_frame ip4_nth v after_ip4_def
        set_v4_def zero_packet_def zero_ip_def)
  with e ne show ?thesis by (simp add: packet_parse_def Let_def)
qed


lemma frame_body_nth:
  "length eth = 14 \<Longrightarrow> n < length body \<Longrightarrow> data (after_ip4 eth ts proto src dst body) ! (34 + n) = body ! n"
  by (simp add: after_ip4_def ip4_nth)

lemma frame_len: "length eth = 14 \<Longrightarrow> length (data (after_ip4 eth ts proto src dst body)) = 34 + length body"
  by (simp add: after_ip4_def length_ip4_frame)

lemma hdr_in_body:
  assumes "length eth = 14"
  shows "n < length body \<Longrightarrow> hdr8 (after_ip4 eth ts proto src dst body) (Some 34) n = Inr (body ! n)"
    and "n + 1 < length body \<Longrightarrow> hdr16 (after_ip4 eth ts proto src dst body) (Some 34) n =
        Inr (be16 (body ! n) (body ! (n + 1)))"
    and "n + 3 < length body \<Longrightarrow> hdr32 (after_ip4 eth ts proto src dst body) (Some 34) n =
        Inr (be32 (body ! n) (body ! (n + 1)) (body ! (n + 2)) (body ! (n + 3)))"
proof -
  note nth = frame_body_nth [OF assms]
  show "n < length body \<Longrightarrow> hdr8 (after_ip4 eth ts proto src dst body) (Some 34) n = Inr (body ! n)"
    by (simp add: hdr_defs frame_len [OF assms] nth)
  show "n + 1 < length body \<Longrightarrow> hdr16 (after_ip4 eth ts proto src dst body) (Some 34) n =
      Inr (be16 (body ! n) (body ! (n + 1)))"
    using nth [of n body] nth [of "n + 1" body]
    by (simp add: hdr_defs frame_len [OF assms])
  show "n + 3 < length body \<Longrightarrow> hdr32 (after_ip4 eth ts proto src dst body) (Some 34) n =
      Inr (be32 (body ! n) (body ! (n + 1)) (body ! (n + 2)) (body ! (n + 3)))"
    using nth [of n body] nth [of "n + 1" body] nth [of "n + 2" body] nth [of "n + 3" body]
    by (simp add: hdr_defs frame_len [OF assms])
qed

lemma tcp_seg_nth:
  "tcp_segment sport dport seq ack flags pay ! 0 = ucast (drop_bit 8 sport)"
  "tcp_segment sport dport seq ack flags pay ! 1 = ucast sport"
  "tcp_segment sport dport seq ack flags pay ! 2 = ucast (drop_bit 8 dport)"
  "tcp_segment sport dport seq ack flags pay ! 3 = ucast dport"
  "tcp_segment sport dport seq ack flags pay ! 4 = ucast (drop_bit 24 seq)"
  "tcp_segment sport dport seq ack flags pay ! 5 = ucast (drop_bit 16 seq)"
  "tcp_segment sport dport seq ack flags pay ! 6 = ucast (drop_bit 8 seq)"
  "tcp_segment sport dport seq ack flags pay ! 7 = ucast seq"
  "tcp_segment sport dport seq ack flags pay ! 8 = ucast (drop_bit 24 ack)"
  "tcp_segment sport dport seq ack flags pay ! 9 = ucast (drop_bit 16 ack)"
  "tcp_segment sport dport seq ack flags pay ! 10 = ucast (drop_bit 8 ack)"
  "tcp_segment sport dport seq ack flags pay ! 11 = ucast ack"
  "tcp_segment sport dport seq ack flags pay ! 12 = 0x50"
  "tcp_segment sport dport seq ack flags pay ! 13 = flags"
  by (simp_all add: tcp_segment_def bytes16_def bytes32_def nth_append)

lemma length_tcp_segment: "length (tcp_segment sport dport seq ack flags pay) = 20 + length pay"
  by (simp add: tcp_segment_def)

lemma parse_tcp_segment:
  assumes eth: "length eth = 14" and len: "40 + length pay < 65536"
  shows "parse_tcp (after_ip4 eth ts proto src dst (tcp_segment sport dport seq ack flags pay)) =
    Inr (0, (after_ip4 eth ts proto src dst (tcp_segment sport dport seq ack flags pay))\<lparr>
      src_port := sport, dst_port := dport, tcp_seq := seq, tcp_ack := ack,
      tcp_flags := flags AND 0x3F, payload := Some 54, payload_len := of_nat (length pay)\<rparr>)"
proof -
  let ?p = "after_ip4 eth ts proto src dst (tcp_segment sport dport seq ack flags pay)"
  have th: "transport_header ?p = Some 34" "transport_len ?p = 20 + of_nat (length pay)"
    by (simp_all add: after_ip4_def length_tcp_segment)
  have u: "unat (20 + of_nat (length pay) :: u32) = 20 + length pay"
    using unat_of_nat [where 'a = 32, of "20 + length pay"] len by simp
  have d: "drop_bit 4 (0x50 :: u8) = 5" by simp
  note h = hdr_in_body [OF eth, where body = "tcp_segment sport dport seq ack flags pay"]
  have h': "hdr16 ?p (Some 34) 0 = Inr sport" "hdr16 ?p (Some 34) 2 = Inr dport"
    "hdr32 ?p (Some 34) 4 = Inr seq" "hdr32 ?p (Some 34) 8 = Inr ack"
    "hdr8 ?p (Some 34) 13 = Inr flags" "hdr8 ?p (Some 34) 12 = Inr 0x50"
    by (simp_all add: h length_tcp_segment tcp_seg_nth tcp_seg_nth [unfolded One_nat_def])
  have "\<not> transport_len ?p < 20" using th u by (simp add: word_less_nat_alt)
  with th u show ?thesis by (simp add: parse_tcp_def hdr_lens h' d flags_of_eq)
qed

text \<open>C9: parsing undoes building. A captured standard IPv4 frame with a TCP segment (ports other
  than the HTTP ones) parses to exactly its addresses, ports, sequence and acknowledgement numbers
  and its six flag bits, and the payload pointer and length delimit the segment's payload.\<close>

theorem packet_parse_tcp_roundtrip:
  assumes eth: "length eth = 14" and len: "40 + length pay < 65536"
    and port: "{sport, dport} \<inter> {80, 8080} = {}"
  shows "\<exists>p. packet_parse zero_packet
        (ip4_frame eth PROTO_TCP src dst (tcp_segment sport dport seq ack flags pay))
        (of_nat (54 + length pay)) ts = Inr (0, p) \<and>
      protocol p = PROTO_TCP \<and>
      src_ip p = \<lparr>family = AF_INET, ip_bits = ucast (bswap32 src)\<rparr> \<and>
      dst_ip p = \<lparr>family = AF_INET, ip_bits = ucast (bswap32 dst)\<rparr> \<and>
      src_port p = sport \<and> dst_port p = dport \<and> tcp_seq p = seq \<and> tcp_ack p = ack \<and>
      tcp_flags p = flags AND 0x3F \<and> \<not> is_http p \<and>
      payload p = Some 54 \<and> payload_len p = of_nat (length pay) \<and> drop 54 (data p) = pay"
proof -
  let ?seg = "tcp_segment sport dport seq ack flags pay"
  let ?p = "after_ip4 eth ts PROTO_TCP src dst ?seg"
  let ?q = "?p\<lparr>src_port := sport, dst_port := dport, tcp_seq := seq, tcp_ack := ack,
      tcp_flags := flags AND 0x3F, payload := Some 54, payload_len := of_nat (length pay)\<rparr>"
  have "drop 54 (ip4_frame eth PROTO_TCP src dst ?seg) = pay"
    using eth by (simp add: ip4_frame_def tcp_segment_def bytes16_def bytes32_def)
  then have d: "drop 54 (data ?q) = pay" by (simp add: after_ip4_def)
  have np: "\<not> http_port ?q" using port by (simp add: http_port_def)
  have "protocol ?p = PROTO_TCP" by (simp add: after_ip4_def)
  then have tr: "parse_transport ?p = Inr ?q"
    using np by (simp add: parse_transport_def parse_tcp_segment [OF eth len])
  have "packet_parse zero_packet (ip4_frame eth PROTO_TCP src dst ?seg) (of_nat (54 + length pay)) ts = Inr (0, ?q)"
    using packet_parse_ip4 [OF eth, of ?seg PROTO_TCP src dst ts] len tr by (simp add: length_tcp_segment)
  moreover have "protocol ?q = PROTO_TCP" "src_ip ?q = \<lparr>family = AF_INET, ip_bits = ucast (bswap32 src)\<rparr>"
    "dst_ip ?q = \<lparr>family = AF_INET, ip_bits = ucast (bswap32 dst)\<rparr>" "\<not> is_http ?q"
    by (simp_all add: after_ip4_def zero_packet_def)
  ultimately show ?thesis using d by (intro exI [of _ ?q] conjI) simp_all
qed

theorem packet_parse_tcp_roundtrip_witness:
  "\<exists>p. packet_parse zero_packet
        (ip4_frame (replicate 14 0) PROTO_TCP 0xC0000201 0x0A000001 (tcp_segment 1234 443 7 9 0x12 [1, 2]))
        (of_nat (54 + length [1 :: u8, 2])) 0 = Inr (0, p) \<and> src_port p = 1234 \<and> tcp_flags p = 0x12"
  using packet_parse_tcp_roundtrip [of "replicate 14 0" "[1, 2]" 1234 443 "0xC0000201" "0x0A000001" 7 9 "0x12" 0]
  by auto

lemma udp_seg_nth:
  "udp_segment sport dport pay ! 0 = ucast (drop_bit 8 sport)"
  "udp_segment sport dport pay ! 1 = ucast sport"
  "udp_segment sport dport pay ! 2 = ucast (drop_bit 8 dport)"
  "udp_segment sport dport pay ! 3 = ucast dport"
  by (simp_all add: udp_segment_def bytes16_def nth_append)

lemma length_udp_segment: "length (udp_segment sport dport pay) = 8 + length pay"
  by (simp add: udp_segment_def)

text \<open>The same for UDP, on every port: addresses, ports and payload come back.\<close>

theorem packet_parse_udp_roundtrip:
  assumes eth: "length eth = 14" and len: "28 + length pay < 65536"
  shows "\<exists>p. packet_parse zero_packet
        (ip4_frame eth PROTO_UDP src dst (udp_segment sport dport pay))
        (of_nat (42 + length pay)) ts = Inr (0, p) \<and>
      protocol p = PROTO_UDP \<and>
      src_ip p = \<lparr>family = AF_INET, ip_bits = ucast (bswap32 src)\<rparr> \<and>
      dst_ip p = \<lparr>family = AF_INET, ip_bits = ucast (bswap32 dst)\<rparr> \<and>
      src_port p = sport \<and> dst_port p = dport \<and> \<not> is_http p \<and>
      payload p = Some 42 \<and> payload_len p = of_nat (length pay) \<and> drop 42 (data p) = pay"
proof -
  let ?seg = "udp_segment sport dport pay" and ?p = "after_ip4 eth ts PROTO_UDP src dst (udp_segment sport dport pay)"
  have d: "drop 42 (ip4_frame eth PROTO_UDP src dst ?seg) = pay"
    using eth by (simp add: ip4_frame_def udp_segment_def bytes16_def bytes32_def)
  have th: "transport_header ?p = Some 34" "transport_len ?p = 8 + of_nat (length pay)"
    by (simp_all add: after_ip4_def length_udp_segment)
  have u: "unat (8 + of_nat (length pay) :: u32) = 8 + length pay"
    using unat_of_nat [where 'a = 32, of "8 + length pay"] len by simp
  have h: "hdr16 ?p (Some 34) 0 = Inr sport" "hdr16 ?p (Some 34) 2 = Inr dport"
    by (simp_all add: hdr_in_body [OF eth] length_udp_segment udp_seg_nth udp_seg_nth [unfolded One_nat_def])
  show ?thesis
    using packet_parse_ip4 [OF eth, of ?seg PROTO_UDP src dst ts] len d th u h
    by (simp add: length_udp_segment parse_transport_def parse_udp_def hdr_lens)
      (simp add: after_ip4_def zero_packet_def proto_defs)
qed

theorem packet_parse_udp_roundtrip_witness:
  "\<exists>p. packet_parse zero_packet
        (ip4_frame (replicate 14 0) PROTO_UDP 0xC0000201 0x0A000001 (udp_segment 53 4000 [7]))
        (of_nat (42 + length [7 :: u8])) 0 = Inr (0, p) \<and> src_port p = 53 \<and> payload_len p = 1"
  using packet_parse_udp_roundtrip [of "replicate 14 0" "[7]" "0xC0000201" "0x0A000001" 53 4000 0]
  by auto

text \<open>A GET request on port 80 whose last captured byte is NUL, and what the bounds theorem says of it.\<close>

definition get_frame :: "u8 list" where
  "get_frame = ip4_frame (replicate 14 0) PROTO_TCP 0xC0000201 0x0A000001
     (tcp_segment 1234 80 7 9 0x18 (lit ''GET / HTTP/1.1'' @ [0x0D, 0x0A, 0x0D, 0x0A, 0]))"

theorem packet_parse_in_bounds_witness:
  "length get_frame = 73 \<and> (\<exists>r p. packet_parse zero_packet get_frame 73 7 = Inr (r, p))"
proof -
  have len: "length get_frame = 73"
    by (simp add: get_frame_def ip4_frame_def tcp_segment_def lit_def)
  have "last get_frame = 0" by (simp add: get_frame_def ip4_frame_def tcp_segment_def)
  moreover have "lengths_agree get_frame" by code_simp
  ultimately show ?thesis using packet_parse_in_bounds [of get_frame 7] len by simp
qed

end
