(* ===== verification/RateLimit.thy ===== *)
theory RateLimit
  imports DDoS_Types BucketTable
begin

text \<open>
  \<open>src/filter/ratelimit.c\<close>: sliding windows (a ring of per-second counters) and the rate limiter
  that keeps two of them per address. The entries of a bucket are chained through the field that
  also holds the packet window, so the heap is typed: an object is an entry or a window, and using
  one as the other is the fault \<open>BadType\<close>. A window's counter array is part of its object.
\<close>

section \<open>Sliding windows\<close>

record sliding_window =
  sw_buckets :: "u64 list"
  sw_size :: u32
  sw_current_idx :: u32
  sw_window_start :: time_t

definition new_window :: "u32 \<Rightarrow> time_t \<Rightarrow> sliding_window" where
  "new_window n now = \<lparr>sw_buckets = replicate (unat n) 0, sw_size = n, sw_current_idx = 0, sw_window_start = now\<rparr>"

text \<open>Writes to \<open>sw->buckets[i]\<close>.\<close>

definition put_bucket :: "nat \<Rightarrow> (u64 \<Rightarrow> u64) \<Rightarrow> sliding_window \<Rightarrow> sliding_window result" where
  "put_bucket i f sw =
     (if i < length (sw_buckets sw) then Inr (sw\<lparr>sw_buckets := (sw_buckets sw)[i := f (sw_buckets sw ! i)]\<rparr>)
      else Inl OutOfBounds)"

fun sw_advance :: "nat \<Rightarrow> sliding_window \<Rightarrow> sliding_window result" where
  "sw_advance 0 sw = Inr sw"
| "sw_advance (Suc n) sw =
     (if sw_size sw = 0 then Inl DivByZero
      else
        (let i = (sw_current_idx sw + 1) mod sw_size sw
         in bindR (put_bucket (unat i) (\<lambda>_. 0) (sw\<lparr>sw_current_idx := i\<rparr>)) (sw_advance n)))"

definition sliding_window_add :: "sliding_window \<Rightarrow> u64 \<Rightarrow> time_t \<Rightarrow> sliding_window result" where
  "sliding_window_add sw v now =
     (let diff = now - sw_window_start sw
      in if int (unat (sw_size sw)) \<le> diff then
           put_bucket 0 (\<lambda>_. v)
             (sw\<lparr>sw_buckets := map (\<lambda>_. 0) (sw_buckets sw), sw_current_idx := 0, sw_window_start := now\<rparr>)
         else if 0 < diff then
           bindR (sw_advance (nat diff) sw) (\<lambda>sw.
             put_bucket (unat (sw_current_idx sw)) (\<lambda>b. b + v) (sw\<lparr>sw_window_start := now\<rparr>))
         else put_bucket (unat (sw_current_idx sw)) (\<lambda>b. b + v) sw)"

fun sum_buckets :: "u64 list \<Rightarrow> nat \<Rightarrow> nat \<Rightarrow> u64 \<Rightarrow> u64 result" where
  "sum_buckets bs i 0 acc = Inr acc"
| "sum_buckets bs i (Suc n) acc =
     (if i < length bs then sum_buckets bs (i + 1) n (acc + bs ! i) else Inl OutOfBounds)"

definition sliding_window_sum :: "sliding_window \<Rightarrow> time_t \<Rightarrow> u64 result" where
  "sliding_window_sum sw now =
     (if int (unat (sw_size sw)) \<le> now - sw_window_start sw then Inr 0
      else sum_buckets (sw_buckets sw) 0 (unat (sw_size sw)) 0)"

section \<open>Objects\<close>

record rate_limit_entry =
  rl_ip :: ip_addr
  rl_pps_window :: nat
  rl_bps_window :: nat
  rl_last_update :: time_t
  rl_total_packets :: u64
  rl_total_bytes :: u64

datatype rl_obj = RL_Entry rate_limit_entry | RL_Window sliding_window

type_synonym rl_heap = "nat \<rightharpoonup> rl_obj"

definition rl_entry :: "rl_heap \<Rightarrow> nat \<Rightarrow> rate_limit_entry run" where
  "rl_entry h p = (if p = 0 then fail NullDeref
     else case h p of None \<Rightarrow> fail UseAfterFree | Some (RL_Entry e) \<Rightarrow> ret e | Some (RL_Window _) \<Rightarrow> fail BadType)"

definition rl_window :: "rl_heap \<Rightarrow> nat \<Rightarrow> sliding_window run" where
  "rl_window h p = (if p = 0 then fail NullDeref
     else case h p of None \<Rightarrow> fail UseAfterFree | Some (RL_Window w) \<Rightarrow> ret w | Some (RL_Entry _) \<Rightarrow> fail BadType)"

text \<open>The window functions as the limiter calls them, on pointers; a \<open>NULL\<close> window is skipped.\<close>

definition sliding_window_create :: "nat \<Rightarrow> bool \<Rightarrow> time_t \<Rightarrow> rl_heap \<Rightarrow> u32 \<Rightarrow> nat \<times> rl_heap" where
  "sliding_window_create fresh buckets_ok now h n =
     (if fresh = 0 then (0, h)
      else if \<not> buckets_ok then (0, h)
      else (fresh, h(fresh \<mapsto> RL_Window (new_window n now))))"

definition sliding_window_destroy :: "rl_heap \<Rightarrow> nat \<Rightarrow> rl_heap run" where
  "sliding_window_destroy h p =
     (if p = 0 then ret h else bindM (rl_window h p) (\<lambda>_. ret (h(p := None))))"

definition window_add :: "rl_heap \<Rightarrow> nat \<Rightarrow> u64 \<Rightarrow> time_t \<Rightarrow> rl_heap run" where
  "window_add h p v now =
     (if p = 0 then ret h
      else bindM (rl_window h p) (\<lambda>w. bindM (Some (sliding_window_add w v now)) (\<lambda>w. ret (h(p \<mapsto> RL_Window w)))))"

definition window_sum :: "rl_heap \<Rightarrow> nat \<Rightarrow> time_t \<Rightarrow> u64 run" where
  "window_sum h p now =
     (if p = 0 then ret 0 else bindM (rl_window h p) (\<lambda>w. Some (sliding_window_sum w now)))"

section \<open>The limiter\<close>

record rate_limiter =
  rl_buckets :: "nat \<Rightarrow> nat"
  max_pps :: u32
  max_bps :: u32
  window_size :: u32

definition RATE_LIMIT_BUCKETS :: u32 where "RATE_LIMIT_BUCKETS = 65536"

definition rate_limiter_create :: "bool \<Rightarrow> bool \<Rightarrow> bool \<Rightarrow> u32 \<Rightarrow> u32 \<Rightarrow> u32 \<Rightarrow> rate_limiter option" where
  "rate_limiter_create rl_ok buckets_ok locks_ok pps bps n =
     (if \<not> rl_ok then None
      else if \<not> buckets_ok then None
      else if \<not> locks_ok then None
      else Some \<lparr>rl_buckets = (\<lambda>_. 0), max_pps = pps, max_bps = bps, window_size = n\<rparr>)"

text \<open>The release loop keeps the freed pointer as the next one: \<open>next = (rate_limit_entry_t *)entry\<close>.\<close>

partial_function (option) entries_free :: "rl_heap \<Rightarrow> nat \<Rightarrow> rl_heap run" where
  "entries_free h p =
     (if p = 0 then ret h
      else bindM (rl_entry h p) (\<lambda>e.
           bindM (sliding_window_destroy h (rl_pps_window e)) (\<lambda>h.
           bindM (sliding_window_destroy h (rl_bps_window e)) (\<lambda>h.
             entries_free (h(p := None)) p))))"

fun free_entry_table :: "rl_heap \<Rightarrow> (nat \<Rightarrow> nat) \<Rightarrow> nat list \<Rightarrow> rl_heap run" where
  "free_entry_table h tab [] = ret h"
| "free_entry_table h tab (i # is) = bindM (entries_free h (tab i)) (\<lambda>h. free_entry_table h tab is)"

definition rate_limiter_destroy :: "rl_heap \<Rightarrow> rate_limiter option \<Rightarrow> rl_heap run" where
  "rate_limiter_destroy h rp =
     (case rp of None \<Rightarrow> ret h
      | Some rl \<Rightarrow> free_entry_table h (rl_buckets rl) [0..<unat RATE_LIMIT_BUCKETS])"

definition ip_hash_simple :: "ip_addr \<Rightarrow> u32" where
  "ip_hash_simple ip = ip_hash_word ip mod RATE_LIMIT_BUCKETS"

partial_function (option) find_entry :: "rl_heap \<Rightarrow> nat \<Rightarrow> ip_addr \<Rightarrow> nat run" where
  "find_entry h p ip =
     (if p = 0 then ret 0
      else bindM (rl_entry h p) (\<lambda>e.
        if ip_addr_compare (rl_ip e) ip = 0 then ret p else find_entry h (rl_pps_window e) ip))"

text \<open>What the allocator and the clock answer \<open>get_or_create_entry\<close>.\<close>

record rl_alloc =
  ra_entry :: nat
  ra_pps :: nat
  ra_pps_buckets :: bool
  ra_bps :: nat
  ra_bps_buckets :: bool
  ra_pps_time :: time_t
  ra_bps_time :: time_t
  ra_now :: time_t

definition get_or_create_entry ::
    "rl_alloc \<Rightarrow> rl_heap \<Rightarrow> rate_limiter \<Rightarrow> ip_addr \<Rightarrow> nat \<Rightarrow> (nat \<times> rl_heap \<times> rate_limiter) run" where
  "get_or_create_entry al h rl ip i =
     bindM (find_entry h (rl_buckets rl i) ip) (\<lambda>p.
       if p \<noteq> 0 then ret (p, h, rl)
       else if ra_entry al = 0 then ret (0, h, rl)
       else
         (let (pw, h) = sliding_window_create (ra_pps al) (ra_pps_buckets al) (ra_pps_time al) h (window_size rl);
              (bw, h) = sliding_window_create (ra_bps al) (ra_bps_buckets al) (ra_bps_time al) h (window_size rl)
          in if pw = 0 \<or> bw = 0 then
               bindM (sliding_window_destroy h pw) (\<lambda>h.
               bindM (sliding_window_destroy h bw) (\<lambda>h. ret (0, h, rl)))
             else
               ret (ra_entry al,
                    h(ra_entry al \<mapsto> RL_Entry \<lparr>rl_ip = ip, rl_pps_window = rl_buckets rl i, rl_bps_window = bw,
                        rl_last_update = ra_now al, rl_total_packets = 0, rl_total_bytes = 0\<rparr>),
                    rl\<lparr>rl_buckets := (rl_buckets rl)(i := ra_entry al)\<rparr>)))"

definition div_window :: "u64 \<Rightarrow> u32 \<Rightarrow> u64 run" where
  "div_window s n = (if n = 0 then fail DivByZero else ret (s div ucast n))"

definition rate_limiter_allow ::
    "rl_alloc \<Rightarrow> time_t \<Rightarrow> rl_heap \<Rightarrow> rate_limiter option \<Rightarrow> ip_addr \<Rightarrow> u32 \<Rightarrow>
      (bool \<times> rl_heap \<times> rate_limiter option) run" where
  "rate_limiter_allow al now h rp ip packet_size =
     (case rp of
        None \<Rightarrow> ret (True, h, None)
      | Some rl \<Rightarrow>
          bindM (get_or_create_entry al h rl ip (unat (ip_hash_simple ip))) (\<lambda>(p, h, rl).
            if p = 0 then ret (True, h, Some rl)
            else
              bindM (rl_entry h p) (\<lambda>e.
              bindM (window_add h (rl_pps_window e) 1 now) (\<lambda>h.
              bindM (window_add h (rl_bps_window e) (ucast packet_size) now) (\<lambda>h.
              (let h = h(p \<mapsto> RL_Entry (e\<lparr>rl_total_packets := rl_total_packets e + 1,
                          rl_total_bytes := rl_total_bytes e + ucast packet_size, rl_last_update := now\<rparr>))
               in bindM (bindM (window_sum h (rl_pps_window e) now) (\<lambda>s. div_window s (window_size rl))) (\<lambda>current_pps.
                  bindM (bindM (window_sum h (rl_bps_window e) now) (\<lambda>s. div_window s (window_size rl))) (\<lambda>current_bps.
                    ret (current_pps \<le> ucast (max_pps rl) \<and> current_bps \<le> ucast (max_bps rl), h, Some rl)))))))))"

definition rate_limiter_update :: "rate_limiter option \<Rightarrow> time_t \<Rightarrow> rate_limiter option" where
  "rate_limiter_update rp now = rp"

partial_function (option) rate_of ::
    "(rate_limit_entry \<Rightarrow> nat) \<Rightarrow> u32 \<Rightarrow> time_t \<Rightarrow> rl_heap \<Rightarrow> nat \<Rightarrow> ip_addr \<Rightarrow> u64 run" where
  "rate_of win n now h p ip =
     (if p = 0 then ret 0
      else bindM (rl_entry h p) (\<lambda>e.
        if ip_addr_compare (rl_ip e) ip = 0 then
          bindM (window_sum h (win e) now) (\<lambda>s. div_window s n)
        else rate_of win n now h (rl_pps_window e) ip))"

definition rate_limiter_get_pps :: "time_t \<Rightarrow> rl_heap \<Rightarrow> rate_limiter option \<Rightarrow> ip_addr \<Rightarrow> u64 run" where
  "rate_limiter_get_pps now h rp ip =
     (case rp of None \<Rightarrow> ret 0
      | Some rl \<Rightarrow> rate_of rl_pps_window (window_size rl) now h (rl_buckets rl (unat (ip_hash_simple ip))) ip)"

definition rate_limiter_get_bps :: "time_t \<Rightarrow> rl_heap \<Rightarrow> rate_limiter option \<Rightarrow> ip_addr \<Rightarrow> u64 run" where
  "rate_limiter_get_bps now h rp ip =
     (case rp of None \<Rightarrow> ret 0
      | Some rl \<Rightarrow> rate_of rl_bps_window (window_size rl) now h (rl_buckets rl (unat (ip_hash_simple ip))) ip)"

text \<open>The unlink loop of \<open>rate_limiter_reset\<close>; it answers the new heap and the new head of the chain.\<close>

partial_function (option) reset_chain ::
    "rl_heap \<Rightarrow> nat \<Rightarrow> nat \<Rightarrow> nat \<Rightarrow> ip_addr \<Rightarrow> (rl_heap \<times> nat) run" where
  "reset_chain h head prev p ip =
     (if p = 0 then ret (h, head)
      else bindM (rl_entry h p) (\<lambda>e.
        if ip_addr_compare (rl_ip e) ip = 0 then
          bindM (if prev \<noteq> 0
                 then bindM (rl_entry h prev) (\<lambda>pe. ret (h(prev \<mapsto> RL_Entry (pe\<lparr>rl_pps_window := rl_pps_window e\<rparr>)), head))
                 else ret (h, rl_pps_window e)) (\<lambda>(h, head).
          bindM (sliding_window_destroy h (rl_pps_window e)) (\<lambda>h.
          bindM (sliding_window_destroy h (rl_bps_window e)) (\<lambda>h.
            ret (h(p := None), head))))
        else reset_chain h head p (rl_pps_window e) ip))"

definition rate_limiter_reset ::
    "rl_heap \<Rightarrow> rate_limiter option \<Rightarrow> ip_addr \<Rightarrow> (rl_heap \<times> rate_limiter option) run" where
  "rate_limiter_reset h rp ip =
     (case rp of None \<Rightarrow> ret (h, None)
      | Some rl \<Rightarrow>
          (let i = unat (ip_hash_simple ip)
           in bindM (reset_chain h (rl_buckets rl i) 0 (rl_buckets rl i) ip) (\<lambda>(h, head).
                ret (h, Some (rl\<lparr>rl_buckets := (rl_buckets rl)(i := head)\<rparr>)))))"

end
