(* ===== verification/RateLimitProofs.thy ===== *)
theory RateLimitProofs
  imports RateLimit
begin

text \<open>
  The ring of a sliding window refines the history of what was added to it; from that, what the
  limiter decides for an address, and what its overloaded chain pointer does to the rest.
\<close>

section \<open>The ring as a history\<close>

text \<open>Index of the bucket for \<open>k\<close> seconds ago, in a ring of \<open>n\<close> buckets whose current one is \<open>i\<close>.\<close>

definition ring :: "nat \<Rightarrow> nat \<Rightarrow> nat \<Rightarrow> nat" where
  "ring n i k = (if k \<le> i then i - k else i + n - k)"

lemma ring_less: "i < n \<Longrightarrow> k < n \<Longrightarrow> ring n i k < n"
  by (auto simp: ring_def)

lemma ring_ring: "i < n \<Longrightarrow> k < n \<Longrightarrow> ring n i (ring n i k) = k"
  by (auto simp: ring_def)

lemma ring_0 [simp]: "ring n i 0 = i"
  by (simp add: ring_def)

lemma ring_inj: "i < n \<Longrightarrow> k < n \<Longrightarrow> j < n \<Longrightarrow> ring n i k = ring n i j \<longleftrightarrow> k = j"
  by (auto simp: ring_def split: if_splits)

lemma ring_Suc: "i < n \<Longrightarrow> Suc k < n \<Longrightarrow> ring n (Suc i mod n) (Suc k) = ring n i k"
  by (cases "Suc i = n") (auto simp: ring_def)

text \<open>The window holds \<open>f t\<close> for each of the last \<open>n\<close> seconds up to \<open>w\<close>.\<close>

definition holds_at :: "sliding_window \<Rightarrow> time_t \<Rightarrow> (time_t \<Rightarrow> u64) \<Rightarrow> bool" where
  "holds_at sw w f \<longleftrightarrow>
     (let n = unat (sw_size sw); i = unat (sw_current_idx sw)
      in length (sw_buckets sw) = n \<and> i < n \<and> (\<forall>k<n. sw_buckets sw ! ring n i k = f (w - int k)))"

definition win_rep :: "sliding_window \<Rightarrow> (time_t \<Rightarrow> u64) \<Rightarrow> bool" where
  "win_rep sw f \<longleftrightarrow> holds_at sw (sw_window_start sw) f \<and> (\<forall>t > sw_window_start sw. f t = 0)"

lemma unat_next_idx:
  assumes "unat i < unat (n :: u32)"
  shows "unat ((i + 1) mod n) = Suc (unat i) mod unat n"
proof -
  have "i < n" using assms by (simp add: word_less_nat_alt)
  from unat_inc_less [OF this] show ?thesis by (simp add: unat_mod)
qed

lemma advance_one:
  assumes "holds_at sw w f" and "f (w + 1) = 0"
  shows "\<exists>sw'. put_bucket (unat ((sw_current_idx sw + 1) mod sw_size sw)) (\<lambda>_. 0)
      (sw\<lparr>sw_current_idx := (sw_current_idx sw + 1) mod sw_size sw\<rparr>) = Inr sw' \<and>
    holds_at sw' (w + 1) f \<and> sw_size sw' = sw_size sw"
proof -
  let ?n = "unat (sw_size sw)" and ?i = "unat (sw_current_idx sw)" and ?j = "unat ((sw_current_idx sw + 1) mod sw_size sw)"
  have h: "length (sw_buckets sw) = ?n" "?i < ?n" "\<And>k. k < ?n \<Longrightarrow> sw_buckets sw ! ring ?n ?i k = f (w - int k)"
    using assms(1) by (auto simp: holds_at_def Let_def)
  have j: "?j = Suc ?i mod ?n" by (rule unat_next_idx [OF h(2)])
  have jn: "?j < ?n" unfolding j using h(2) by simp
  let ?sw = "sw\<lparr>sw_current_idx := (sw_current_idx sw + 1) mod sw_size sw, sw_buckets := (sw_buckets sw)[?j := 0]\<rparr>"
  have "sw_buckets ?sw ! ring ?n ?j k = f (w + 1 - int k)" if k: "k < ?n" for k
  proof (cases k)
    case 0
    then show ?thesis using jn h(1) assms(2) by simp
  next
    case (Suc m)
    then have "ring ?n ?j k \<noteq> ?j" using ring_inj [OF jn k, of 0] k by simp
    moreover have "ring ?n ?j k = ring ?n ?i m" unfolding j Suc using h(2) k Suc by (intro ring_Suc) simp_all
    ultimately show ?thesis using h(3) [of m] k Suc by simp
  qed
  then have "holds_at ?sw (w + 1) f" using h(1) jn by (simp add: holds_at_def Let_def)
  then show ?thesis using jn h(1) by (intro exI [of _ ?sw]) (simp add: put_bucket_def)
qed

lemma advance_many:
  assumes "holds_at sw w f" and "\<forall>t > w. f t = 0"
  shows "\<exists>sw'. sw_advance d sw = Inr sw' \<and> holds_at sw' (w + int d) f \<and> sw_size sw' = sw_size sw"
  using assms
proof (induction d arbitrary: sw w)
  case (Suc d)
  obtain sw1 where s1: "put_bucket (unat ((sw_current_idx sw + 1) mod sw_size sw)) (\<lambda>_. 0)
      (sw\<lparr>sw_current_idx := (sw_current_idx sw + 1) mod sw_size sw\<rparr>) = Inr sw1"
    "holds_at sw1 (w + 1) f" "sw_size sw1 = sw_size sw"
    using advance_one [OF Suc.prems(1)] Suc.prems(2) by auto
  obtain sw' where s2: "sw_advance d sw1 = Inr sw'" "holds_at sw' (w + 1 + int d) f" "sw_size sw' = sw_size sw1"
    using Suc.IH [OF s1(2)] Suc.prems(2) by auto
  have "sw_size sw \<noteq> 0" using Suc.prems(1) by (auto simp: holds_at_def Let_def)
  with s1 s2 show ?case by (auto simp: Let_def algebra_simps)
qed simp

lemma put_current:
  assumes "holds_at sw w f"
  shows "\<exists>sw'. put_bucket (unat (sw_current_idx sw)) (\<lambda>b. b + v) (sw\<lparr>sw_window_start := t\<rparr>) = Inr sw' \<and>
    holds_at sw' w (f(w := f w + v)) \<and> sw_size sw' = sw_size sw \<and> sw_window_start sw' = t"
proof -
  let ?n = "unat (sw_size sw)" and ?i = "unat (sw_current_idx sw)"
  have h: "length (sw_buckets sw) = ?n" "?i < ?n" "\<And>k. k < ?n \<Longrightarrow> sw_buckets sw ! ring ?n ?i k = f (w - int k)"
    using assms by (auto simp: holds_at_def Let_def)
  let ?sw = "sw\<lparr>sw_window_start := t, sw_buckets := (sw_buckets sw)[?i := sw_buckets sw ! ?i + v]\<rparr>"
  have "sw_buckets ?sw ! ring ?n ?i k = (f(w := f w + v)) (w - int k)" if k: "k < ?n" for k
  proof (cases k)
    case 0
    then show ?thesis using h(1,2) h(3) [OF k] by simp
  next
    case (Suc m)
    then have "ring ?n ?i k \<noteq> ?i" using ring_inj [OF h(2) k, of 0] k by simp
    then show ?thesis using h(3) [OF k] Suc by simp
  qed
  then have "holds_at ?sw w (f(w := f w + v))" using h by (simp add: holds_at_def Let_def)
  then show ?thesis using h by (intro exI [of _ ?sw]) (simp add: put_bucket_def)
qed

lemma sliding_window_add_rep:
  assumes "win_rep sw f"
  shows "\<exists>sw'. sliding_window_add sw v now = Inr sw' \<and> sw_window_start sw' = max (sw_window_start sw) now \<and>
    win_rep sw' (f(max (sw_window_start sw) now := f (max (sw_window_start sw) now) + v)) \<and> sw_size sw' = sw_size sw"
proof -
  let ?n = "unat (sw_size sw)" and ?ws = "sw_window_start sw"
  have h: "holds_at sw ?ws f" and z: "\<And>t. t > ?ws \<Longrightarrow> f t = 0" using assms by (auto simp: win_rep_def)
  have n: "length (sw_buckets sw) = ?n" "0 < ?n" using h by (auto simp: holds_at_def Let_def)
  consider (reset) "int ?n \<le> now - ?ws" | (advance) "now - ?ws < int ?n" "0 < now - ?ws" | (same) "now \<le> ?ws" by linarith
  then show ?thesis
  proof cases
    case reset
    let ?sw = "sw\<lparr>sw_buckets := (map (\<lambda>_. 0) (sw_buckets sw))[0 := v], sw_current_idx := 0, sw_window_start := now\<rparr>"
    have "sw_buckets ?sw ! ring ?n 0 k = (f(now := f now + v)) (now - int k)" if "k < ?n" for k
    proof (cases k)
      case 0
      then show ?thesis using n z [of now] reset by simp
    next
      case (Suc m)
      have "int k < int ?n" using that by (simp only: of_nat_less_iff)
      then have "f (now - int k) = 0" using reset by (intro z) linarith
      then show ?thesis using n that Suc by (simp add: ring_def)
    qed
    moreover have "?ws < now" using reset n(2) by linarith
    then have "f now = 0" "\<forall>t>now. f t = 0" using z by simp_all
    ultimately have "win_rep ?sw (f(now := f now + v))"
      using n by (simp add: win_rep_def holds_at_def Let_def)
    moreover have "sliding_window_add sw v now = Inr ?sw"
      using reset n by (simp add: sliding_window_add_def Let_def put_bucket_def)
    moreover have "max ?ws now = now" using reset n(2) by (intro max_absorb2) linarith
    ultimately show ?thesis by (intro exI [of _ ?sw]) simp
  next
    case advance
    then have m: "?ws + int (nat (now - ?ws)) = now" "max ?ws now = now" by simp_all
    obtain sw1 where s1: "sw_advance (nat (now - ?ws)) sw = Inr sw1" "holds_at sw1 now f" "sw_size sw1 = sw_size sw"
      using advance_many [OF h, of "nat (now - ?ws)"] z m(1) by auto
    obtain sw' where s2: "put_bucket (unat (sw_current_idx sw1)) (\<lambda>b. b + v) (sw1\<lparr>sw_window_start := now\<rparr>) = Inr sw'"
      "holds_at sw' now (f(now := f now + v))" "sw_size sw' = sw_size sw1" "sw_window_start sw' = now"
      using put_current [OF s1(2)] by blast
    have "sliding_window_add sw v now = Inr sw'"
      using advance s1(1) s2(1) by (simp add: sliding_window_add_def Let_def)
    moreover have "win_rep sw' (f(now := f now + v))" using s2 z advance by (simp add: win_rep_def)
    ultimately show ?thesis using s1 s2 m by auto
  next
    case same
    then have m: "max ?ws now = ?ws" by simp
    obtain sw' where s2: "put_bucket (unat (sw_current_idx sw)) (\<lambda>b. b + v) (sw\<lparr>sw_window_start := ?ws\<rparr>) = Inr sw'"
      "holds_at sw' ?ws (f(?ws := f ?ws + v))" "sw_size sw' = sw_size sw" "sw_window_start sw' = ?ws"
      using put_current [OF h] by blast
    have "\<not> int ?n \<le> now - ?ws" using same n(2) by linarith
    then have "sliding_window_add sw v now = Inr sw'"
      using same s2(1) by (simp add: sliding_window_add_def Let_def)
    moreover have "win_rep sw' (f(?ws := f ?ws + v))" using s2 z by (simp add: win_rep_def)
    ultimately show ?thesis using s2 m by auto
  qed
qed

lemma sum_buckets_sum_list:
  "i + n \<le> length bs \<Longrightarrow> sum_buckets bs i n acc = Inr (acc + sum_list (take n (drop i bs)))"
proof (induction n arbitrary: i acc)
  case (Suc n)
  then have "drop i bs = bs ! i # drop (i + 1) bs" by (simp add: Cons_nth_drop_Suc)
  with Suc show ?case by (simp add: add.assoc)
qed simp

lemma sum_buckets_rep:
  assumes "holds_at sw w f"
  shows "sum_buckets (sw_buckets sw) 0 (unat (sw_size sw)) 0 = Inr (\<Sum>k<unat (sw_size sw). f (w - int k))"
proof -
  let ?n = "unat (sw_size sw)" and ?i = "unat (sw_current_idx sw)"
  have h: "length (sw_buckets sw) = ?n" "?i < ?n" "\<And>k. k < ?n \<Longrightarrow> sw_buckets sw ! ring ?n ?i k = f (w - int k)"
    using assms by (auto simp: holds_at_def Let_def)
  have "(\<Sum>k<?n. f (w - int k)) = (\<Sum>j<?n. sw_buckets sw ! j)"
    by (rule sum.reindex_bij_witness [of _ "ring ?n ?i" "ring ?n ?i"])
      (use h in \<open>auto simp: ring_less ring_ring\<close>)
  also have "\<dots> = sum_list (sw_buckets sw)" by (simp add: sum_list_sum_nth h(1) atLeast0LessThan)
  finally show ?thesis using h(1) by (simp add: sum_buckets_sum_list)
qed

section \<open>What a window counts\<close>

fun window_run :: "(time_t \<times> u64) list \<Rightarrow> sliding_window \<Rightarrow> sliding_window result" where
  "window_run [] sw = Inr sw"
| "window_run ((now, v) # es) sw = bindR (sliding_window_add sw v now) (window_run es)"

text \<open>The second an event is counted at: the clock never runs backwards for the window.\<close>

fun stamped :: "time_t \<Rightarrow> (time_t \<times> u64) list \<Rightarrow> (time_t \<times> u64) list" where
  "stamped w [] = []"
| "stamped w ((t, v) # es) = (max w t, v) # stamped (max w t) es"

definition per_second :: "(time_t \<times> u64) list \<Rightarrow> time_t \<Rightarrow> u64" where
  "per_second es t = sum_list (map snd (filter (\<lambda>(s, _). s = t) es))"

definition latest :: "time_t \<Rightarrow> (time_t \<times> u64) list \<Rightarrow> time_t" where
  "latest w es = fold (\<lambda>(t, _) m. max m t) es w"

lemma latest_Cons [simp]: "latest w ((t, v) # es) = latest (max w t) es"
  by (simp add: latest_def)

lemma window_run_rep:
  assumes "win_rep sw (per_second past)"
  shows "\<exists>sw'. window_run es sw = Inr sw' \<and> win_rep sw' (per_second (past @ stamped (sw_window_start sw) es)) \<and>
    sw_window_start sw' = latest (sw_window_start sw) es \<and> sw_size sw' = sw_size sw"
  using assms
proof (induction es arbitrary: sw past)
  case (Cons e es)
  obtain t v where e: "e = (t, v)" by (cases e)
  let ?w = "max (sw_window_start sw) t"
  obtain sw1 where s1: "sliding_window_add sw v t = Inr sw1" "sw_window_start sw1 = ?w" "sw_size sw1 = sw_size sw"
    "win_rep sw1 ((per_second past)(?w := per_second past ?w + v))"
    using sliding_window_add_rep [OF Cons.prems] by blast
  have "(per_second past)(?w := per_second past ?w + v) = per_second (past @ [(?w, v)])"
    by (auto simp: per_second_def fun_eq_iff)
  with s1(4) have "win_rep sw1 (per_second (past @ [(?w, v)]))" by simp
  from Cons.IH [OF this] s1 e show ?case by auto
qed (auto simp: latest_def)

lemma per_second_sum:
  "(\<Sum>k<n. per_second es (w - int k)) = sum_list (map snd (filter (\<lambda>(s, _). w - int n < s \<and> s \<le> w) es))"
proof (induction es)
  case (Cons e es)
  obtain s v where e: "e = (s, v)" by (cases e)
  have split: "per_second (e # es) t = (if s = t then v else 0) + per_second es t" for t
    by (simp add: per_second_def e)
  have "(\<Sum>k<n. if s = w - int k then v else 0) = (if w - int n < s \<and> s \<le> w then v else 0)"
  proof (cases "w - int n < s \<and> s \<le> w")
    case True
    then have "s = w - int k \<longleftrightarrow> k = nat (w - s)" for k by auto
    moreover have "nat (w - s) < n" using True by auto
    ultimately show ?thesis using True by simp
  next
    case False
    then have "s \<noteq> w - int k" if "k < n" for k using that by auto
    then show ?thesis using False by (intro sum.neutral [THEN trans]) auto
  qed
  moreover have "(\<Sum>k<n. per_second (e # es) (w - int k)) =
      (\<Sum>k<n. if s = w - int k then v else 0) + (\<Sum>k<n. per_second es (w - int k))"
    by (simp only: split sum.distrib)
  ultimately show ?case using Cons.IH by (simp add: e)
qed (simp add: per_second_def)

lemma stamped_le: "(t, v) \<in> set (stamped w es) \<Longrightarrow> t \<le> latest w es"
proof (induction es arbitrary: w)
  case (Cons e es)
  obtain s u where e: "e = (s, u)" by (cases e)
  have "m \<le> latest m es'" for m es'
    by (induction es' arbitrary: m) (auto simp: latest_def intro: order_trans [OF max.cobounded1])
  with Cons e show ?case by auto
qed simp

lemma new_window_rep: "n \<noteq> 0 \<Longrightarrow> win_rep (new_window n t0) (per_second [])"
  by (auto simp: win_rep_def holds_at_def new_window_def per_second_def ring_less unat_gt_0)

text \<open>C28: a sliding window counts the last seconds. A window of \<open>n\<close> seconds takes any sequence of
  additions without a fault; its sum right after the last one is the total (modulo \<open>2^64\<close>) of the
  values added in the last \<open>n\<close> seconds. A sum asked for later still counts from the last addition,
  until \<open>n\<close> seconds after it, when it drops to 0. A window of 0 seconds faults at the first addition.\<close>

theorem sliding_window_counts:
  assumes "n \<noteq> 0"
  shows "(\<exists>sw. window_run es (new_window n t0) = Inr sw \<and>
      (\<forall>now. sliding_window_sum sw now = Inr (if int (unat n) \<le> now - latest t0 es then 0
         else sum_list (map snd (filter (\<lambda>(t, _). latest t0 es - int (unat n) < t) (stamped t0 es)))))) \<and>
    sliding_window_add (new_window 0 t0) v now = Inl OutOfBounds"
proof
  have ws: "sw_window_start (new_window n t0) = t0" "sw_size (new_window n t0) = n" by (simp_all add: new_window_def)
  obtain sw where r: "window_run es (new_window n t0) = Inr sw" "win_rep sw (per_second (stamped t0 es))"
    "sw_window_start sw = latest t0 es" "sw_size sw = n"
    using window_run_rep [OF new_window_rep [OF assms, of t0], of es, unfolded ws] by auto
  let ?es = "stamped t0 es" and ?n = "unat n" and ?w = "latest t0 es"
  have "sum_buckets (sw_buckets sw) 0 ?n 0 = Inr (\<Sum>k<?n. per_second ?es (?w - int k))"
    using sum_buckets_rep [of sw ?w] r(2-4) by (simp add: win_rep_def)
  also have "(\<Sum>k<?n. per_second ?es (?w - int k)) = sum_list (map snd (filter (\<lambda>(t, _). ?w - int ?n < t \<and> t \<le> ?w) ?es))"
    by (rule per_second_sum)
  also have "filter (\<lambda>(t, _). ?w - int ?n < t \<and> t \<le> ?w) ?es = filter (\<lambda>(t, _). ?w - int ?n < t) ?es"
    by (rule filter_cong) (auto dest: stamped_le)
  finally have s: "sum_buckets (sw_buckets sw) 0 ?n 0 = Inr (sum_list (map snd (filter (\<lambda>(t, _). ?w - int ?n < t) ?es)))" .
  show "\<exists>sw. window_run es (new_window n t0) = Inr sw \<and>
      (\<forall>now. sliding_window_sum sw now = Inr (if int (unat n) \<le> now - ?w then 0
         else sum_list (map snd (filter (\<lambda>(t, _). ?w - int (unat n) < t) ?es))))"
    using r s by (intro exI [of _ sw]) (simp add: sliding_window_sum_def)
  show "sliding_window_add (new_window 0 t0) v now = Inl OutOfBounds"
    by (simp add: sliding_window_add_def new_window_def put_bucket_def Let_def)
qed

theorem sliding_window_counts_witness:
  "\<exists>sw. window_run [(10, 5), (11, 7), (13, 1)] (new_window 3 10) = Inr sw \<and> sliding_window_sum sw 13 = Inr 8 \<and>
     sliding_window_sum sw 15 = Inr 8 \<and> sliding_window_sum sw 16 = Inr 0"
  using sliding_window_counts [of 3 "[(10, 5), (11, 7), (13, 1)]" 10 0 0] by (auto simp: latest_def)

section \<open>The limiter\<close>

interpretation limiter_key: hashed_key ip_addr_compare "\<lambda>ip. unat (ip_hash_simple ip)"
  by unfold_locales
    (auto simp: ip_addr_compare_0 ip_hash_simple_def dest: ip_hash_word_cong
      intro: same_ip_sym same_ip_trans)

text \<open>What a window of \<open>n\<close> seconds counts after the events.\<close>

definition window_total :: "u32 \<Rightarrow> time_t \<Rightarrow> (time_t \<times> u64) list \<Rightarrow> u64" where
  "window_total n t0 es = sum_list (map snd (filter (\<lambda>(t, _). latest t0 es - int (unat n) < t) (stamped t0 es)))"

text \<open>The address is alone in its bucket: no packet window, a byte window with the given history.\<close>

definition sole_entry :: "rl_heap \<Rightarrow> rate_limiter \<Rightarrow> ip_addr \<Rightarrow> nat \<Rightarrow> nat \<Rightarrow> rate_limit_entry \<Rightarrow> sliding_window \<Rightarrow> bool" where
  "sole_entry h rl ip p q e sw \<longleftrightarrow>
     rl_buckets rl (unat (ip_hash_simple ip)) = p \<and> p \<noteq> 0 \<and> h p = Some (RL_Entry e) \<and> same_ip (rl_ip e) ip \<and>
     rl_pps_window e = 0 \<and> rl_bps_window e = q \<and> q \<noteq> 0 \<and> h q = Some (RL_Window sw) \<and> sw_size sw = window_size rl"

lemma sole_entry_ne: "sole_entry h rl ip p q e sw \<Longrightarrow> p \<noteq> q"
  by (auto simp: sole_entry_def)

lemma find_entry_0 [simp]: "find_entry h 0 ip = ret 0"
  by (subst find_entry.simps) simp

lemma find_entry_sole:
  assumes "p \<noteq> 0" and "h p = Some (RL_Entry e)" and "rl_pps_window e = 0"
  shows "find_entry h p ip = ret (if same_ip (rl_ip e) ip then p else 0)"
  using assms by (subst find_entry.simps) (simp add: rl_entry_def ip_addr_compare_0)

lemma window_add_0 [simp]: "window_add h 0 v now = ret h"
  and window_sum_0 [simp]: "window_sum h 0 now = ret 0"
  and window_destroy_0 [simp]: "sliding_window_destroy h 0 = ret h"
  by (simp_all add: window_add_def window_sum_def sliding_window_destroy_def)

lemma sum_after_add:
  assumes "win_rep sw (per_second past)" and "sw_size sw = n"
  shows "\<exists>sw'. sliding_window_add sw v now = Inr sw' \<and> sw_size sw' = n \<and>
    win_rep sw' (per_second (past @ [(max (sw_window_start sw) now, v)])) \<and>
    sw_window_start sw' = max (sw_window_start sw) now \<and>
    sliding_window_sum sw' now = Inr (\<Sum>k<unat n. per_second (past @ [(max (sw_window_start sw) now, v)])
      (max (sw_window_start sw) now - int k))"
proof -
  obtain sw' where s: "window_run [(now, v)] sw = Inr sw'" "sw_window_start sw' = max (sw_window_start sw) now"
    "win_rep sw' (per_second (past @ [(max (sw_window_start sw) now, v)]))" "sw_size sw' = n"
    using window_run_rep [OF assms(1), of "[(now, v)]"] assms(2) by (auto simp: latest_def)
  have a: "sliding_window_add sw v now = Inr sw'"
    using s(1) by (cases "sliding_window_add sw v now") simp_all
  have "0 < unat n" using s(3,4) by (auto simp: win_rep_def holds_at_def Let_def)
  then have "\<not> int (unat n) \<le> now - sw_window_start sw'" using s(2) by linarith
  moreover have hold: "holds_at sw' (sw_window_start sw') (per_second (past @ [(max (sw_window_start sw) now, v)]))"
    using s(3) by (simp add: win_rep_def)
  ultimately have "sliding_window_sum sw' now = Inr (\<Sum>k<unat n.
      per_second (past @ [(max (sw_window_start sw) now, v)]) (sw_window_start sw' - int k))"
    using sum_buckets_rep [OF hold] s(4) by (simp add: sliding_window_sum_def)
  with a s show ?thesis by auto
qed

lemma allow_sole:
  assumes "sole_entry h rl ip p q e sw" and "win_rep sw (per_second past)" and "window_size rl = n"
  shows "\<exists>h' e' sw'. rate_limiter_allow al now h (Some rl) ip plen =
      ret ((\<Sum>k<unat n. per_second (past @ [(max (sw_window_start sw) now, ucast plen)])
        (max (sw_window_start sw) now - int k)) div ucast n \<le> ucast (max_bps rl), h', Some rl) \<and>
    sole_entry h' rl ip p q e' sw' \<and>
    win_rep sw' (per_second (past @ [(max (sw_window_start sw) now, ucast plen)])) \<and>
    sw_window_start sw' = max (sw_window_start sw) now"
proof -
  have e: "rl_buckets rl (unat (ip_hash_simple ip)) = p" "p \<noteq> 0" "h p = Some (RL_Entry e)" "same_ip (rl_ip e) ip"
    "rl_pps_window e = 0" "rl_bps_window e = q" "q \<noteq> 0" "h q = Some (RL_Window sw)" "sw_size sw = n"
    using assms(1,3) by (auto simp: sole_entry_def)
  have pq: "p \<noteq> q" by (rule sole_entry_ne [OF assms(1)])
  obtain sw' where s: "sliding_window_add sw (ucast plen) now = Inr sw'" "sw_size sw' = n"
    "win_rep sw' (per_second (past @ [(max (sw_window_start sw) now, ucast plen)]))"
    "sw_window_start sw' = max (sw_window_start sw) now"
    "sliding_window_sum sw' now = Inr (\<Sum>k<unat n. per_second (past @ [(max (sw_window_start sw) now, ucast plen)])
      (max (sw_window_start sw) now - int k))"
    using sum_after_add [OF assms(2) e(9)] by blast
  have n0: "n \<noteq> 0" using s(2,3) by (auto simp: win_rep_def holds_at_def Let_def)
  let ?e = "e\<lparr>rl_total_packets := rl_total_packets e + 1, rl_total_bytes := rl_total_bytes e + ucast plen, rl_last_update := now\<rparr>"
  let ?h = "h(q \<mapsto> RL_Window sw', p \<mapsto> RL_Entry ?e)"
  have g: "get_or_create_entry al h rl ip (unat (ip_hash_simple ip)) = ret (p, h, rl)"
    using e by (simp add: get_or_create_entry_def find_entry_sole)
  have d: "div_window 0 n = ret 0" using n0 by (simp add: div_window_def)
  have w: "window_add h q (ucast plen) now = ret (h(q \<mapsto> RL_Window sw'))"
    using e s(1) by (simp add: window_add_def rl_window_def)
  have "window_sum ?h q now = ret (\<Sum>k<unat n. per_second (past @ [(max (sw_window_start sw) now, ucast plen)])
      (max (sw_window_start sw) now - int k))"
    using e(7) pq s(5) by (simp add: window_sum_def rl_window_def)
  then have "rate_limiter_allow al now h (Some rl) ip plen =
      ret ((\<Sum>k<unat n. per_second (past @ [(max (sw_window_start sw) now, ucast plen)])
        (max (sw_window_start sw) now - int k)) div ucast n \<le> ucast (max_bps rl), ?h, Some rl)"
    using e g w d n0 assms(3) by (simp add: rate_limiter_allow_def rl_entry_def Let_def div_window_def del: fun_upd_apply)
  moreover have "sole_entry ?h rl ip p q ?e sw'" using e pq s(2) assms(3) by (simp add: sole_entry_def)
  ultimately show ?thesis using s(3,4) by blast
qed

fun allow_run ::
    "ip_addr \<Rightarrow> (rl_alloc \<times> time_t \<times> u32) list \<Rightarrow> rl_heap \<Rightarrow> rate_limiter option \<Rightarrow>
      (bool list \<times> rl_heap \<times> rate_limiter option) run" where
  "allow_run ip [] h rp = ret ([], h, rp)"
| "allow_run ip ((al, now, plen) # ps) h rp =
     bindM (rate_limiter_allow al now h rp ip plen) (\<lambda>(a, h, rp).
     bindM (allow_run ip ps h rp) (\<lambda>(as, h, rp). ret (a # as, h, rp)))"

definition packet_events :: "(rl_alloc \<times> time_t \<times> u32) list \<Rightarrow> (time_t \<times> u64) list" where
  "packet_events ps = map (\<lambda>(_, now, plen). (now, ucast plen)) ps"

lemma window_total_snoc_sum:
  assumes "\<forall>(t, v) \<in> set es. t \<le> w"
  shows "(\<Sum>k<n. per_second es (w - int k)) = sum_list (map snd (filter (\<lambda>(t, _). w - int n < t) es))"
proof -
  have "filter (\<lambda>(s, _). w - int n < s \<and> s \<le> w) es = filter (\<lambda>(t, _). w - int n < t) es"
    by (rule filter_cong) (use assms in auto)
  then show ?thesis by (simp add: per_second_sum)
qed

lemma stamped_snoc: "stamped w (es @ [(t, v)]) = stamped w es @ [(max (latest w es) t, v)]"
  by (induction es arbitrary: w) (auto simp: latest_def)

lemma latest_snoc: "latest w (es @ [(t, v)]) = max (latest w es) t"
  by (simp add: latest_def max.commute)

lemma allow_run_sole:
  assumes "sole_entry h rl ip p q e sw" and "win_rep sw (per_second (stamped t0 past))"
    and "sw_window_start sw = latest t0 past" and "window_size rl = n"
  shows "\<exists>h' e' sw'. allow_run ip ps h (Some rl) =
      ret (map (\<lambda>k. window_total n t0 (past @ packet_events (take (Suc k) ps)) div ucast n \<le> ucast (max_bps rl))
        [0..<length ps], h', Some rl) \<and> sole_entry h' rl ip p q e' sw'"
  using assms(1-3)
proof (induction ps arbitrary: h e sw past)
  case (Cons x ps)
  obtain al now plen where x: "x = (al, now, plen)" by (cases x)
  let ?past = "past @ [(now, ucast plen)]"
  have st: "stamped t0 ?past = stamped t0 past @ [(max (sw_window_start sw) now, ucast plen)]"
    and la: "latest t0 ?past = max (sw_window_start sw) now"
    using Cons.prems(3) by (simp_all add: stamped_snoc latest_snoc)
  obtain h1 e1 sw1 where a: "rate_limiter_allow al now h (Some rl) ip plen =
      ret ((\<Sum>k<unat n. per_second (stamped t0 ?past) (latest t0 ?past - int k)) div ucast n \<le> ucast (max_bps rl), h1, Some rl)"
    "sole_entry h1 rl ip p q e1 sw1" "win_rep sw1 (per_second (stamped t0 ?past))" "sw_window_start sw1 = latest t0 ?past"
    using allow_sole [OF Cons.prems(1,2) assms(4), of al now plen] unfolding st la by auto
  have tot: "(\<Sum>k<unat n. per_second (stamped t0 ?past) (latest t0 ?past - int k)) = window_total n t0 ?past"
    unfolding window_total_def by (rule window_total_snoc_sum) (auto dest: stamped_le)
  obtain h' e' sw' where r: "allow_run ip ps h1 (Some rl) =
      ret (map (\<lambda>k. window_total n t0 (?past @ packet_events (take (Suc k) ps)) div ucast n \<le> ucast (max_bps rl))
        [0..<length ps], h', Some rl)" "sole_entry h' rl ip p q e' sw'"
    using Cons.IH [OF a(2-4)] by blast
  have eq: "map (\<lambda>k. window_total n t0 (past @ packet_events (take (Suc k) (x # ps))) div ucast n \<le> ucast (max_bps rl)) [0..<length (x # ps)] =
      (window_total n t0 ?past div ucast n \<le> ucast (max_bps rl)) #
      map (\<lambda>k. window_total n t0 (?past @ packet_events (take (Suc k) ps)) div ucast n \<le> ucast (max_bps rl)) [0..<length ps]"
    by (simp add: upt_conv_Cons map_Suc_upt [symmetric] packet_events_def x comp_def del: upt_Suc)
  have "allow_run ip (x # ps) h (Some rl) = ret ((window_total n t0 ?past div ucast n \<le> ucast (max_bps rl)) #
      map (\<lambda>k. window_total n t0 (?past @ packet_events (take (Suc k) ps)) div ucast n \<le> ucast (max_bps rl)) [0..<length ps],
      h', Some rl)"
    using a(1) r(1) by (simp add: tot x)
  then show ?case unfolding eq using r(2) by blast
qed auto

section \<open>A fresh limiter\<close>

definition alloc_ok :: "rl_alloc \<Rightarrow> bool" where
  "alloc_ok al \<longleftrightarrow> 0 \<notin> {ra_entry al, ra_pps al, ra_bps al} \<and> distinct [ra_entry al, ra_pps al, ra_bps al] \<and>
     ra_pps_buckets al \<and> ra_bps_buckets al"

lemma create_sole:
  assumes "rl_buckets rl (unat (ip_hash_simple ip)) = 0" and "alloc_ok al" and "window_size rl = n" and "n \<noteq> 0"
  shows "\<exists>h' rl' e. get_or_create_entry al h rl ip (unat (ip_hash_simple ip)) = ret (ra_entry al, h', rl') \<and>
    sole_entry h' rl' ip (ra_entry al) (ra_bps al) e (new_window n (ra_bps_time al)) \<and>
    max_bps rl' = max_bps rl \<and> window_size rl' = n"
  using assms
  by (auto simp: get_or_create_entry_def sliding_window_create_def alloc_ok_def sole_entry_def Let_def new_window_def)

lemma allow_via_create:
  assumes "get_or_create_entry al h rl ip (unat (ip_hash_simple ip)) = ret (p, h', rl')"
    and "get_or_create_entry al h' rl' ip (unat (ip_hash_simple ip)) = ret (p, h', rl')"
  shows "rate_limiter_allow al now h (Some rl) ip plen = rate_limiter_allow al now h' (Some rl') ip plen"
  using assms by (simp add: rate_limiter_allow_def)

text \<open>C29: a limiter limits bytes, never packets. Whatever \<open>max_pps\<close> is, for an address alone in its
  bucket every decision of a run compares only the bytes of the last \<open>window_size\<close> seconds (divided
  by it) with \<open>max_bps\<close>, and \<open>rate_limiter_get_pps\<close> answers 0: the field of the packet window is
  overwritten with the chain pointer when the entry is inserted.\<close>

theorem limiter_ignores_packet_rate:
  assumes "rate_limiter_create True True True pps bps n = Some rl" and "n \<noteq> 0" and "alloc_ok al"
  shows "\<exists>h' rl'. allow_run ip ((al, now, plen) # ps) h (Some rl) =
      ret (map (\<lambda>k. window_total n (ra_bps_time al) (packet_events (take (Suc k) ((al, now, plen) # ps))) div ucast n \<le> ucast bps)
        [0..<Suc (length ps)], h', Some rl') \<and>
    (\<forall>t. rate_limiter_get_pps t h' (Some rl') ip = ret 0)"
proof -
  have rl: "rl_buckets rl (unat (ip_hash_simple ip)) = 0" "window_size rl = n" "max_bps rl = bps"
    using assms(1) by (auto simp: rate_limiter_create_def)
  obtain h1 rl1 e where c: "get_or_create_entry al h rl ip (unat (ip_hash_simple ip)) = ret (ra_entry al, h1, rl1)"
    "sole_entry h1 rl1 ip (ra_entry al) (ra_bps al) e (new_window n (ra_bps_time al))"
    "max_bps rl1 = bps" "window_size rl1 = n"
    using create_sole [OF rl(1) assms(3) rl(2) assms(2)] rl(3) by blast
  have "get_or_create_entry al h1 rl1 ip (unat (ip_hash_simple ip)) = ret (ra_entry al, h1, rl1)"
    using c(2) by (auto simp: sole_entry_def get_or_create_entry_def find_entry_sole)
  note same = allow_via_create [OF c(1) this]
  have "win_rep (new_window n (ra_bps_time al)) (per_second (stamped (ra_bps_time al) []))"
    using new_window_rep [OF assms(2)] by simp
  from allow_run_sole [OF c(2) this _ c(4), of "(al, now, plen) # ps"] c(3)
  obtain h' e' sw' where r: "allow_run ip ((al, now, plen) # ps) h1 (Some rl1) =
      ret (map (\<lambda>k. window_total n (ra_bps_time al) (packet_events (take (Suc k) ((al, now, plen) # ps))) div ucast n \<le> ucast bps)
        [0..<Suc (length ps)], h', Some rl1)" "sole_entry h' rl1 ip (ra_entry al) (ra_bps al) e' sw'"
    by (auto simp: latest_def new_window_def simp del: upt_Suc)
  have "rate_of rl_pps_window n t h' (ra_entry al) ip = ret 0" for t
    using r(2) assms(2) by (subst rate_of.simps) (auto simp: sole_entry_def rl_entry_def ip_addr_compare_0 div_window_def)
  then have "rate_limiter_get_pps t h' (Some rl1) ip = ret 0" for t
    using r(2) c(4) by (auto simp: rate_limiter_get_pps_def sole_entry_def)
  moreover have "allow_run ip ((al, now, plen) # ps) h (Some rl) = allow_run ip ((al, now, plen) # ps) h1 (Some rl1)"
    by (simp add: same)
  ultimately show ?thesis using r(1) by auto
qed

text \<open>C30: the chains of the limiter cannot be used. With one entry in a bucket: a packet of another
  address that hashes there makes the limiter use the entry as a window (\<open>BadType\<close>); destroying the
  limiter reads the freed entry; only resetting that sole address works, and leaves its bucket empty.\<close>

theorem limiter_chain_faults:
  assumes "sole_entry h rl ip p q e sw"
  shows "(\<not> same_ip ip ip' \<and> ip_hash_simple ip' = ip_hash_simple ip \<and> alloc_ok al \<and>
      {ra_entry al, ra_pps al, ra_bps al} \<inter> {p, q} = {} \<longrightarrow>
      rate_limiter_allow al now h (Some rl) ip' plen = fail BadType) \<and>
    ((\<forall>i < unat (ip_hash_simple ip). rl_buckets rl i = 0) \<longrightarrow> rate_limiter_destroy h (Some rl) = fail UseAfterFree) \<and>
    rate_limiter_reset h (Some rl) ip =
      ret (h(q := None, p := None), Some (rl\<lparr>rl_buckets := (rl_buckets rl)(unat (ip_hash_simple ip) := 0)\<rparr>))"
proof (intro conjI impI)
  have e: "rl_buckets rl (unat (ip_hash_simple ip)) = p" "p \<noteq> 0" "h p = Some (RL_Entry e)" "same_ip (rl_ip e) ip"
    "rl_pps_window e = 0" "rl_bps_window e = q" "q \<noteq> 0" "h q = Some (RL_Window sw)" "sw_size sw = window_size rl"
    using assms by (auto simp: sole_entry_def)
  have pq: "p \<noteq> q" by (rule sole_entry_ne [OF assms])
  have dq: "sliding_window_destroy h q = ret (h(q := None))"
    using e by (simp add: sliding_window_destroy_def rl_window_def)
  show "rate_limiter_reset h (Some rl) ip =
      ret (h(q := None, p := None), Some (rl\<lparr>rl_buckets := (rl_buckets rl)(unat (ip_hash_simple ip) := 0)\<rparr>))"
    using e dq by (subst rate_limiter_reset_def, subst reset_chain.simps)
      (simp add: rl_entry_def ip_addr_compare_0 Let_def)
  {
    assume o: "\<not> same_ip ip ip' \<and> ip_hash_simple ip' = ip_hash_simple ip \<and> alloc_ok al \<and>
      {ra_entry al, ra_pps al, ra_bps al} \<inter> {p, q} = {}"
    then have "\<not> same_ip (rl_ip e) ip'" using e(4) same_ip_sym same_ip_trans by blast
    then have f: "find_entry h p ip' = ret 0" using find_entry_sole [of p h e] e by simp
    show "rate_limiter_allow al now h (Some rl) ip' plen = fail BadType"
      using o e f
      by (auto simp: rate_limiter_allow_def get_or_create_entry_def sliding_window_create_def alloc_ok_def Let_def
          rl_entry_def window_add_def rl_window_def)
  }
  {
    let ?n = "unat (ip_hash_simple ip)"
    assume "\<forall>i < ?n. rl_buckets rl i = 0"
    then have z: "\<forall>i \<in> set [0..<?n]. rl_buckets rl i = 0" by auto
    have "?n < unat RATE_LIMIT_BUCKETS" by (simp add: ip_hash_simple_def RATE_LIMIT_BUCKETS_def unat_mod)
    then obtain r where sp: "[0..<unat RATE_LIMIT_BUCKETS] = [0..<?n] @ ?n # r"
      using upt_add_eq_append [of 0 ?n "unat RATE_LIMIT_BUCKETS - ?n"] by (auto simp: upt_conv_Cons)
    have free0: "entries_free h 0 = ret h" by (subst entries_free.simps) simp
    have skip: "free_entry_table h (rl_buckets rl) (is @ js) = free_entry_table h (rl_buckets rl) js"
      if "\<forall>i \<in> set is. rl_buckets rl i = 0" for "is" js
      using that by (induction "is") (auto simp: free0)
    have "entries_free h p = fail UseAfterFree"
      using e dq by (subst entries_free.simps) (simp add: rl_entry_def, subst entries_free.simps, simp add: rl_entry_def)
    then show "rate_limiter_destroy h (Some rl) = fail UseAfterFree"
      by (simp add: rate_limiter_destroy_def sp skip [OF z] e(1))
  }
qed

section \<open>A concrete limiter\<close>

definition example_alloc :: rl_alloc where
  "example_alloc = \<lparr>ra_entry = 1, ra_pps = 2, ra_pps_buckets = True, ra_bps = 3, ra_bps_buckets = True,
     ra_pps_time = 0, ra_bps_time = 0, ra_now = 0\<rparr>"

definition example_limiter :: rate_limiter where
  "example_limiter = \<lparr>rl_buckets = (\<lambda>_. 0), max_pps = 1, max_bps = 1000, window_size = 1\<rparr>"

text \<open>Two small packets in one second pass a limit of one packet per second; a big one is refused.\<close>

theorem limiter_ignores_packet_rate_witness:
  "\<exists>h' rl'. allow_run zero_ip [(example_alloc, 0, 100), (example_alloc, 0, 100), (example_alloc, 0, 900)]
     Map.empty (Some example_limiter) = ret ([True, True, False], h', Some rl')"
proof -
  let ?x = "(example_alloc, 0 :: time_t, 100 :: u32)" and ?y = "(example_alloc, 0 :: time_t, 900 :: u32)"
  have c: "rate_limiter_create True True True 1 1000 1 = Some example_limiter"
    by (simp add: rate_limiter_create_def example_limiter_def)
  have a: "alloc_ok example_alloc" by (simp add: alloc_ok_def example_alloc_def)
  have t: "ra_bps_time example_alloc = 0" by (simp add: example_alloc_def)
  obtain h' rl' where "allow_run zero_ip [?x, ?x, ?y] Map.empty (Some example_limiter) =
      ret (map (\<lambda>k. window_total 1 0 (packet_events (take (Suc k) [?x, ?x, ?y])) div ucast (1 :: u32) \<le> ucast (1000 :: u32))
        [0..<Suc (length [?x, ?y])], h', Some rl')"
    using limiter_ignores_packet_rate [OF c _ a, of zero_ip 0 100 "[?x, ?y]" Map.empty] unfolding t by auto
  moreover have "map (\<lambda>k. window_total 1 0 (packet_events (take (Suc k) [?x, ?x, ?y])) div ucast (1 :: u32) \<le> ucast (1000 :: u32))
      [0..<Suc (length [?x, ?y])] = [True, True, False]"
    by (simp add: window_total_def packet_events_def latest_def)
  ultimately show ?thesis by metis
qed

text \<open>The zero address alone in bucket 0, met by the IPv4 address 0.0.0.0.\<close>

definition sole_limiter :: rate_limiter where
  "sole_limiter = example_limiter\<lparr>rl_buckets := (\<lambda>_. 0)(0 := 5)\<rparr>"

definition sole_rl_entry :: rate_limit_entry where
  "sole_rl_entry = \<lparr>rl_ip = zero_ip, rl_pps_window = 0, rl_bps_window = 6, rl_last_update = 0,
     rl_total_packets = 0, rl_total_bytes = 0\<rparr>"

definition sole_heap :: rl_heap where
  "sole_heap = [5 \<mapsto> RL_Entry sole_rl_entry, 6 \<mapsto> RL_Window (new_window 1 0)]"

theorem limiter_chain_faults_witness:
  "rate_limiter_allow example_alloc 0 sole_heap (Some sole_limiter) \<lparr>family = AF_INET, ip_bits = 0\<rparr> 60 = fail BadType \<and>
   rate_limiter_destroy sole_heap (Some sole_limiter) = fail UseAfterFree"
proof -
  have h: "ip_hash_simple zero_ip = 0" "ip_hash_simple \<lparr>family = AF_INET, ip_bits = 0\<rparr> = 0"
    by (simp_all add: ip_hash_simple_def ip_hash_word_def zero_ip_def v6_word_def AF_INET_def upt_rec
        s_addr_def bswap32_def be32_def)
  then have "sole_entry sole_heap sole_limiter zero_ip 5 6 sole_rl_entry (new_window 1 0)"
    by (simp add: sole_entry_def sole_heap_def sole_limiter_def sole_rl_entry_def example_limiter_def new_window_def)
  from limiter_chain_faults [OF this, of "\<lparr>family = AF_INET, ip_bits = 0\<rparr>" example_alloc 0 60] h
  show ?thesis
    by (simp add: alloc_ok_def example_alloc_def same_ip_def zero_ip_def AF_INET_def)
qed

end
