(* ===== verification/AddressSet.thy ===== *)
theory AddressSet
  imports IpSet
begin

text \<open>
  The contract a client of an address set relies on: additions with an expiry time, removals and
  membership tests behave as a finite map from addresses to expiry times. An addition is lost when
  the map has reached the capacity of the set, or when the address is new and the allocator fails.
  Laws are stated for the keys the set identifies addresses by. The interpretation is on
  \<open>ipset_add_expiring\<close>, \<open>ipset_remove\<close> and \<open>ipset_contains\<close> at IPv4 addresses.
\<close>

section \<open>The contract\<close>

text \<open>An addition with the allocator's answer and an expiry time, and a removal.\<close>

datatype ('a) set_op = Add bool 'a time_t | Remove 'a

definition map_add :: "nat \<Rightarrow> bool \<Rightarrow> ('k \<rightharpoonup> time_t) \<Rightarrow> 'k \<Rightarrow> time_t \<Rightarrow> ('k \<rightharpoonup> time_t)" where
  "map_add cap ok m k t = (if card (dom m) < cap \<and> (ok \<or> k \<in> dom m) then m(k \<mapsto> t) else m)"

locale expiring_set =
  fixes inv :: "'s \<Rightarrow> bool"
    and capacity :: "'s \<Rightarrow> nat"
    and lookup :: "'s \<Rightarrow> 'k \<Rightarrow> time_t option"
    and key :: "'a \<Rightarrow> 'k"
    and valid :: "'a \<Rightarrow> bool"
    and add :: "'s \<Rightarrow> bool \<Rightarrow> 'a \<Rightarrow> time_t \<Rightarrow> 's"
    and remove :: "'s \<Rightarrow> 'a \<Rightarrow> 's"
    and member :: "time_t \<Rightarrow> 's \<Rightarrow> 'a \<Rightarrow> bool"
  assumes add_law: "inv s \<Longrightarrow> valid a \<Longrightarrow>
      inv (add s ok a t) \<and> lookup (add s ok a t) = map_add (capacity s) ok (lookup s) (key a) t \<and>
      capacity (add s ok a t) = capacity s"
    and remove_law: "inv s \<Longrightarrow> valid a \<Longrightarrow>
      inv (remove s a) \<and> lookup (remove s a) = (lookup s)(key a := None) \<and> capacity (remove s a) = capacity s"
    and member_law: "inv s \<Longrightarrow> valid a \<Longrightarrow>
      member now s a \<longleftrightarrow> (\<exists>t. lookup s (key a) = Some t \<and> (t \<le> 0 \<or> now \<le> t))"
begin

fun exec :: "'s \<Rightarrow> 'a set_op \<Rightarrow> 's" where
  "exec s (Add ok a t) = add s ok a t"
| "exec s (Remove a) = remove s a"

fun spec :: "nat \<Rightarrow> ('k \<rightharpoonup> time_t) \<Rightarrow> 'a set_op \<Rightarrow> ('k \<rightharpoonup> time_t)" where
  "spec cap m (Add ok a t) = map_add cap ok m (key a) t"
| "spec cap m (Remove a) = m(key a := None)"

fun op_address :: "'a set_op \<Rightarrow> 'a" where
  "op_address (Add ok a t) = a"
| "op_address (Remove a) = a"

text \<open>Every run refines the run on the map.\<close>

lemma exec_refines:
  assumes "inv s" and "\<forall>x \<in> set ops. valid (op_address x)"
  shows "inv (foldl exec s ops) \<and> lookup (foldl exec s ops) = foldl (spec (capacity s)) (lookup s) ops"
  using assms
proof (induction ops arbitrary: s)
  case (Cons x ops)
  have "inv (exec s x) \<and> lookup (exec s x) = spec (capacity s) (lookup s) x \<and> capacity (exec s x) = capacity s"
    using Cons.prems add_law remove_law by (cases x) simp_all
  with Cons.IH [of "exec s x"] Cons.prems(2) show ?case by simp
qed simp

lemma member_run:
  assumes "inv s" and "\<forall>x \<in> set ops. valid (op_address x)" and "valid a"
  shows "member now (foldl exec s ops) a \<longleftrightarrow>
    (\<exists>t. foldl (spec (capacity s)) (lookup s) ops (key a) = Some t \<and> (t \<le> 0 \<or> now \<le> t))"
  using member_law [OF conjunct1 [OF exec_refines [OF assms(1,2)]] assms(3)]
    conjunct2 [OF exec_refines [OF assms(1,2)]] by simp

end

section \<open>IPv4 addresses in an IP set\<close>

definition v4_chain :: "u32 \<Rightarrow> ipset_entry list \<Rightarrow> ipset_entry list" where
  "v4_chain a es = filter (\<lambda>e. family (e_ip e) = AF_INET \<and> s_addr (e_ip e) = a) es"

definition v4_hash :: "u32 \<Rightarrow> nat" where
  "v4_hash a = unat (ipset_hash \<lparr>family = AF_INET, ip_bits = ucast a\<rparr>)"

definition v4_lookup :: "ipset \<Rightarrow> u32 \<Rightarrow> time_t option" where
  "v4_lookup s a = map_option e_expires (List.find (\<lambda>e. family (e_ip e) = AF_INET \<and> s_addr (e_ip e) = a) (buckets s (v4_hash a)))"

text \<open>One entry per IPv4 address, and it is a single host.\<close>

definition v4_unique :: "ipset \<Rightarrow> bool" where
  "v4_unique s \<longleftrightarrow> ipset_wf s \<and>
     (\<forall>i a. length (v4_chain a (buckets s i)) \<le> 1) \<and>
     (\<forall>i. \<forall>e \<in> set (buckets s i). family (e_ip e) = AF_INET \<longrightarrow> e_prefix_len e = 32)"

definition v4_add :: "ipset \<Rightarrow> bool \<Rightarrow> ip_addr \<Rightarrow> time_t \<Rightarrow> ipset" where
  "v4_add s ok ip t = the (snd (ipset_add_expiring ok (Some s) ip t))"

definition v4_remove :: "ipset \<Rightarrow> ip_addr \<Rightarrow> ipset" where
  "v4_remove s ip = the (snd (ipset_remove (Some s) ip))"

definition is_v4 :: "ip_addr \<Rightarrow> bool" where
  "is_v4 ip \<longleftrightarrow> family ip = AF_INET"

lemma s_addr_widened [simp]: "ucast (ucast (a :: u32) :: 128 word) = a"
  by (rule bit_word_eqI) (simp add: bit_simps)

lemma v4_hash_ip: "is_v4 ip \<Longrightarrow> unat (ipset_hash ip) = v4_hash (s_addr ip)"
  by (simp add: v4_hash_def is_v4_def ipset_hash_def ip_hash_word_def s_addr_def)

lemma v4_same: "is_v4 ip \<Longrightarrow> same_ip (e_ip e) ip \<longleftrightarrow> family (e_ip e) = AF_INET \<and> s_addr (e_ip e) = s_addr ip"
  by (auto simp: same_ip_def is_v4_def)

lemma v4_chain_simps [simp]:
  "v4_chain a (us @ vs) = v4_chain a us @ v4_chain a vs" "v4_chain a [] = []"
  "v4_chain a (e # es) = (if family (e_ip e) = AF_INET \<and> s_addr (e_ip e) = a then [e] else []) @ v4_chain a es"
  by (simp_all add: v4_chain_def)

lemma v4_lookup_chain:
  "v4_lookup s a = (case v4_chain a (buckets s (v4_hash a)) of [] \<Rightarrow> None | e # _ \<Rightarrow> Some (e_expires e))"
proof -
  have "List.find P es = (case filter P es of [] \<Rightarrow> None | e # _ \<Rightarrow> Some e)" for P and es :: "ipset_entry list"
    by (induction es) auto
  then show ?thesis by (simp add: v4_lookup_def v4_chain_def split: list.splits)
qed

lemma chain_upd:
  assumes "v4_unique s" and "\<And>a. a \<noteq> s_addr ip \<Longrightarrow> v4_chain a es = v4_chain a (buckets s (unat (ipset_hash ip)))"
    and "is_v4 ip"
  shows "a \<noteq> s_addr ip \<Longrightarrow> v4_lookup (s\<lparr>buckets := (buckets s)(unat (ipset_hash ip) := es), entry_count := c\<rparr>) a = v4_lookup s a"
    and "v4_lookup (s\<lparr>buckets := (buckets s)(unat (ipset_hash ip) := es), entry_count := c\<rparr>) (s_addr ip) =
      (case v4_chain (s_addr ip) es of [] \<Rightarrow> None | e # _ \<Rightarrow> Some (e_expires e))"
  using assms(2,3) by (simp_all add: v4_lookup_chain v4_hash_ip)

lemma v4_uniqueI:
  assumes "v4_unique s" and "ipset_wf s'" and "is_v4 ip"
    and "s' = s\<lparr>buckets := (buckets s)(unat (ipset_hash ip) := es), entry_count := c\<rparr>"
    and "\<And>a. a \<noteq> s_addr ip \<Longrightarrow> v4_chain a es = v4_chain a (buckets s (unat (ipset_hash ip)))"
    and "length (v4_chain (s_addr ip) es) \<le> 1"
    and "\<And>e. e \<in> set es \<Longrightarrow> family (e_ip e) = AF_INET \<Longrightarrow> e_prefix_len e = 32"
  shows "v4_unique s'"
proof -
  have "length (v4_chain a es) \<le> 1" for a
    using assms(1,5,6) by (cases "a = s_addr ip") (auto simp: v4_unique_def)
  then show ?thesis using assms(1,2,4,7) by (auto simp: v4_unique_def)
qed

text \<open>An addition that goes through: there is room, and an allocation or an entry to refresh.\<close>

lemma v4_add_stores:
  assumes u: "v4_unique s" and v: "is_v4 ip" and room: "unat (entry_count s) < unat (max_size s)"
    and ok: "ok \<or> v4_lookup s (s_addr ip) \<noteq> None"
  shows "v4_unique (v4_add s ok ip t) \<and> v4_lookup (v4_add s ok ip t) = (v4_lookup s)(s_addr ip \<mapsto> t) \<and>
    unat (entry_count (v4_add s ok ip t)) = unat (entry_count s) + of_bool (v4_lookup s (s_addr ip) = None) \<and>
    max_size (v4_add s ok ip t) = max_size s"
proof -
  let ?h = "unat (ipset_hash ip)"
  have wf: "ipset_wf s" using u by (simp add: v4_unique_def)
  have nf: "\<not> max_size s \<le> entry_count s" using room by (simp add: word_le_nat_alt)
  obtain es c where s': "v4_add s ok ip t = s\<lparr>buckets := (buckets s)(?h := es), entry_count := c\<rparr>"
    and r: "snd (ipset_add_expiring ok (Some s) ip t) = Some (v4_add s ok ip t)"
    and other: "\<And>a. a \<noteq> s_addr ip \<Longrightarrow> v4_chain a es = v4_chain a (buckets s ?h)"
    and own: "\<exists>e. v4_chain (s_addr ip) es = [e] \<and> e_expires e = t"
    and pre: "\<And>e. e \<in> set es \<Longrightarrow> family (e_ip e) = AF_INET \<Longrightarrow> e_prefix_len e = 32"
    and c: "unat c = unat (entry_count s) + of_bool (v4_lookup s (s_addr ip) = None)"
  proof (cases "ipset_touch ip t (buckets s ?h)")
    case None
    let ?e = "\<lparr>e_ip = ip, e_prefix_len = 32 :: u8, e_expires = t\<rparr>"
    have ch: "v4_chain (s_addr ip) (buckets s ?h) = []"
      using None u v by (auto simp: v4_chain_def filter_empty_conv touch_None v4_same v4_unique_def)
    then have n: "v4_lookup s (s_addr ip) = None" using v by (simp add: v4_lookup_chain v4_hash_ip)
    then have ok: ok using ok by simp
    have "unat (entry_count s + 1) = unat (entry_count s) + of_bool (v4_lookup s (s_addr ip) = None)"
      using unat_inc_less [of "entry_count s" "max_size s"] room n by (simp add: word_less_nat_alt)
    note ch this
    moreover have "e_prefix_len x = 32" if "x \<in> set (?e # buckets s ?h)" "family (e_ip x) = AF_INET" for x
      using u that by (auto simp: v4_unique_def)
    ultimately show ?thesis
      using that [of "entry_count s + 1" "?e # buckets s ?h"] None nf v ok
      by (simp add: v4_add_def ipset_add_expiring_def Let_def ipset_push_def is_v4_def)
  next
    case (Some es)
    obtain us e vs where t: "buckets s ?h = us @ e # vs" "es = us @ e\<lparr>e_expires := t\<rparr> # vs" "same_ip (e_ip e) ip"
      using touch_Some [OF Some] by blast
    have e: "family (e_ip e) = AF_INET" "s_addr (e_ip e) = s_addr ip" using t(3) v by (simp_all add: v4_same)
    have "length (v4_chain (s_addr ip) (us @ e # vs)) \<le> 1" using u t(1) unfolding v4_unique_def by metis
    then have "v4_chain (s_addr ip) us = []" "v4_chain (s_addr ip) vs = []" using e by simp_all
    moreover have "\<forall>x \<in> set (us @ e # vs). family (e_ip x) = AF_INET \<longrightarrow> e_prefix_len x = 32"
      using u t(1) unfolding v4_unique_def by metis
    then have "e_prefix_len x = 32" if "x \<in> set es" "family (e_ip x) = AF_INET" for x
      using that t(2) e by auto
    moreover have "v4_lookup s (s_addr ip) \<noteq> None"
      using e t(1) v by (auto simp: v4_lookup_chain v4_hash_ip split: list.splits)
    ultimately show ?thesis
      using that [of "entry_count s" es] Some nf e t
      by (simp add: v4_add_def ipset_add_expiring_def Let_def)
  qed
  have "ipset_add_expiring ok (Some s) ip t = (fst (ipset_add_expiring ok (Some s) ip t), Some (v4_add s ok ip t))"
    using r by (simp add: prod_eq_iff)
  then have "ipset_wf (v4_add s ok ip t)" by (rule add_expiring_wf [OF wf])
  then have "v4_unique (v4_add s ok ip t)"
    by (rule v4_uniqueI [OF u _ v s' other]) (use own pre in auto)
  moreover have "v4_lookup (v4_add s ok ip t) = (v4_lookup s)(s_addr ip \<mapsto> t)"
    using chain_upd [OF u other v, where c = c] own by (auto simp: s' fun_eq_iff)
  ultimately show ?thesis using c by (simp add: s')
qed

text \<open>One that does not changes nothing.\<close>

lemma v4_add_lost:
  assumes u: "v4_unique s" and v: "is_v4 ip"
    and no: "\<not> unat (entry_count s) < unat (max_size s) \<or> \<not> ok \<and> v4_lookup s (s_addr ip) = None"
  shows "v4_add s ok ip t = s"
proof (cases "max_size s \<le> entry_count s")
  case True
  then show ?thesis by (simp add: v4_add_def ipset_add_expiring_def)
next
  case False
  then have n: "\<not> ok" "v4_lookup s (s_addr ip) = None" using no by (auto simp: word_le_nat_alt)
  then have "v4_chain (s_addr ip) (buckets s (unat (ipset_hash ip))) = []"
    using v by (auto simp: v4_lookup_chain v4_hash_ip split: list.splits)
  then have "ipset_touch ip t (buckets s (unat (ipset_hash ip))) = None"
    using v by (auto simp: touch_None v4_chain_def filter_empty_conv v4_same)
  then show ?thesis using False n(1) by (simp add: v4_add_def ipset_add_expiring_def Let_def)
qed

lemma v4_remove_forgets:
  assumes u: "v4_unique s" and v: "is_v4 ip"
  shows "v4_unique (v4_remove s ip) \<and> v4_lookup (v4_remove s ip) = (v4_lookup s)(s_addr ip := None) \<and>
    unat (entry_count (v4_remove s ip)) = unat (entry_count s) - of_bool (v4_lookup s (s_addr ip) \<noteq> None) \<and>
    max_size (v4_remove s ip) = max_size s"
proof -
  let ?h = "unat (ipset_hash ip)"
  let ?P = "\<lambda>e. ip_addr_compare (e_ip e) ip = 0"
  have wf: "ipset_wf s" using u by (simp add: v4_unique_def)
  show ?thesis
  proof (cases "unlink_first ?P (buckets s ?h)")
    case None
    then have "v4_chain (s_addr ip) (buckets s ?h) = []"
      using v by (auto simp: v4_chain_def filter_empty_conv unlink_first_None ip_addr_compare_0 v4_same)
    then have "v4_lookup s (s_addr ip) = None" using v by (simp add: v4_lookup_chain v4_hash_ip)
    then show ?thesis using u None by (auto simp: v4_remove_def ipset_remove_def Let_def)
  next
    case (Some es)
    obtain us e vs where t: "buckets s ?h = us @ e # vs" "es = us @ vs" "?P e" using unlink_first_Some [OF Some] by blast
    have e: "family (e_ip e) = AF_INET" "s_addr (e_ip e) = s_addr ip" using t(3) v by (simp_all add: ip_addr_compare_0 v4_same)
    have "length (v4_chain (s_addr ip) (us @ e # vs)) \<le> 1" using u t(1) unfolding v4_unique_def by metis
    then have own: "v4_chain (s_addr ip) es = []" using e t(2) by simp
    have other: "v4_chain a es = v4_chain a (buckets s ?h)" if "a \<noteq> s_addr ip" for a
      using that e t by simp
    have "\<forall>x \<in> set (us @ e # vs). family (e_ip x) = AF_INET \<longrightarrow> e_prefix_len x = 32"
      using u t(1) unfolding v4_unique_def by metis
    then have pre: "x \<in> set es \<Longrightarrow> family (e_ip x) = AF_INET \<Longrightarrow> e_prefix_len x = 32" for x using t(2) by auto
    have s': "v4_remove s ip = s\<lparr>buckets := (buckets s)(?h := es), entry_count := entry_count s - 1\<rparr>"
      and r: "ipset_remove (Some s) ip = (0, Some (v4_remove s ip))"
      using Some by (simp_all add: v4_remove_def ipset_remove_def Let_def)
    have "e \<in> set (ipset_elems s)" using t(1) by (intro iffD2 [OF set_elems [OF wf]] exI [of _ ?h]) simp
    then have "entry_count s \<noteq> 0" using wf by (auto simp: ipset_wf_def)
    moreover have "v4_lookup s (s_addr ip) \<noteq> None"
      using e t(1) v by (auto simp: v4_lookup_chain v4_hash_ip split: list.splits)
    ultimately have "unat (entry_count s - 1) = unat (entry_count s) - of_bool (v4_lookup s (s_addr ip) \<noteq> None)" by (simp add: unat_dec)
    moreover have "v4_unique (v4_remove s ip)"
      by (rule v4_uniqueI [OF u remove_wf [OF wf r] v s' other]) (simp_all add: own pre)
    moreover have "v4_lookup (v4_remove s ip) = (v4_lookup s)(s_addr ip := None)"
      using chain_upd [OF u other v, where c = "entry_count s - 1"] own by (auto simp: s' fun_eq_iff)
    ultimately show ?thesis by (simp add: s')
  qed
qed

lemma v4_member_law:
  assumes u: "v4_unique s" and v: "is_v4 ip"
  shows "ipset_contains now (Some s) ip \<longleftrightarrow> (\<exists>t. v4_lookup s (s_addr ip) = Some t \<and> (t \<le> 0 \<or> now \<le> t))"
proof -
  let ?c = "v4_chain (s_addr ip) (buckets s (v4_hash (s_addr ip)))"
  have "ipset_contains now (Some s) ip \<longleftrightarrow> (\<exists>e \<in> set ?c. \<not> entry_expired now e)"
    using v by (auto simp: ipset_contains_def chain_contains_iff v4_same v4_chain_def v4_hash_ip)
  moreover have "length ?c \<le> 1" using u by (simp add: v4_unique_def)
  ultimately show ?thesis
    by (cases ?c) (auto simp: v4_lookup_chain entry_expired_def not_less)
qed

text \<open>The set holds IPv4 addresses only, and its counter is the size of the map.\<close>

definition v4_only :: "ipset \<Rightarrow> bool" where
  "v4_only s \<longleftrightarrow> v4_unique s \<and> finite (dom (v4_lookup s)) \<and> unat (entry_count s) = card (dom (v4_lookup s))"

lemma v4_add_law:
  assumes "v4_only s" and "is_v4 ip"
  shows "v4_only (v4_add s ok ip t) \<and>
    v4_lookup (v4_add s ok ip t) = map_add (unat (max_size s)) ok (v4_lookup s) (s_addr ip) t \<and>
    unat (max_size (v4_add s ok ip t)) = unat (max_size s)"
proof (cases "unat (entry_count s) < unat (max_size s) \<and> (ok \<or> v4_lookup s (s_addr ip) \<noteq> None)")
  case True
  have u: "v4_unique s" "finite (dom (v4_lookup s))" "unat (entry_count s) = card (dom (v4_lookup s))"
    using assms(1) by (simp_all add: v4_only_def)
  note st = v4_add_stores [OF u(1) assms(2) conjunct1 [OF True] conjunct2 [OF True], of t]
  have "card (insert (s_addr ip) (dom (v4_lookup s))) = card (dom (v4_lookup s)) + of_bool (v4_lookup s (s_addr ip) = None)"
    using u(2) by (auto simp: card_insert_if domIff)
  then show ?thesis using st u True by (auto simp: v4_only_def map_add_def domIff)
next
  case False
  then have "v4_add s ok ip t = s" using assms by (intro v4_add_lost) (auto simp: v4_only_def)
  then show ?thesis using False assms(1) by (auto simp: v4_only_def map_add_def domIff)
qed

lemma v4_remove_law:
  assumes "v4_only s" and "is_v4 ip"
  shows "v4_only (v4_remove s ip) \<and> v4_lookup (v4_remove s ip) = (v4_lookup s)(s_addr ip := None) \<and>
    unat (max_size (v4_remove s ip)) = unat (max_size s)"
proof -
  have u: "v4_unique s" "finite (dom (v4_lookup s))" "unat (entry_count s) = card (dom (v4_lookup s))"
    using assms(1) by (simp_all add: v4_only_def)
  have "card (dom (v4_lookup s) - {s_addr ip}) = card (dom (v4_lookup s)) - of_bool (v4_lookup s (s_addr ip) \<noteq> None)"
    using u(2) by (auto simp: card_Diff_singleton_if domIff)
  then show ?thesis using v4_remove_forgets [OF u(1) assms(2)] u by (simp add: v4_only_def dom_fun_upd)
qed

interpretation v4_set: expiring_set v4_only "\<lambda>s. unat (max_size s)"
  v4_lookup s_addr is_v4 v4_add v4_remove "\<lambda>now s. ipset_contains now (Some s)"
  using v4_add_law v4_remove_law v4_member_law by unfold_locales (auto simp: v4_only_def)

end
