(* ===== verification/Firewall.thy ===== *)
theory Firewall
  imports AddressSet
begin

text \<open>
  \<open>src/filter/firewall.c\<close>: blocking through \<open>iptables\<close> or \<open>nft\<close> commands, with a set that tracks
  the blocked addresses. The commands given to \<open>system\<close> are recorded in order; what \<open>system\<close>,
  the allocator, the clock and \<open>inet_ntop\<close> (\<open>ntop\<close>, for each family) answer are arguments.
\<close>

type_synonym inet_ntop = "(u32 \<Rightarrow> string) \<times> (128 word \<Rightarrow> string)"

abbreviation ip_text :: "inet_ntop \<Rightarrow> ip_addr \<Rightarrow> string" where
  "ip_text ntop \<equiv> ip_addr_to_string (fst ntop) (snd ntop)"

datatype firewall_backend = FIREWALL_BACKEND_IPTABLES | FIREWALL_BACKEND_NFTABLES

record firewall =
  fw_backend :: firewall_backend
  fw_blocked :: "ipset option"
  fw_issued :: "string list"

definition initial_firewall :: firewall where
  "initial_firewall = \<lparr>fw_backend = FIREWALL_BACKEND_IPTABLES, fw_blocked = None, fw_issued = []\<rparr>"

definition issue :: "string list \<Rightarrow> firewall \<Rightarrow> firewall" where
  "issue cmds fw = fw\<lparr>fw_issued := fw_issued fw @ cmds\<rparr>"

definition firewall_init :: "bool \<times> bool \<Rightarrow> firewall_backend \<Rightarrow> firewall \<Rightarrow> int \<times> firewall" where
  "firewall_init set_ok backend fw0 =
     (let fw = fw0\<lparr>fw_backend := backend, fw_blocked := ipset_create (fst set_ok) (snd set_ok) MAX_BLACKLIST_SIZE\<rparr>
      in if fw_blocked fw = None then (-1, fw)
         else if fw_backend fw = FIREWALL_BACKEND_IPTABLES then
           (0, issue [''iptables -N DDOS_PROTECT 2>/dev/null || true'',
                      ''iptables -F DDOS_PROTECT 2>/dev/null || true'',
                      ''iptables -I INPUT -j DDOS_PROTECT 2>/dev/null || true''] fw)
         else
           (0, issue [''nft add table inet ddos_protect 2>/dev/null || true'',
                      ''nft flush table inet ddos_protect 2>/dev/null || true''] fw))"

definition firewall_cleanup :: "firewall \<Rightarrow> firewall" where
  "firewall_cleanup fw0 =
     (let fw = (if fw_backend fw0 = FIREWALL_BACKEND_IPTABLES then
            issue [''iptables -D INPUT -j DDOS_PROTECT 2>/dev/null || true'',
                   ''iptables -F DDOS_PROTECT 2>/dev/null || true'',
                   ''iptables -X DDOS_PROTECT 2>/dev/null || true''] fw0
          else issue [''nft delete table inet ddos_protect 2>/dev/null || true''] fw0)
      in fw\<lparr>fw_blocked := None\<rparr>)"

definition block_cmd :: "firewall_backend \<Rightarrow> string \<Rightarrow> string" where
  "block_cmd backend ip_str =
     (if backend = FIREWALL_BACKEND_IPTABLES
      then ''iptables -I DDOS_PROTECT -s '' @ ip_str @ '' -j DROP''
      else ''nft add rule inet ddos_protect input ip saddr '' @ ip_str @ '' drop'')"

definition unblock_cmd :: "string \<Rightarrow> string" where
  "unblock_cmd ip_str = ''iptables -D DDOS_PROTECT -s '' @ ip_str @ '' -j DROP''"

definition firewall_block_ip ::
    "inet_ntop \<Rightarrow> int \<Rightarrow> time_t \<Rightarrow> bool \<Rightarrow> ip_addr \<Rightarrow> u32 \<Rightarrow> firewall \<Rightarrow> int \<times> firewall" where
  "firewall_block_ip ntop sys now alloc_ok ip duration_sec fw0 =
     (let fw = issue [block_cmd (fw_backend fw0) (ip_text ntop ip)] fw0
      in if sys \<noteq> 0 then (-1, fw)
         else
           (let expires = (if 0 < duration_sec then now + int (unat duration_sec) else 0)
            in (0, fw\<lparr>fw_blocked := snd (ipset_add_expiring alloc_ok (fw_blocked fw) ip expires)\<rparr>)))"

definition firewall_unblock_ip :: "inet_ntop \<Rightarrow> ip_addr \<Rightarrow> firewall \<Rightarrow> int \<times> firewall" where
  "firewall_unblock_ip ntop ip fw0 =
     (if fw_backend fw0 = FIREWALL_BACKEND_IPTABLES then
        (let fw = issue [unblock_cmd (ip_text ntop ip)] fw0
         in (0, fw\<lparr>fw_blocked := snd (ipset_remove (fw_blocked fw) ip)\<rparr>))
      else (0, fw0))"

definition firewall_is_blocked :: "time_t \<Rightarrow> ip_addr \<Rightarrow> firewall \<Rightarrow> bool" where
  "firewall_is_blocked now ip fw = ipset_contains now (fw_blocked fw) ip"

definition ratelimit_cmd :: "firewall_backend \<Rightarrow> string \<Rightarrow> u32 \<Rightarrow> string" where
  "ratelimit_cmd backend ip_str pps =
     (if backend = FIREWALL_BACKEND_IPTABLES
      then ''iptables -I DDOS_PROTECT -s '' @ ip_str @ '' -m limit --limit '' @ dec_digits (unat pps) @ ''/sec -j ACCEPT''
      else ''nft add rule inet ddos_protect input ip saddr '' @ ip_str @ '' limit rate '' @ dec_digits (unat pps) @
        ''/second accept'')"

definition firewall_add_ratelimit :: "inet_ntop \<Rightarrow> ip_addr \<Rightarrow> u32 \<Rightarrow> u32 \<Rightarrow> firewall \<Rightarrow> int \<times> firewall" where
  "firewall_add_ratelimit ntop ip pps bps fw =
     (0, issue [ratelimit_cmd (fw_backend fw) (ip_text ntop ip) pps] fw)"

definition firewall_remove_ratelimit :: "ip_addr \<Rightarrow> firewall \<Rightarrow> int \<times> firewall" where
  "firewall_remove_ratelimit ip fw = (0, fw)"

definition firewall_flush_all :: "firewall \<Rightarrow> int \<times> firewall" where
  "firewall_flush_all fw0 =
     (let fw = issue [if fw_backend fw0 = FIREWALL_BACKEND_IPTABLES then ''iptables -F DDOS_PROTECT''
                      else ''nft flush table inet ddos_protect''] fw0
      in (0, fw\<lparr>fw_blocked := ipset_clear (fw_blocked fw)\<rparr>))"

text \<open>The two counters are written through pointers that may be \<open>NULL\<close>.\<close>

definition firewall_get_stats :: "bool \<Rightarrow> bool \<Rightarrow> u64 \<times> u64 \<Rightarrow> firewall \<Rightarrow> int \<times> u64 \<times> u64" where
  "firewall_get_stats want_blocked want_limited old fw =
     (0, (if want_blocked then ucast (ipset_size (fw_blocked fw)) else fst old),
      (if want_limited then 0 else snd old))"

section \<open>Runs\<close>

text \<open>What happens to the firewall: a block, with the answers of \<open>system\<close>, the clock and the allocator,
  the address and the duration, or an unblock.\<close>

datatype fw_op = Block int time_t bool ip_addr u32 | Unblock ip_addr

fun fw_step :: "inet_ntop \<Rightarrow> firewall \<Rightarrow> fw_op \<Rightarrow> firewall" where
  "fw_step ntop fw (Block sys now ok ip dur) = snd (firewall_block_ip ntop sys now ok ip dur fw)"
| "fw_step ntop fw (Unblock ip) = snd (firewall_unblock_ip ntop ip fw)"

fun fw_address :: "fw_op \<Rightarrow> ip_addr" where
  "fw_address (Block sys now ok ip dur) = ip"
| "fw_address (Unblock ip) = ip"

text \<open>The specification: a map of at most 100000 IPv4 addresses to expiry times (0: never). A block is
  lost when its command fails, when the map is full, or when the address is new and there is no
  memory; an unblock does nothing under \<open>nftables\<close>.\<close>

fun blocked_map :: "firewall_backend \<Rightarrow> (u32 \<rightharpoonup> time_t) \<Rightarrow> fw_op \<Rightarrow> (u32 \<rightharpoonup> time_t)" where
  "blocked_map be m (Block sys now ok ip dur) =
     (if sys = 0 \<and> card (dom m) < 100000 \<and> (ok \<or> s_addr ip \<in> dom m)
      then m(s_addr ip \<mapsto> (if 0 < dur then now + int (unat dur) else 0)) else m)"
| "blocked_map be m (Unblock ip) = (if be = FIREWALL_BACKEND_IPTABLES then m(s_addr ip := None) else m)"

fun fw_commands :: "inet_ntop \<Rightarrow> firewall_backend \<Rightarrow> fw_op \<Rightarrow> string list" where
  "fw_commands ntop be (Block sys now ok ip dur) = [block_cmd be (ip_text ntop ip)]"
| "fw_commands ntop be (Unblock ip) = (if be = FIREWALL_BACKEND_IPTABLES then [unblock_cmd (ip_text ntop ip)] else [])"

fun set_ops :: "firewall_backend \<Rightarrow> fw_op \<Rightarrow> ip_addr set_op list" where
  "set_ops be (Block sys now ok ip dur) = (if sys \<noteq> 0 then [] else [Add ok ip (if 0 < dur then now + int (unat dur) else 0)])"
| "set_ops be (Unblock ip) = (if be = FIREWALL_BACKEND_IPTABLES then [Remove ip] else [])"

lemma set_ops_valid:
  "\<forall>x \<in> set ops. is_v4 (fw_address x) \<Longrightarrow> \<forall>y \<in> set (concat (map (set_ops be) ops)). is_v4 (v4_set.op_address y)"
proof (induction ops)
  case (Cons x ops)
  have "\<forall>y \<in> set (set_ops be x). is_v4 (v4_set.op_address y)" using Cons.prems by (cases x) auto
  with Cons show ?case by auto
qed simp

lemma set_ops_spec: "foldl (v4_set.spec 100000) m (concat (map (set_ops be) ops)) = foldl (blocked_map be) m ops"
proof (induction ops arbitrary: m)
  case (Cons x ops)
  have "foldl (v4_set.spec 100000) m (set_ops be x) = blocked_map be m x" by (cases x) (auto simp: map_add_def simp del: fun_upd_apply)
  with Cons.IH [of "blocked_map be m x"] show ?case by simp
qed simp

lemma v4_add_some: "snd (ipset_add_expiring ok (Some s) ip t) = Some (v4_add s ok ip t)"
  by (auto simp: v4_add_def ipset_add_expiring_def Let_def split: option.splits)

lemma v4_remove_some: "snd (ipset_remove (Some s) ip) = Some (v4_remove s ip)"
  by (auto simp: v4_remove_def ipset_remove_def Let_def split: option.splits)

lemma fw_step_set:
  assumes "fw_blocked fw = Some s"
  shows "fw_step ntop fw x = fw\<lparr>fw_blocked := Some (foldl v4_set.exec s (set_ops (fw_backend fw) x)),
    fw_issued := fw_issued fw @ fw_commands ntop (fw_backend fw) x\<rparr>"
  using assms
  by (cases x) (simp_all add: firewall_block_ip_def firewall_unblock_ip_def issue_def Let_def v4_add_some v4_remove_some)

lemma fw_run_set:
  assumes "fw_blocked fw = Some s"
  shows "foldl (fw_step ntop) fw ops = fw\<lparr>fw_blocked := Some (foldl v4_set.exec s (concat (map (set_ops (fw_backend fw)) ops))),
    fw_issued := fw_issued fw @ concat (map (fw_commands ntop (fw_backend fw)) ops)\<rparr>"
  using assms
proof (induction ops arbitrary: fw s)
  case (Cons x ops)
  let ?fw = "fw\<lparr>fw_blocked := Some (foldl v4_set.exec s (set_ops (fw_backend fw) x)),
    fw_issued := fw_issued fw @ fw_commands ntop (fw_backend fw) x\<rparr>"
  have "foldl (fw_step ntop) ?fw ops = ?fw\<lparr>fw_blocked :=
      Some (foldl v4_set.exec (foldl v4_set.exec s (set_ops (fw_backend fw) x)) (concat (map (set_ops (fw_backend ?fw)) ops))),
    fw_issued := fw_issued ?fw @ concat (map (fw_commands ntop (fw_backend ?fw)) ops)\<rparr>"
    by (rule Cons.IH) simp
  then show ?case by (simp add: fw_step_set [OF Cons.prems])
qed simp

lemma created_set:
  "ipset_create True True n = Some s \<Longrightarrow> v4_only s \<and> v4_lookup s = Map.empty \<and> max_size s = n"
proof -
  assume c: "ipset_create True True n = Some s"
  have "ipset_wf s" using c by (rule create_wf)
  moreover have l: "v4_lookup s = Map.empty" using c by (auto simp: v4_lookup_def ipset_create_def intro!: ext)
  ultimately show ?thesis using c unfolding v4_only_def l by (auto simp: v4_unique_def ipset_create_def)
qed

lemma fw_init_set:
  assumes "firewall_init (True, True) be fw0 = (0, fw)"
  obtains s where "ipset_create True True MAX_BLACKLIST_SIZE = Some s" and "fw_blocked fw = Some s" and "fw_backend fw = be"
  using assms by (cases be) (auto simp: ipset_create_def firewall_init_def Let_def issue_def)

lemma fw_run_blocked:
  assumes "firewall_init (True, True) be fw0 = (0, fw)"
    and "\<forall>x \<in> set ops. is_v4 (fw_address x)" and "is_v4 ip"
  shows "firewall_is_blocked now ip (foldl (fw_step ntop) fw ops) \<longleftrightarrow>
      (\<exists>t. foldl (blocked_map be) Map.empty ops (s_addr ip) = Some t \<and> (t \<le> 0 \<or> now \<le> t))"
    and "fw_issued (foldl (fw_step ntop) fw ops) = fw_issued fw @ concat (map (fw_commands ntop be) ops)"
proof -
  obtain s where s: "ipset_create True True MAX_BLACKLIST_SIZE = Some s" "fw_blocked fw = Some s"
    "fw_backend fw = be" using fw_init_set [OF assms(1)] by blast
  note c = created_set [OF s(1)]
  have cap: "unat MAX_BLACKLIST_SIZE = 100000" by (simp add: MAX_BLACKLIST_SIZE_def)
  from v4_set.member_run [OF conjunct1 [OF c] set_ops_valid [OF assms(2), of be] assms(3), of now] c
  show "firewall_is_blocked now ip (foldl (fw_step ntop) fw ops) \<longleftrightarrow>
      (\<exists>t. foldl (blocked_map be) Map.empty ops (s_addr ip) = Some t \<and> (t \<le> 0 \<or> now \<le> t))"
    by (simp add: fw_run_set [OF s(2)] s(3) firewall_is_blocked_def cap set_ops_spec)
  show "fw_issued (foldl (fw_step ntop) fw ops) = fw_issued fw @ concat (map (fw_commands ntop be) ops)"
    by (simp add: fw_run_set [OF s(2)] s(3))
qed

text \<open>C31: the firewall tracks the IPv4 addresses it blocked. After a successful \<open>firewall_init\<close> with either
  backend and any run of blocks and unblocks of IPv4 addresses, whatever \<open>system\<close> and the allocator
  answer, \<open>firewall_is_blocked\<close> says of every IPv4 address what a map from addresses to expiry times
  says (\<open>blocked_map\<close>): the last block that was not lost counts until its expiry, an unblock under
  \<open>iptables\<close> forgets the address, and under \<open>nftables\<close> it does nothing at all. The commands issued
  are one for every block, lost or not, and one for every unblock under \<open>iptables\<close>, in order.\<close>

theorem firewall_tracks_blocks:
  assumes "firewall_init (True, True) be fw0 = (0, fw)"
    and "\<forall>x \<in> set ops. is_v4 (fw_address x)" and "is_v4 ip"
  shows "(firewall_is_blocked now ip (foldl (fw_step ntop) fw ops) \<longleftrightarrow>
      (\<exists>t. foldl (blocked_map be) Map.empty ops (s_addr ip) = Some t \<and> (t \<le> 0 \<or> now \<le> t))) \<and>
    fw_issued (foldl (fw_step ntop) fw ops) = fw_issued fw @ concat (map (fw_commands ntop be) ops)"
  using fw_run_blocked [OF assms] by blast

definition example_fw :: firewall where
  "example_fw = snd (firewall_init (True, True) FIREWALL_BACKEND_IPTABLES initial_firewall)"

lemma example_fw_init:
  "firewall_init (True, True) FIREWALL_BACKEND_IPTABLES initial_firewall = (0, example_fw)"
  by (simp add: example_fw_def firewall_init_def Let_def initial_firewall_def issue_def ipset_create_def)

definition example_ntop :: inet_ntop where
  "example_ntop = ((\<lambda>_. ''192.0.2.1''), (\<lambda>_. ''::1''))"

theorem firewall_tracks_blocks_witness:
  "firewall_is_blocked 30 example_ip (foldl (fw_step example_ntop) example_fw [Block 0 5 True example_ip 60]) \<and>
   \<not> firewall_is_blocked 66 example_ip (foldl (fw_step example_ntop) example_fw [Block 0 5 True example_ip 60])"
  using firewall_tracks_blocks [OF example_fw_init, of "[Block 0 5 True example_ip 60]" example_ip 30 example_ntop]
    firewall_tracks_blocks [OF example_fw_init, of "[Block 0 5 True example_ip 60]" example_ip 66 example_ntop]
  by (simp add: is_v4_def example_ip_def)

text \<open>Rules outlive the tracking. A block with a duration is no longer reported after it, and a
  second block of the same address is forgotten with the first by one unblock; but no command removes
  the expired rule, and of the two inserted rules only one is deleted.\<close>

theorem firewall_rules_outlive_tracking:
  assumes "firewall_init (True, True) FIREWALL_BACKEND_IPTABLES fw0 = (0, fw)" and "is_v4 ip" and "0 < dur"
    and "0 \<le> t" and "t + int (unat dur) < now"
  shows "\<not> firewall_is_blocked now ip (foldl (fw_step ntop) fw [Block 0 t True ip dur]) \<and>
    fw_issued (foldl (fw_step ntop) fw [Block 0 t True ip dur]) =
      fw_issued fw @ [block_cmd FIREWALL_BACKEND_IPTABLES (ip_text ntop ip)] \<and>
    \<not> firewall_is_blocked later ip (foldl (fw_step ntop) fw [Block 0 t True ip dur, Block 0 t True ip dur, Unblock ip]) \<and>
    fw_issued (foldl (fw_step ntop) fw [Block 0 t True ip dur, Block 0 t True ip dur, Unblock ip]) =
      fw_issued fw @ [block_cmd FIREWALL_BACKEND_IPTABLES (ip_text ntop ip), block_cmd FIREWALL_BACKEND_IPTABLES (ip_text ntop ip),
        unblock_cmd (ip_text ntop ip)]"
proof -
  have pos: "0 < int (unat dur)"
    using assms(3) by (simp only: of_nat_0_less_iff unat_gt_0 word_gt_0)
  have ops: "\<forall>x \<in> set [Block 0 t True ip dur]. is_v4 (fw_address x)"
    "\<forall>x \<in> set [Block 0 t True ip dur, Block 0 t True ip dur, Unblock ip]. is_v4 (fw_address x)"
    using assms(2) by simp_all
  note one = fw_run_blocked [OF assms(1) ops(1) assms(2)]
    and three = fw_run_blocked [OF assms(1) ops(2) assms(2)]
  have "foldl (blocked_map FIREWALL_BACKEND_IPTABLES) Map.empty [Block 0 t True ip dur] (s_addr ip) = Some (t + int (unat dur))"
    using assms(3) by simp
  then have "\<not> firewall_is_blocked now ip (foldl (fw_step ntop) fw [Block 0 t True ip dur])"
    using one(1) [of now ntop] pos assms(4,5) by (simp del: foldl_Cons)
  moreover have "foldl (blocked_map FIREWALL_BACKEND_IPTABLES) Map.empty
      [Block 0 t True ip dur, Block 0 t True ip dur, Unblock ip] (s_addr ip) = None" by simp
  then have "\<not> firewall_is_blocked later ip (foldl (fw_step ntop) fw [Block 0 t True ip dur, Block 0 t True ip dur, Unblock ip])"
    using three(1) [of later ntop] by (simp del: foldl_Cons)
  ultimately show ?thesis using one(2) [of ntop] three(2) [of ntop] by (simp del: foldl_Cons)
qed

theorem firewall_rules_outlive_tracking_witness:
  "\<not> firewall_is_blocked 66 example_ip (foldl (fw_step example_ntop) example_fw [Block 0 5 True example_ip 60])"
  using firewall_rules_outlive_tracking [OF example_fw_init, of example_ip 60 5 66 example_ntop 0]
  by (simp add: is_v4_def example_ip_def del: foldl_Cons)

end
