(* ===== verification/XdpFilter.thy ===== *)
theory XdpFilter
  imports ParserProofs
begin

text \<open>
  \<open>ebpf/xdp_filter.c\<close>: the kernel-side filter on one frame, the bytes from \<open>data\<close> to \<open>data_end\<close>.
  The BPF maps are finite maps; \<open>stats\<close> is the slot of the processor the program runs on. A read
  past \<open>data_end\<close> is the fault \<open>OutOfBounds\<close> (the kernel's verifier would refuse the program).
\<close>

section \<open>Maps and actions\<close>

record xdp_maps =
  xdp_blacklist :: "u32 \<rightharpoonup> u64"
  xdp_whitelist :: "u32 \<rightharpoonup> u8"
  xdp_stats :: "u32 \<rightharpoonup> u64"

datatype xdp_action = XDP_PASS | XDP_DROP

definition STAT_TOTAL_PACKETS :: u32 where "STAT_TOTAL_PACKETS = 0"
definition STAT_DROPPED_PACKETS :: u32 where "STAT_DROPPED_PACKETS = 1"
definition STAT_PASSED_PACKETS :: u32 where "STAT_PASSED_PACKETS = 2"
definition STAT_SYN_PACKETS :: u32 where "STAT_SYN_PACKETS = 3"
definition STAT_UDP_PACKETS :: u32 where "STAT_UDP_PACKETS = 4"
definition STAT_ICMP_PACKETS :: u32 where "STAT_ICMP_PACKETS = 5"

lemmas stat_keys = STAT_TOTAL_PACKETS_def STAT_DROPPED_PACKETS_def STAT_PASSED_PACKETS_def STAT_SYN_PACKETS_def
  STAT_UDP_PACKETS_def STAT_ICMP_PACKETS_def

text \<open>The maps when the program is loaded: an array map has all its 256 keys.\<close>

definition xdp_loaded :: xdp_maps where
  "xdp_loaded = \<lparr>xdp_blacklist = Map.empty, xdp_whitelist = Map.empty, xdp_stats = (\<lambda>k. if k < 256 then Some 0 else None)\<rparr>"

definition update_stat :: "u32 \<Rightarrow> u64 \<Rightarrow> xdp_maps \<Rightarrow> xdp_maps" where
  "update_stat key delta m =
     (case xdp_stats m key of None \<Rightarrow> m | Some v \<Rightarrow> m\<lparr>xdp_stats := (xdp_stats m)(key \<mapsto> v + delta)\<rparr>)"

section \<open>The program\<close>

text \<open>Both parsers answer the offset of the header, or \<open>None\<close> for -1.\<close>

definition parse_eth :: "u8 list \<Rightarrow> nat option" where
  "parse_eth buf = (if length buf < ETH_HLEN then None else Some 0)"

definition parse_ipv4 :: "u8 list \<Rightarrow> nat option result" where
  "parse_ipv4 buf =
     (let iph = ETH_HLEN
      in if length buf < iph + IPHDR_LEN then Inr None
         else bindR (rd8 buf iph) (\<lambda>b. Inr (if b AND 0x0F < 5 then None else Some iph)))"

text \<open>The labels the code jumps to.\<close>

datatype xdp_label = L_pass | L_drop

definition xdp_tcp :: "u8 list \<Rightarrow> nat \<Rightarrow> xdp_maps \<Rightarrow> (xdp_label \<times> xdp_maps) result" where
  "xdp_tcp buf tcp m =
     (if length buf < tcp + TCPHDR_LEN then Inr (L_drop, m)
      else bindR (rd8 buf (tcp + 13)) (\<lambda>fl.
        (let fin = bit fl 0; syn = bit fl 1; rst = bit fl 2; psh = bit fl 3; ack = bit fl 4; urg = bit fl 5;
             m = (if syn \<and> \<not> ack then update_stat STAT_SYN_PACKETS 1 m else m)
         in Inr (if syn \<and> fin then L_drop
                 else if syn \<and> rst then L_drop
                 else if \<not> syn \<and> \<not> ack \<and> \<not> fin \<and> \<not> rst \<and> \<not> psh \<and> \<not> urg then L_drop
                 else L_pass, m))))"

definition xdp_udp :: "u8 list \<Rightarrow> nat \<Rightarrow> xdp_maps \<Rightarrow> (xdp_label \<times> xdp_maps) result" where
  "xdp_udp buf udp m =
     (if length buf < udp + UDPHDR_LEN then Inr (L_drop, m)
      else
        (let m = update_stat STAT_UDP_PACKETS 1 m
         in bindR (rd16 buf udp) (\<lambda>sport.
              if sport = 53 \<or> sport = 123 \<or> sport = 1900 \<or> sport = 11211 then
                bindR (rd16 buf (udp + 4)) (\<lambda>len.
                  Inr (if 512 < len - of_nat UDPHDR_LEN then L_drop else L_pass, m))
              else Inr (L_pass, m))))"

definition xdp_icmp :: "u8 list \<Rightarrow> nat \<Rightarrow> nat \<Rightarrow> xdp_maps \<Rightarrow> (xdp_label \<times> xdp_maps) result" where
  "xdp_icmp buf iph icmp m =
     (if length buf < icmp + ICMPHDR_LEN then Inr (L_drop, m)
      else
        (let m = update_stat STAT_ICMP_PACKETS 1 m
         in bindR (rd8 buf icmp) (\<lambda>type.
              if type = 5 then Inr (L_drop, m)
              else bindR (rd16 buf (iph + 2)) (\<lambda>tot_len. Inr (if 1500 < tot_len then L_drop else L_pass, m)))))"

text \<open>The switch on the protocol, and the fragment test after it, which changes nothing.\<close>

definition xdp_switch :: "u8 list \<Rightarrow> nat \<Rightarrow> xdp_maps \<Rightarrow> (xdp_label \<times> xdp_maps) result" where
  "xdp_switch buf iph m =
     bindR (rd8 buf (iph + 9)) (\<lambda>proto.
     bindR (rd8 buf iph) (\<lambda>b0.
     bindR (let th = iph + 4 * unat (b0 AND 0x0F)
            in if proto = PROTO_TCP then xdp_tcp buf th m
               else if proto = PROTO_UDP then xdp_udp buf th m
               else if proto = PROTO_ICMP then xdp_icmp buf iph th m
               else Inr (L_pass, m)) (\<lambda>(l, m).
       if l = L_drop then Inr (L_drop, m)
       else bindR (rd16 buf (iph + 6)) (\<lambda>frag_off. Inr (L_pass, m)))))"

definition xdp_lists :: "u8 list \<Rightarrow> nat \<Rightarrow> xdp_maps \<Rightarrow> (xdp_label \<times> xdp_maps) result" where
  "xdp_lists buf iph m =
     bindR (rd32 buf (iph + 12)) (\<lambda>saddr.
       (let src_ip = bswap32 saddr
        in if xdp_whitelist m src_ip \<noteq> None then Inr (L_pass, m)
           else if xdp_blacklist m src_ip \<noteq> None then Inr (L_drop, update_stat STAT_DROPPED_PACKETS 1 m)
           else xdp_switch buf iph m))"

definition xdp_body :: "u8 list \<Rightarrow> xdp_maps \<Rightarrow> (xdp_label \<times> xdp_maps) result" where
  "xdp_body buf m =
     (case parse_eth buf of
        None \<Rightarrow> Inr (L_pass, m)
      | Some eth \<Rightarrow>
          bindR (rd16 buf (eth + 12)) (\<lambda>h_proto.
            if h_proto \<noteq> 0x0800 then Inr (L_pass, m)
            else bindR (parse_ipv4 buf) (\<lambda>r.
              case r of None \<Rightarrow> Inr (L_drop, m) | Some iph \<Rightarrow> xdp_lists buf iph m)))"

definition xdp_ddos_filter :: "u8 list \<Rightarrow> xdp_maps \<Rightarrow> (xdp_action \<times> xdp_maps) result" where
  "xdp_ddos_filter buf m =
     bindR (xdp_body buf (update_stat STAT_TOTAL_PACKETS 1 m)) (\<lambda>(l, m).
       case l of
         L_pass \<Rightarrow> Inr (XDP_PASS, update_stat STAT_PASSED_PACKETS 1 m)
       | L_drop \<Rightarrow> Inr (XDP_DROP, update_stat STAT_DROPPED_PACKETS 1 m))"

section \<open>What a frame does\<close>

text \<open>The counters of the program, with 0 for a key that is not there.\<close>

definition stat :: "u32 \<Rightarrow> xdp_maps \<Rightarrow> u64" where
  "stat k m = (case xdp_stats m k of None \<Rightarrow> 0 | Some v \<Rightarrow> v)"

definition counters_present :: "xdp_maps \<Rightarrow> bool" where
  "counters_present m \<longleftrightarrow> (\<forall>k < 6. xdp_stats m k \<noteq> None)"

definition lists_of :: "xdp_maps \<Rightarrow> (u32 \<rightharpoonup> u64) \<times> (u32 \<rightharpoonup> u8)" where
  "lists_of m = (xdp_blacklist m, xdp_whitelist m)"

lemma update_stat_facts [simp]:
  "lists_of (update_stat k d m) = lists_of m"
  "xdp_blacklist (update_stat k d m) = xdp_blacklist m"
  "xdp_whitelist (update_stat k d m) = xdp_whitelist m"
  "counters_present (update_stat k d m) = counters_present m"
  "j \<noteq> k \<Longrightarrow> stat j (update_stat k d m) = stat j m"
  by (auto simp: update_stat_def lists_of_def counters_present_def stat_def split: option.splits)

lemma stat_update: "counters_present m \<Longrightarrow> k < 6 \<Longrightarrow> stat k (update_stat k d m) = stat k m + d"
  by (auto simp: update_stat_def counters_present_def stat_def split: option.splits)

text \<open>The source of the frame is on the blacklist and the frame gets that far.\<close>

definition xdp_blacklisted :: "u8 list \<Rightarrow> (u32 \<rightharpoonup> u64) \<times> (u32 \<rightharpoonup> u8) \<Rightarrow> bool" where
  "xdp_blacklisted buf = (\<lambda>(bl, wl). IPHDR_LEN + ETH_HLEN \<le> length buf \<and> be16 (buf ! 12) (buf ! 13) = 0x0800 \<and>
     5 \<le> buf ! 14 AND 0x0F \<and>
     (let a = bswap32 (be32 (buf ! 26) (buf ! 27) (buf ! 28) (buf ! 29)) in wl a = None \<and> bl a \<noteq> None))"

lemma low_nibble_le: "unat (b AND 0x0F :: u8) \<le> 15"
  using low_nibble [of b] by simp

text \<open>What the body leaves alone: everything but the counters of SYN, UDP and ICMP packets, and the
  dropped counter for a blacklisted source.\<close>

definition body_ok :: "xdp_maps \<Rightarrow> u64 \<Rightarrow> (xdp_label \<times> xdp_maps) result \<Rightarrow> bool" where
  "body_ok m d r \<longleftrightarrow> (\<exists>l m'. r = Inr (l, m') \<and> lists_of m' = lists_of m \<and> counters_present m' = counters_present m \<and>
     stat STAT_TOTAL_PACKETS m' = stat STAT_TOTAL_PACKETS m \<and> stat STAT_PASSED_PACKETS m' = stat STAT_PASSED_PACKETS m \<and>
     (counters_present m \<longrightarrow> stat STAT_DROPPED_PACKETS m' = stat STAT_DROPPED_PACKETS m + d) \<and> (d \<noteq> 0 \<longrightarrow> l = L_drop))"

lemma body_okI:
  "r = Inr (l, m') \<Longrightarrow> m' = m \<or> (\<exists>k \<in> {STAT_SYN_PACKETS, STAT_UDP_PACKETS, STAT_ICMP_PACKETS}. m' = update_stat k 1 m) \<Longrightarrow>
    body_ok m 0 r"
  by (auto simp: body_ok_def stat_keys)

lemma xdp_tcp_ok: "body_ok m 0 (xdp_tcp buf t m)"
  by (auto simp: xdp_tcp_def hdr_lens Let_def intro: body_okI)

lemma xdp_udp_ok: "body_ok m 0 (xdp_udp buf t m)"
  by (auto simp: xdp_udp_def hdr_lens Let_def intro: body_okI)

lemma xdp_icmp_ok: "i + 3 < length buf \<Longrightarrow> body_ok m 0 (xdp_icmp buf i t m)"
  by (auto simp: xdp_icmp_def hdr_lens Let_def intro: body_okI)

lemma xdp_switch_ok:
  assumes "34 \<le> length buf"
  shows "body_ok m 0 (xdp_switch buf 14 m)"
proof -
  let ?th = "14 + 4 * unat (buf ! 14 AND 0x0F)"
  let ?r = "if buf ! 23 = PROTO_TCP then xdp_tcp buf ?th m else if buf ! 23 = PROTO_UDP then xdp_udp buf ?th m
    else if buf ! 23 = PROTO_ICMP then xdp_icmp buf 14 ?th m else Inr (L_pass, m)"
  have ok: "body_ok m 0 ?r"
    using assms xdp_tcp_ok xdp_udp_ok xdp_icmp_ok [of 14 buf] by (auto intro: body_okI)
  then obtain l m' where r: "?r = Inr (l, m')" by (auto simp: body_ok_def)
  have "xdp_switch buf 14 m = bindR ?r (\<lambda>(l, m). if l = L_drop then Inr (L_drop, m)
      else bindR (rd16 buf (14 + 6)) (\<lambda>frag_off. Inr (L_pass, m)))"
    using assms by (simp add: xdp_switch_def Let_def)
  also have "\<dots> = Inr (l, m')" using assms by (cases l) (simp_all add: r)
  finally show ?thesis using ok r by simp
qed

lemma xdp_body_ok:
  "body_ok m (of_bool (xdp_blacklisted buf (lists_of m))) (xdp_body buf m)"
proof (cases "14 \<le> length buf \<and> be16 (buf ! 12) (buf ! 13) = 0x0800")
  case False
  then have "xdp_body buf m = Inr (L_pass, m)" by (auto simp: xdp_body_def parse_eth_def hdr_lens)
  moreover have "\<not> xdp_blacklisted buf (lists_of m)" using False by (auto simp: xdp_blacklisted_def hdr_lens)
  ultimately show ?thesis by (auto intro: body_okI)
next
  case ip: True
  show ?thesis
  proof (cases "34 \<le> length buf \<and> 5 \<le> buf ! 14 AND 0x0F")
    case False
    then have "xdp_body buf m = Inr (L_drop, m)"
      using ip by (auto simp: xdp_body_def parse_eth_def parse_ipv4_def hdr_lens not_le Let_def)
    moreover have "\<not> xdp_blacklisted buf (lists_of m)" using False by (auto simp: xdp_blacklisted_def hdr_lens)
    ultimately show ?thesis by (auto intro: body_okI)
  next
    case True
    let ?a = "bswap32 (be32 (buf ! 26) (buf ! 27) (buf ! 28) (buf ! 29))"
    have "xdp_body buf m = (if xdp_whitelist m ?a \<noteq> None then Inr (L_pass, m)
        else if xdp_blacklist m ?a \<noteq> None then Inr (L_drop, update_stat STAT_DROPPED_PACKETS 1 m)
        else xdp_switch buf 14 m)"
      using ip True by (auto simp: xdp_body_def parse_eth_def parse_ipv4_def hdr_lens not_less Let_def xdp_lists_def)
    moreover have "xdp_blacklisted buf (lists_of m) \<longleftrightarrow> xdp_whitelist m ?a = None \<and> xdp_blacklist m ?a \<noteq> None"
      using ip True by (auto simp: xdp_blacklisted_def hdr_lens lists_of_def Let_def)
    ultimately show ?thesis
      using xdp_switch_ok [of buf m] True
      by (auto intro: body_okI) (auto simp: body_ok_def stat_keys stat_update)
  qed
qed

lemma xdp_step:
  assumes "counters_present m"
  shows "\<exists>a m'. xdp_ddos_filter buf m = Inr (a, m') \<and> counters_present m' \<and> lists_of m' = lists_of m \<and>
    stat STAT_TOTAL_PACKETS m' = stat STAT_TOTAL_PACKETS m + 1 \<and>
    stat STAT_PASSED_PACKETS m' = stat STAT_PASSED_PACKETS m + of_bool (a = XDP_PASS) \<and>
    stat STAT_DROPPED_PACKETS m' = stat STAT_DROPPED_PACKETS m + of_bool (a = XDP_DROP) +
      of_bool (xdp_blacklisted buf (lists_of m)) \<and>
    (xdp_blacklisted buf (lists_of m) \<longrightarrow> a = XDP_DROP)"
proof -
  let ?m = "update_stat STAT_TOTAL_PACKETS 1 m"
  obtain l m1 where b: "xdp_body buf ?m = Inr (l, m1)" "lists_of m1 = lists_of m" "counters_present m1"
    "stat STAT_TOTAL_PACKETS m1 = stat STAT_TOTAL_PACKETS ?m" "stat STAT_PASSED_PACKETS m1 = stat STAT_PASSED_PACKETS ?m"
    "stat STAT_DROPPED_PACKETS m1 = stat STAT_DROPPED_PACKETS ?m + of_bool (xdp_blacklisted buf (lists_of m))"
    "xdp_blacklisted buf (lists_of m) \<longrightarrow> l = L_drop"
    using xdp_body_ok [of ?m buf] assms by (simp add: body_ok_def) blast
  then show ?thesis
    using assms stat_update [OF assms, of STAT_TOTAL_PACKETS 1] stat_update [OF b(3), of STAT_PASSED_PACKETS 1]
      stat_update [OF b(3), of STAT_DROPPED_PACKETS 1]
    by (cases l) (simp_all add: xdp_ddos_filter_def stat_keys)
qed

section \<open>Runs\<close>

fun xdp_run :: "u8 list list \<Rightarrow> xdp_maps \<Rightarrow> (xdp_action list \<times> xdp_maps) result" where
  "xdp_run [] m = Inr ([], m)"
| "xdp_run (buf # bufs) m =
     bindR (xdp_ddos_filter buf m) (\<lambda>(a, m). bindR (xdp_run bufs m) (\<lambda>(as, m). Inr (a # as, m)))"

lemma xdp_run_ok:
  assumes "counters_present m"
  shows "\<exists>as m'. xdp_run bufs m = Inr (as, m') \<and> length as = length bufs \<and> lists_of m' = lists_of m \<and>
    stat STAT_TOTAL_PACKETS m' = stat STAT_TOTAL_PACKETS m + of_nat (length bufs) \<and>
    stat STAT_PASSED_PACKETS m' = stat STAT_PASSED_PACKETS m + of_nat (count_list as XDP_PASS) \<and>
    stat STAT_DROPPED_PACKETS m' = stat STAT_DROPPED_PACKETS m + of_nat (count_list as XDP_DROP) +
      of_nat (length (filter (\<lambda>b. xdp_blacklisted b (lists_of m)) bufs))"
  using assms
proof (induction bufs arbitrary: m)
  case (Cons buf bufs)
  obtain a m1 where s: "xdp_ddos_filter buf m = Inr (a, m1)" "counters_present m1" "lists_of m1 = lists_of m"
    "stat STAT_TOTAL_PACKETS m1 = stat STAT_TOTAL_PACKETS m + 1"
    "stat STAT_PASSED_PACKETS m1 = stat STAT_PASSED_PACKETS m + of_bool (a = XDP_PASS)"
    "stat STAT_DROPPED_PACKETS m1 = stat STAT_DROPPED_PACKETS m + of_bool (a = XDP_DROP) +
      of_bool (xdp_blacklisted buf (lists_of m))"
    using xdp_step [OF Cons.prems] by blast
  from Cons.IH [OF s(2)] obtain as m' where "xdp_run bufs m1 = Inr (as, m')" "length as = length bufs"
    "lists_of m' = lists_of m1" "stat STAT_TOTAL_PACKETS m' = stat STAT_TOTAL_PACKETS m1 + of_nat (length bufs)"
    "stat STAT_PASSED_PACKETS m' = stat STAT_PASSED_PACKETS m1 + of_nat (count_list as XDP_PASS)"
    "stat STAT_DROPPED_PACKETS m' = stat STAT_DROPPED_PACKETS m1 + of_nat (count_list as XDP_DROP) +
      of_nat (length (filter (\<lambda>b. xdp_blacklisted b (lists_of m1)) bufs))" by blast
  with s show ?case by (cases a) auto
qed simp

text \<open>C32: the kernel program never reads outside the frame, and its counters balance. From the maps
  as loaded with any two lists, every sequence of frames is answered frame by frame without a fault;
  the total counts every frame, the passed counter every \<open>XDP_PASS\<close>, and the dropped counter every
  \<open>XDP_DROP\<close> plus every frame of a blacklisted source a second time (all modulo \<open>2^64\<close>).\<close>

theorem xdp_counters_balance:
  "\<exists>as m. xdp_run bufs (xdp_loaded\<lparr>xdp_blacklist := bl, xdp_whitelist := wl\<rparr>) = Inr (as, m) \<and>
    length as = length bufs \<and> xdp_blacklist m = bl \<and> xdp_whitelist m = wl \<and>
    stat STAT_TOTAL_PACKETS m = of_nat (length bufs) \<and>
    stat STAT_PASSED_PACKETS m = of_nat (count_list as XDP_PASS) \<and>
    stat STAT_DROPPED_PACKETS m = of_nat (count_list as XDP_DROP) +
      of_nat (length (filter (\<lambda>b. xdp_blacklisted b (bl, wl)) bufs))"
proof -
  let ?m = "xdp_loaded\<lparr>xdp_blacklist := bl, xdp_whitelist := wl\<rparr>"
  have k: "k < 6 \<Longrightarrow> k < 256" for k :: u32 by (simp add: word_less_nat_alt)
  have "counters_present ?m" using k by (auto simp: counters_present_def xdp_loaded_def)
  moreover have "stat k ?m = 0" for k by (simp add: stat_def xdp_loaded_def)
  moreover have "lists_of ?m = (bl, wl)" by (simp add: lists_of_def)
  ultimately show ?thesis using xdp_run_ok [of ?m bufs] by (simp add: lists_of_def)
qed

section \<open>The filter and the parser\<close>

text \<open>What the transport parsers leave alone.\<close>

definition network_part :: "packet \<Rightarrow> u8 list \<times> nat option \<times> bool \<times> u8 \<times> u32 \<times> ip_addr \<times> nat option \<times> u32" where
  "network_part p = (data p, ip_header p, is_ipv4 p, protocol p, ip_len p, src_ip p, transport_header p, transport_len p)"

definition transport_part :: "packet \<Rightarrow> u16 \<times> u16 \<times> u8" where
  "transport_part p = (src_port p, dst_port p, tcp_flags p)"

lemma parse_http_parts:
  "parse_http p = Inr (r, q) \<Longrightarrow> network_part q = network_part p \<and> transport_part q = transport_part p"
  by (auto simp: parse_http_def bindR_Inr_iff Let_def network_part_def transport_part_def split: option.splits if_splits)

lemma parse_tcp_parts:
  assumes "parse_tcp p = Inr (r, q)" and "20 \<le> unat (transport_len p)" and "transport_header p = Some t"
    and "t + 20 \<le> length (data p)"
  shows "network_part q = network_part p \<and> tcp_flags q = flags_of (data p ! (t + 13))"
  using assms by (auto simp: parse_tcp_def hdr_defs hdr_lens Let_def network_part_def split: if_splits)

lemma parse_udp_parts:
  assumes "parse_udp p = Inr (r, q)" and "8 \<le> unat (transport_len p)" and "transport_header p = Some t"
    and "t + 8 \<le> length (data p)"
  shows "network_part q = network_part p \<and> src_port q = be16 (data p ! t) (data p ! (t + 1))"
  using assms by (auto simp: parse_udp_def hdr_defs hdr_lens network_part_def)

lemma parse_icmp_parts:
  assumes "parse_icmp p = Inr (r, q)" and "8 \<le> unat (transport_len p)" and "transport_header p = Some t"
    and "t + 8 \<le> length (data p)"
  shows "network_part q = network_part p \<and> src_port q = ucast (data p ! t)"
  using assms by (auto simp: parse_icmp_def hdr_defs hdr_lens network_part_def)

lemma bindR_InrE:
  "bindR m k = Inr y \<Longrightarrow> (\<And>x. m = Inr x \<Longrightarrow> k x = Inr y \<Longrightarrow> P) \<Longrightarrow> P"
  by (auto simp: bindR_Inr_iff)

lemma parse_transport_network:
  assumes "parse_transport p = Inr q"
  shows "network_part q = network_part p"
proof -
  have "network_part q' = network_part p" if "parse_tcp p = Inr (r, q')" for r q'
    using that unfolding parse_tcp_def Let_def
    by (simp split: if_split_asm) (auto simp: network_part_def elim!: bindR_InrE split: if_split_asm)
  moreover have "network_part q' = network_part p" if "parse_udp p = Inr (r, q')" for r q'
    using that by (auto simp: parse_udp_def bindR_Inr_iff network_part_def split: if_splits)
  moreover have "network_part q' = network_part p" if "parse_icmp p = Inr (r, q')" for r q'
    using that by (auto simp: parse_icmp_def bindR_Inr_iff network_part_def split: if_splits)
  ultimately show ?thesis
    using assms by (auto simp: parse_transport_def bindR_Inr_iff dest: parse_http_parts split: if_splits)
qed

text \<open>The transport header the protocol needs is there, in the frame and in the datagram.\<close>

definition header_size :: "u8 \<Rightarrow> nat" where
  "header_size proto = (if proto = PROTO_TCP then 20 else if proto = PROTO_UDP \<or> proto = PROTO_ICMP then 8 else 0)"

definition header_complete :: "packet \<Rightarrow> bool" where
  "header_complete p \<longleftrightarrow> (\<exists>t. transport_header p = Some t \<and> t + header_size (protocol p) \<le> length (data p)) \<and>
     header_size (protocol p) \<le> unat (transport_len p)"

text \<open>The frames the filter refuses for what they contain, told from the parsed packet.\<close>

definition xdp_suspect :: "packet \<Rightarrow> bool" where
  "xdp_suspect p \<longleftrightarrow>
     (protocol p = PROTO_TCP \<and>
       (tcp_flags p AND (TCP_FLAG_SYN OR TCP_FLAG_FIN) = (TCP_FLAG_SYN OR TCP_FLAG_FIN) \<or>
        tcp_flags p AND (TCP_FLAG_SYN OR TCP_FLAG_RST) = (TCP_FLAG_SYN OR TCP_FLAG_RST) \<or> tcp_flags p = 0)) \<or>
     (protocol p = PROTO_UDP \<and> src_port p \<in> {53, 123, 1900, 11211} \<and>
       (\<exists>len. hdr16 p (transport_header p) 4 = Inr len \<and> 512 < len - 8)) \<or>
     (protocol p = PROTO_ICMP \<and> (src_port p = 5 \<or> (\<exists>tot. hdr16 p (ip_header p) 2 = Inr tot \<and> 1500 < tot)))"

lemma packet_parse_v4:
  assumes "packet_parse zero_packet buf (of_nat (length buf)) ts = Inr (0, p)" and "length buf < 2 ^ 32" and "is_ipv4 p"
  obtains p0 where "34 \<le> length buf" and "parse_transport p0 = Inr p" and "data p0 = buf"
    and "ip_header p0 = Some 14" and "protocol p0 = buf ! 23"
    and "unat (ip_len p0) = 4 * unat (buf ! 14 AND 0x0F)" and "transport_header p0 = Some (14 + 4 * unat (buf ! 14 AND 0x0F))"
    and "s_addr (src_ip p0) = bswap32 (be32 (buf ! 26) (buf ! 27) (buf ! 28) (buf ! 29))"
proof -
  have u: "unat (of_nat (length buf) :: u32) = length buf" using assms(2) by (simp add: unat_of_nat)
  let ?p1 = "zero_packet\<lparr>data := buf, pkt_len := of_nat (length buf), timestamp := ts\<rparr>"
  let ?p2 = "?p1\<lparr>eth_header := Some 0, eth_len := 14\<rparr>"
  have n: "length buf \<noteq> 0" "14 \<le> length buf"
    using assms(1) u by (auto simp: packet_parse_def Let_def parse_ethernet_def hdr_lens not_less split: if_splits)
  have e: "parse_ethernet ?p1 = (0, ?p2)" using u n by (simp add: parse_ethernet_def hdr_lens)
  obtain p0 where p0: "parse_ip ?p2 = Inr (0, p0)" "parse_transport p0 = Inr p"
    using assms(1) e by (auto simp: packet_parse_def Let_def bindR_Inr_iff split: if_splits)
  have v4: "is_ipv4 p0" using parse_transport_network [OF p0(2)] assms(3) by (simp add: network_part_def)
  have len: "34 \<le> length buf" using p0(1) u by (auto simp: parse_ip_def hdr_lens split: if_splits)
  then have "drop_bit 4 (buf ! 14) AND 0x0F = 4"
    using p0(1) v4 u by (auto simp: parse_ip_def hdr_lens Let_def parse_ip6_def bindR_Inr_iff split: if_splits)
  then have "p0 = ?p2\<lparr>ip_header := Some 14, is_ipv4 := True, is_ipv6 := False, protocol := buf ! 23,
      ip_len := 4 * ucast (buf ! 14 AND 0x0F),
      src_ip := set_v4 zero_ip (bswap32 (be32 (buf ! 26) (buf ! 27) (buf ! 28) (buf ! 29))),
      dst_ip := set_v4 zero_ip (bswap32 (be32 (buf ! 30) (buf ! 31) (buf ! 32) (buf ! 33))),
      transport_header := Some (14 + 4 * unat (buf ! 14 AND 0x0F)),
      transport_len := ucast (be16 (buf ! 16) (buf ! 17)) - 4 * ucast (buf ! 14 AND 0x0F)\<rparr>"
    using p0(1) u len by (simp add: parse_ip_def hdr_lens Let_def parse_ip4_def unat_ihl zero_packet_def)
  moreover have "s_addr (set_v4 zero_ip a) = a" for a
    by (rule bit_word_eqI) (simp add: s_addr_def set_v4_def zero_ip_def bit_simps)
  ultimately show ?thesis using that [of p0] len p0(2) by (simp add: unat_ihl)
qed


lemma flags_tests:
  "flags_of b AND (TCP_FLAG_SYN OR TCP_FLAG_FIN) = (TCP_FLAG_SYN OR TCP_FLAG_FIN) \<longleftrightarrow> bit b 1 \<and> bit b 0"
  "flags_of b AND (TCP_FLAG_SYN OR TCP_FLAG_RST) = (TCP_FLAG_SYN OR TCP_FLAG_RST) \<longleftrightarrow> bit b 1 \<and> bit b 2"
  "flags_of b = 0 \<longleftrightarrow> \<not> bit b 1 \<and> \<not> bit b 4 \<and> \<not> bit b 0 \<and> \<not> bit b 2 \<and> \<not> bit b 3 \<and> \<not> bit b 5"
  by (cases "bit b 0"; cases "bit b 1"; cases "bit b 2"; cases "bit b 3"; cases "bit b 4"; cases "bit b 5";
      simp add: flags_of_def tcp_flag_defs Let_def)+

text \<open>The label the switch ends at, for a frame with its headers complete.\<close>

lemma xdp_switch_label:
  assumes tr: "parse_transport p0 = Inr p" and ip: "data p0 = buf" "34 \<le> length buf" "protocol p0 = buf ! 23"
    "ip_header p0 = Some 14" "transport_header p0 = Some (14 + 4 * unat (buf ! 14 AND 0x0F))"
    and full: "header_complete p"
  shows "\<exists>m'. xdp_switch buf 14 m = Inr (if xdp_suspect p then L_drop else L_pass, m')"
proof -
  let ?t = "14 + 4 * unat (buf ! 14 AND 0x0F)"
  have np: "network_part p = network_part p0" using parse_transport_network [OF tr] .
  then have f: "data p = buf" "protocol p = buf ! 23" "ip_header p = Some 14" "transport_header p = Some ?t"
    "transport_len p = transport_len p0" using ip by (simp_all add: network_part_def)
  then have c: "?t + header_size (buf ! 23) \<le> length buf" "header_size (buf ! 23) \<le> unat (transport_len p0)"
    using full by (auto simp: header_complete_def)
  have sw: "xdp_switch buf 14 m = Inr (l, m')"
    if "(if buf ! 23 = PROTO_TCP then xdp_tcp buf ?t m else if buf ! 23 = PROTO_UDP then xdp_udp buf ?t m
      else if buf ! 23 = PROTO_ICMP then xdp_icmp buf 14 ?t m else Inr (L_pass, m)) = Inr (l, m')" for l m'
    using ip(2) unfolding xdp_switch_def by (cases l) (simp_all add: that)
  consider (tcp) "buf ! 23 = PROTO_TCP" | (udp) "buf ! 23 = PROTO_UDP" | (icmp) "buf ! 23 = PROTO_ICMP"
    | (other) "buf ! 23 \<notin> {PROTO_TCP, PROTO_UDP, PROTO_ICMP}" by blast
  then show ?thesis
  proof cases
    case tcp
    then have h: "?t + 20 \<le> length buf" "20 \<le> unat (transport_len p0)" using c by (simp_all add: header_size_def)
    obtain r q where q: "parse_tcp p0 = Inr (r, q)" "p = q \<or> (\<exists>r'. parse_http q = Inr (r', p))"
      using tr tcp ip(3) by (auto simp: parse_transport_def bindR_Inr_iff split: if_splits)
    have "tcp_flags q = flags_of (buf ! (?t + 13))" using parse_tcp_parts [OF q(1) h(2) ip(5)] h(1) ip(1) by simp
    then have fl: "tcp_flags p = flags_of (buf ! (?t + 13))"
      using q(2) by (auto dest: parse_http_parts simp: transport_part_def)
    have "xdp_suspect p \<longleftrightarrow> (bit (buf ! (?t + 13)) 1 \<and> bit (buf ! (?t + 13)) 0) \<or>
        (bit (buf ! (?t + 13)) 1 \<and> bit (buf ! (?t + 13)) 2) \<or> flags_of (buf ! (?t + 13)) = 0"
      unfolding xdp_suspect_def fl flags_tests(1,2) using f(2) tcp by (auto simp: proto_defs)
    then have "xdp_tcp buf ?t m = Inr (if xdp_suspect p then L_drop else L_pass,
        if bit (buf ! (?t + 13)) 1 \<and> \<not> bit (buf ! (?t + 13)) 4 then update_stat STAT_SYN_PACKETS 1 m else m)"
      using h(1) by (auto simp: xdp_tcp_def hdr_lens Let_def flags_tests(3))
    then show ?thesis using sw tcp by simp
  next
    case udp
    then have h: "?t + 8 \<le> length buf" "8 \<le> unat (transport_len p0)" using c by (simp_all add: header_size_def proto_defs)
    obtain r where q: "parse_udp p0 = Inr (r, p)"
      using tr udp ip(3) by (auto simp: parse_transport_def bindR_Inr_iff proto_defs split: if_splits)
    have sp: "src_port p = be16 (buf ! ?t) (buf ! (?t + 1))" using parse_udp_parts [OF q h(2) ip(5)] h(1) ip(1) by simp
    have "xdp_suspect p \<longleftrightarrow> src_port p \<in> {53, 123, 1900, 11211} \<and> 512 < be16 (buf ! (?t + 4)) (buf ! (?t + 5)) - 8"
      using f udp h(1) by (simp add: xdp_suspect_def proto_defs hdr_defs)
    then have "xdp_udp buf ?t m = Inr (if xdp_suspect p then L_drop else L_pass, update_stat STAT_UDP_PACKETS 1 m)"
      using h(1) sp by (auto simp: xdp_udp_def hdr_lens Let_def add.commute)
    then show ?thesis using sw udp by (simp add: proto_defs)
  next
    case icmp
    then have h: "?t + 8 \<le> length buf" "8 \<le> unat (transport_len p0)" using c by (simp_all add: header_size_def proto_defs)
    obtain r where q: "parse_icmp p0 = Inr (r, p)"
      using tr icmp ip(3) by (auto simp: parse_transport_def bindR_Inr_iff proto_defs split: if_splits)
    have sp: "src_port p = ucast (buf ! ?t)" using parse_icmp_parts [OF q h(2) ip(5)] h(1) ip(1) by simp
    have five: "(ucast b = (5 :: u16)) = (b = (5 :: u8))" for b
    proof
      assume "ucast b = (5 :: u16)"
      then have "ucast (ucast b :: u16) = (ucast (5 :: u16) :: u8)" by simp
      moreover have "ucast (ucast b :: u16) = b" by (rule bit_word_eqI) (simp add: bit_simps)
      ultimately show "b = 5" by simp
    qed simp
    have "xdp_suspect p \<longleftrightarrow> buf ! ?t = 5 \<or> 1500 < be16 (buf ! 16) (buf ! 17)"
      using f icmp ip(2) sp by (simp add: xdp_suspect_def proto_defs hdr_defs five)
    then have "xdp_icmp buf 14 ?t m = Inr (if xdp_suspect p then L_drop else L_pass, update_stat STAT_ICMP_PACKETS 1 m)"
      using h(1) ip(2) by (auto simp: xdp_icmp_def hdr_lens Let_def)
    then show ?thesis using sw icmp by (simp add: proto_defs)
  next
    case other
    then have "\<not> xdp_suspect p" using f by (simp add: xdp_suspect_def)
    then show ?thesis using sw other by simp
  qed
qed

text \<open>C33: the kernel filter and the user-space parser read a frame alike. For an IPv4 frame that the
  parser accepts, with an IP header of at least 20 bytes and its transport header complete, the
  filter drops it exactly when its parsed source address is not on the whitelist and is on the
  blacklist or the parsed fields are suspect: SYN with FIN or RST, no flags at all, a UDP answer of
  a reflection port with more than 512 bytes (a length field below 8 wraps and counts as such), an
  ICMP redirect, an ICMP datagram of more than 1500 bytes.\<close>

theorem xdp_agrees_with_parser:
  assumes "packet_parse zero_packet buf (of_nat (length buf)) ts = Inr (0, p)" and "length buf < 2 ^ 32"
    and "is_ipv4 p" and "be16 (buf ! 12) (buf ! 13) = 0x0800" and "20 \<le> unat (ip_len p)" and "header_complete p"
  shows "\<exists>a m'. xdp_ddos_filter buf m = Inr (a, m') \<and>
    (a = XDP_DROP \<longleftrightarrow> xdp_whitelist m (s_addr (src_ip p)) = None \<and>
      (xdp_blacklist m (s_addr (src_ip p)) \<noteq> None \<or> xdp_suspect p))"
proof -
  obtain p0 where p0: "34 \<le> length buf" "parse_transport p0 = Inr p" "data p0 = buf"
    "ip_header p0 = Some 14" "protocol p0 = buf ! 23" "unat (ip_len p0) = 4 * unat (buf ! 14 AND 0x0F)"
    "transport_header p0 = Some (14 + 4 * unat (buf ! 14 AND 0x0F))"
    "s_addr (src_ip p0) = bswap32 (be32 (buf ! 26) (buf ! 27) (buf ! 28) (buf ! 29))"
    using packet_parse_v4 [OF assms(1-3)] by blast
  have np: "network_part p = network_part p0" using parse_transport_network [OF p0(2)] .
  let ?a = "bswap32 (be32 (buf ! 26) (buf ! 27) (buf ! 28) (buf ! 29))" and ?m = "update_stat STAT_TOTAL_PACKETS 1 m"
  have a: "s_addr (src_ip p) = ?a" using np p0(8) by (simp add: network_part_def)
  have "5 \<le> unat (buf ! 14 AND 0x0F)" using assms(5) np p0(6) by (simp add: network_part_def)
  then have "\<not> buf ! 14 AND 0x0F < 5" by (simp add: word_less_nat_alt)
  then have b: "xdp_body buf ?m = (if xdp_whitelist m ?a \<noteq> None then Inr (L_pass, ?m)
      else if xdp_blacklist m ?a \<noteq> None then Inr (L_drop, update_stat STAT_DROPPED_PACKETS 1 ?m)
      else xdp_switch buf 14 ?m)"
    using assms(4) p0(1) by (auto simp: xdp_body_def parse_eth_def parse_ipv4_def hdr_lens Let_def xdp_lists_def)
  obtain m' where "xdp_switch buf 14 ?m = Inr (if xdp_suspect p then L_drop else L_pass, m')"
    using xdp_switch_label [OF p0(2,3,1,5,4,7) assms(6)] by blast
  then show ?thesis unfolding xdp_ddos_filter_def b a by simp
qed

text \<open>A SYN and FIN segment, from an address on neither list.\<close>

definition syn_fin_frame :: "u8 list" where
  "syn_fin_frame = ip4_frame (replicate 12 0 @ [8, 0]) PROTO_TCP 0xC0000201 0x0A000001 (tcp_segment 1234 443 7 9 0x03 [])"

theorem xdp_agrees_with_parser_witness:
  "\<exists>m'. xdp_ddos_filter syn_fin_frame xdp_loaded = Inr (XDP_DROP, m')"
proof -
  let ?eth = "replicate 12 0 @ [8, 0] :: u8 list"
  let ?seg = "tcp_segment 1234 443 7 9 0x03 []"
  let ?p = "(after_ip4 ?eth 0 PROTO_TCP 0xC0000201 0x0A000001 ?seg)\<lparr>src_port := 1234, dst_port := 443, tcp_seq := 7,
    tcp_ack := 9, tcp_flags := 0x03 AND 0x3F, payload := Some 54, payload_len := 0\<rparr>"
  have eth: "length ?eth = 14" by simp
  have len: "length syn_fin_frame = 54" by (simp add: syn_fin_frame_def length_ip4_frame length_tcp_segment)
  have "parse_transport (after_ip4 ?eth 0 PROTO_TCP 0xC0000201 0x0A000001 ?seg) = Inr ?p"
    using parse_tcp_segment [OF eth, of "[]" 0 PROTO_TCP "0xC0000201" "0x0A000001" 1234 443 7 9 3]
    by (simp add: parse_transport_def http_port_def after_ip4_def)
  then have parse: "packet_parse zero_packet syn_fin_frame (of_nat (length syn_fin_frame)) 0 = Inr (0, ?p)"
    using packet_parse_ip4 [OF eth, of ?seg PROTO_TCP "0xC0000201" "0x0A000001" 0]
    unfolding len by (simp add: syn_fin_frame_def length_tcp_segment)
  have "data ?p = syn_fin_frame" by (simp add: after_ip4_def syn_fin_frame_def)
  then have "header_complete ?p" using len
    by (simp add: header_complete_def header_size_def after_ip4_def length_tcp_segment proto_defs)
  moreover have "be16 (syn_fin_frame ! 12) (syn_fin_frame ! 13) = 0x0800"
    by (simp add: syn_fin_frame_def ip4_frame_def nth_append be16_def)
  moreover have "is_ipv4 ?p" "20 \<le> unat (ip_len ?p)" by (simp_all add: after_ip4_def)
  moreover have "xdp_suspect ?p" by (simp add: xdp_suspect_def after_ip4_def tcp_flag_defs)
  ultimately show ?thesis
    using xdp_agrees_with_parser [OF parse, of xdp_loaded] len by (auto simp: xdp_loaded_def)
qed

end
