(* ===== verification/Config.thy ===== *)
theory Config
  imports Detection
begin

text \<open>
  \<open>src/core/config.c\<close>: reading a configuration from JSON, validation, release and reload.
  The \<open>jansson\<close> library is outside the repository: its accessors are fields of the argument
  \<open>api\<close>, on a type of values of its own. A \<open>NULL\<close> value is \<open>None\<close>; the type tests answer false on it.
\<close>

section \<open>JSON values\<close>

text \<open>
  \<open>json_string_value\<close> and \<open>json_integer_value\<close> answer \<open>None\<close> where \<open>json_is_string\<close> and
  \<open>json_is_integer\<close> answer false.
\<close>

record 'j json_api =
  json_object_get :: "'j \<Rightarrow> string \<Rightarrow> 'j option"
  json_is_true :: "'j \<Rightarrow> bool"
  json_string_value :: "'j \<Rightarrow> string option"
  json_integer_value :: "'j \<Rightarrow> int option"

definition get_true :: "'j json_api \<Rightarrow> 'j \<Rightarrow> string \<Rightarrow> bool" where
  "get_true api obj key = (case json_object_get api obj key of None \<Rightarrow> False | Some j \<Rightarrow> json_is_true api j)"

definition get_int :: "'j json_api \<Rightarrow> 'j \<Rightarrow> string \<Rightarrow> int \<Rightarrow> int" where
  "get_int api obj key fallback =
     (case json_object_get api obj key of None \<Rightarrow> fallback
      | Some j \<Rightarrow> (case json_integer_value api j of None \<Rightarrow> fallback | Some v \<Rightarrow> v))"

text \<open>The idiom \<open>if (v && json_is_string(v)) field = strdup(...)\<close>; \<open>strdup\<close> is taken to succeed.\<close>

definition get_str :: "'j json_api \<Rightarrow> 'j \<Rightarrow> string \<Rightarrow> string option \<Rightarrow> string option" where
  "get_str api obj key old =
     (case json_object_get api obj key of None \<Rightarrow> old
      | Some j \<Rightarrow> (case json_string_value api j of None \<Rightarrow> old | Some s \<Rightarrow> Some s))"

section \<open>Parsing\<close>

definition DEFAULT_UDP_PPS_THRESHOLD :: int where "DEFAULT_UDP_PPS_THRESHOLD = 10000"
definition DEFAULT_TCP_SYN_PPS_THRESHOLD :: int where "DEFAULT_TCP_SYN_PPS_THRESHOLD = 5000"
definition DEFAULT_ICMP_PPS_THRESHOLD :: int where "DEFAULT_ICMP_PPS_THRESHOLD = 1000"
definition DEFAULT_HTTP_RPS_THRESHOLD :: int where "DEFAULT_HTTP_RPS_THRESHOLD = 100"

definition LOG_LEVEL_DEBUG :: int where "LOG_LEVEL_DEBUG = 0"
definition LOG_LEVEL_INFO :: int where "LOG_LEVEL_INFO = 1"
definition LOG_LEVEL_WARN :: int where "LOG_LEVEL_WARN = 2"
definition LOG_LEVEL_ERROR :: int where "LOG_LEVEL_ERROR = 3"
definition LOG_LEVEL_CRITICAL :: int where "LOG_LEVEL_CRITICAL = 4"

lemmas log_levels = LOG_LEVEL_DEBUG_def LOG_LEVEL_INFO_def LOG_LEVEL_WARN_def LOG_LEVEL_ERROR_def LOG_LEVEL_CRITICAL_def

definition zero_config :: config where
  "zero_config = \<lparr>interface = None, promiscuous_mode = False, snaplen = 0, num_workers = 0,
     cpu_affinity = False, numa_aware = False, udp_pps_threshold = 0, tcp_syn_pps_threshold = 0,
     tcp_ack_pps_threshold = 0, icmp_pps_threshold = 0, http_rps_threshold = 0,
     enable_rate_limiting = False, rate_limit_pps = 0, rate_limit_bps = 0, auto_blacklist = False,
     blacklist_duration = 0, whitelist_ips = [], blacklist_ips = [], enable_geoip = False,
     blocked_countries = [], geoip_db_path = None, enable_xdp = False, xdp_program_path = None,
     enable_http_protection = False, enable_js_challenge = False, enable_captcha = False,
     cfg_user_agent_blacklist = None, log_file = None, log_level = 0, syslog_enabled = False,
     enable_api = False, api_bind_address = None, api_port = 0, api_auth_token = None,
     enable_dashboard = False, dashboard_port = 0, enable_chroot = False, chroot_dir = None,
     drop_user = None, drop_group = None, enable_seccomp = False\<rparr>"

text \<open>One group of settings: skipped when its object is missing.\<close>

definition with_section :: "'j json_api \<Rightarrow> 'j \<Rightarrow> string \<Rightarrow> ('j \<Rightarrow> config \<Rightarrow> config) \<Rightarrow> config \<Rightarrow> config" where
  "with_section api root key f cfg = (case json_object_get api root key of None \<Rightarrow> cfg | Some j \<Rightarrow> f j cfg)"

definition parse_network :: "'j json_api \<Rightarrow> 'j \<Rightarrow> config \<Rightarrow> config" where
  "parse_network api network cfg = cfg\<lparr>
     interface := get_str api network ''interface'' (interface cfg),
     promiscuous_mode := get_true api network ''promiscuous'',
     snaplen := sint (word_of_int (get_int api network ''snaplen'' 65535) :: 32 word)\<rparr>"

definition parse_workers :: "'j json_api \<Rightarrow> 'j \<Rightarrow> config \<Rightarrow> config" where
  "parse_workers api root cfg = cfg\<lparr>
     num_workers := word_of_int (get_int api root ''workers'' 4),
     cpu_affinity := get_true api root ''cpu_affinity''\<rparr>"

definition parse_thresholds :: "'j json_api \<Rightarrow> 'j \<Rightarrow> config \<Rightarrow> config" where
  "parse_thresholds api th cfg = cfg\<lparr>
     udp_pps_threshold := word_of_int (get_int api th ''udp_pps'' DEFAULT_UDP_PPS_THRESHOLD),
     tcp_syn_pps_threshold := word_of_int (get_int api th ''tcp_syn_pps'' DEFAULT_TCP_SYN_PPS_THRESHOLD),
     icmp_pps_threshold := word_of_int (get_int api th ''icmp_pps'' DEFAULT_ICMP_PPS_THRESHOLD),
     http_rps_threshold := word_of_int (get_int api th ''http_rps'' DEFAULT_HTTP_RPS_THRESHOLD)\<rparr>"

definition parse_ratelimit :: "'j json_api \<Rightarrow> 'j \<Rightarrow> config \<Rightarrow> config" where
  "parse_ratelimit api rl cfg = cfg\<lparr>
     enable_rate_limiting := get_true api rl ''enabled'',
     rate_limit_pps := word_of_int (get_int api rl ''pps'' 1000),
     rate_limit_bps := word_of_int (get_int api rl ''bps'' 10000000)\<rparr>"

definition parse_auto_blacklist :: "'j json_api \<Rightarrow> 'j \<Rightarrow> config \<Rightarrow> config" where
  "parse_auto_blacklist api bl cfg = cfg\<lparr>
     auto_blacklist := get_true api bl ''enabled'',
     blacklist_duration := word_of_int (get_int api bl ''duration'' 3600)\<rparr>"

definition parse_geoip :: "'j json_api \<Rightarrow> 'j \<Rightarrow> config \<Rightarrow> config" where
  "parse_geoip api geoip cfg = cfg\<lparr>
     enable_geoip := get_true api geoip ''enabled'',
     geoip_db_path := get_str api geoip ''database'' (geoip_db_path cfg)\<rparr>"

definition parse_xdp :: "'j json_api \<Rightarrow> 'j \<Rightarrow> config \<Rightarrow> config" where
  "parse_xdp api xdp cfg = cfg\<lparr>
     enable_xdp := get_true api xdp ''enabled'',
     xdp_program_path := get_str api xdp ''program'' (xdp_program_path cfg)\<rparr>"

definition parse_http_protection :: "'j json_api \<Rightarrow> 'j \<Rightarrow> config \<Rightarrow> config" where
  "parse_http_protection api hp cfg = cfg\<lparr>
     enable_http_protection := get_true api hp ''enabled'',
     enable_js_challenge := get_true api hp ''js_challenge'',
     enable_captcha := get_true api hp ''captcha''\<rparr>"

definition level_of :: "string \<Rightarrow> int" where
  "level_of level_str =
     (if level_str = ''debug'' then LOG_LEVEL_DEBUG
      else if level_str = ''info'' then LOG_LEVEL_INFO
      else if level_str = ''warn'' then LOG_LEVEL_WARN
      else if level_str = ''error'' then LOG_LEVEL_ERROR
      else LOG_LEVEL_INFO)"

definition parse_logging :: "'j json_api \<Rightarrow> 'j \<Rightarrow> config \<Rightarrow> config" where
  "parse_logging api logging cfg = cfg\<lparr>
     log_file := get_str api logging ''file'' (log_file cfg),
     log_level := (case get_str api logging ''level'' None of None \<Rightarrow> log_level cfg | Some s \<Rightarrow> level_of s),
     syslog_enabled := get_true api logging ''syslog''\<rparr>"

definition parse_api :: "'j json_api \<Rightarrow> 'j \<Rightarrow> config \<Rightarrow> config" where
  "parse_api api obj cfg = cfg\<lparr>
     enable_api := get_true api obj ''enabled'',
     api_bind_address := get_str api obj ''bind_address'' (api_bind_address cfg),
     api_port := word_of_int (get_int api obj ''port'' 8080),
     api_auth_token := get_str api obj ''auth_token'' (api_auth_token cfg)\<rparr>"

definition parse_dashboard :: "'j json_api \<Rightarrow> 'j \<Rightarrow> config \<Rightarrow> config" where
  "parse_dashboard api obj cfg = cfg\<lparr>
     enable_dashboard := get_true api obj ''enabled'',
     dashboard_port := word_of_int (get_int api obj ''port'' 8081)\<rparr>"

definition parse_security :: "'j json_api \<Rightarrow> 'j \<Rightarrow> config \<Rightarrow> config" where
  "parse_security api sec cfg = cfg\<lparr>
     enable_chroot := get_true api sec ''chroot'',
     chroot_dir := get_str api sec ''chroot_dir'' (chroot_dir cfg),
     drop_user := get_str api sec ''drop_user'' (drop_user cfg),
     drop_group := get_str api sec ''drop_group'' (drop_group cfg),
     enable_seccomp := get_true api sec ''seccomp''\<rparr>"

text \<open>\<open>strcmp\<close> and the fields are read in the order of the code; no group reads another's fields.\<close>

definition parse_config_json :: "'j json_api \<Rightarrow> bool \<Rightarrow> 'j \<Rightarrow> config option" where
  "parse_config_json api alloc_ok root =
     (if \<not> alloc_ok then None
      else
        (let cfg = with_section api root ''network'' (parse_network api) zero_config;
             cfg = parse_workers api root cfg;
             cfg = with_section api root ''thresholds'' (parse_thresholds api) cfg;
             cfg = with_section api root ''ratelimit'' (parse_ratelimit api) cfg;
             cfg = with_section api root ''auto_blacklist'' (parse_auto_blacklist api) cfg;
             cfg = with_section api root ''geoip'' (parse_geoip api) cfg;
             cfg = with_section api root ''xdp'' (parse_xdp api) cfg;
             cfg = with_section api root ''http_protection'' (parse_http_protection api) cfg;
             cfg = with_section api root ''logging'' (parse_logging api) cfg;
             cfg = with_section api root ''api'' (parse_api api) cfg;
             cfg = with_section api root ''dashboard'' (parse_dashboard api) cfg;
             cfg = with_section api root ''security'' (parse_security api) cfg
         in Some cfg))"

text \<open>\<open>json_load_file\<close> answers \<open>file\<close>.\<close>

definition config_load :: "'j json_api \<Rightarrow> bool \<Rightarrow> 'j option \<Rightarrow> config option" where
  "config_load api alloc_ok file =
     (case file of None \<Rightarrow> None | Some root \<Rightarrow> parse_config_json api alloc_ok root)"

definition config_validate :: "config option \<Rightarrow> int" where
  "config_validate cp =
     (case cp of
        None \<Rightarrow> -1
      | Some cfg \<Rightarrow>
          if interface cfg = None then -1
          else if num_workers cfg = 0 \<or> MAX_WORKERS < num_workers cfg then -1
          else 0)"

section \<open>Release and reload\<close>

text \<open>The strings released, in order; \<open>free(NULL)\<close> releases nothing.\<close>

definition config_free :: "config option \<Rightarrow> string list" where
  "config_free cp =
     (case cp of None \<Rightarrow> []
      | Some cfg \<Rightarrow>
          concat (map (\<lambda>s. case s of None \<Rightarrow> [] | Some x \<Rightarrow> [x])
            [interface cfg, log_file cfg, geoip_db_path cfg, xdp_program_path cfg, api_bind_address cfg,
             api_auth_token cfg, chroot_dir cfg, drop_user cfg, drop_group cfg]))"

text \<open>A configuration with its lock; unlocking or destroying a lock in another state is undefined (\<open>None\<close>).\<close>

datatype rwlock = Unlocked | Write_locked

record locked_config =
  lc_config :: config
  lc_lock :: rwlock

fun rw_unlock :: "rwlock \<Rightarrow> rwlock option" where
  "rw_unlock Write_locked = Some Unlocked"
| "rw_unlock Unlocked = None"

fun rw_destroy :: "rwlock \<Rightarrow> bool" where
  "rw_destroy Unlocked = True"
| "rw_destroy Write_locked = False"

text \<open>
  \<open>config_reload\<close>: the result, the configuration afterwards and the released strings. The two
  structures are exchanged with everything in them.
\<close>

definition config_reload ::
    "'j json_api \<Rightarrow> bool \<Rightarrow> 'j option \<Rightarrow> locked_config \<Rightarrow> (int \<times> locked_config \<times> string list) option" where
  "config_reload api alloc_ok file lc =
     (case config_load api alloc_ok file of
        None \<Rightarrow> Some (-1, lc, [])
      | Some cfg \<Rightarrow>
          (let held = lc\<lparr>lc_lock := Write_locked\<rparr>;
               new_config = \<lparr>lc_config = cfg, lc_lock = Unlocked\<rparr>;
               (config, new_config) = (new_config, held)
           in case rw_unlock (lc_lock config) of
                None \<Rightarrow> None
              | Some l \<Rightarrow>
                  if rw_destroy (lc_lock new_config)
                  then Some (0, config\<lparr>lc_lock := l\<rparr>, config_free (Some (lc_config new_config)))
                  else None))"

section \<open>What is accepted\<close>

lemmas parse_defs = parse_network_def parse_workers_def parse_thresholds_def parse_ratelimit_def parse_auto_blacklist_def
  parse_geoip_def parse_xdp_def parse_http_protection_def parse_logging_def parse_api_def parse_dashboard_def
  parse_security_def

text \<open>A group changes nothing that its parser does not change.\<close>

lemma with_section_keeps: "(\<And>j c. g (f j c) = g c) \<Longrightarrow> g (with_section api root key f cfg) = g cfg"
  by (simp add: with_section_def split: option.split)

lemma parse_config_facts:
  assumes "config_load api ok (Some root) = Some cfg"
  shows "num_workers cfg = word_of_int (get_int api root ''workers'' 4)"
    and "interface cfg = (case json_object_get api root ''network'' of None \<Rightarrow> None
      | Some network \<Rightarrow> get_str api network ''interface'' None)"
    and "tcp_ack_pps_threshold cfg = 0" and "\<not> numa_aware cfg" and "whitelist_ips cfg = []" and "blacklist_ips cfg = []"
    and "blocked_countries cfg = []" and "cfg_user_agent_blacklist cfg = None"
    and "udp_pps_threshold cfg = (case json_object_get api root ''thresholds'' of None \<Rightarrow> 0
      | Some th \<Rightarrow> word_of_int (get_int api th ''udp_pps'' DEFAULT_UDP_PPS_THRESHOLD))"
    and "icmp_pps_threshold cfg = (case json_object_get api root ''thresholds'' of None \<Rightarrow> 0
      | Some th \<Rightarrow> word_of_int (get_int api th ''icmp_pps'' DEFAULT_ICMP_PPS_THRESHOLD))"
    and "http_rps_threshold cfg = (case json_object_get api root ''thresholds'' of None \<Rightarrow> 0
      | Some th \<Rightarrow> word_of_int (get_int api th ''http_rps'' DEFAULT_HTTP_RPS_THRESHOLD))"
    and "tcp_syn_pps_threshold cfg = (case json_object_get api root ''thresholds'' of None \<Rightarrow> 0
      | Some th \<Rightarrow> word_of_int (get_int api th ''tcp_syn_pps'' DEFAULT_TCP_SYN_PPS_THRESHOLD))"
proof -
  have cfg: "parse_config_json api True root = Some cfg"
    using assms by (simp add: config_load_def parse_config_json_def split: if_splits)
  note c = cfg [unfolded parse_config_json_def Let_def, simplified, symmetric]
  note ws = with_section_def zero_config_def parse_network_def parse_thresholds_def parse_workers_def
  show "num_workers cfg = word_of_int (get_int api root ''workers'' 4)"
    unfolding c by (simp add: with_section_keeps [where g = num_workers] parse_defs)
  show "interface cfg = (case json_object_get api root ''network'' of None \<Rightarrow> None
      | Some network \<Rightarrow> get_str api network ''interface'' None)"
    unfolding c by (simp add: with_section_keeps [where g = interface] parse_defs) (simp add: ws split: option.split)
  show "tcp_ack_pps_threshold cfg = 0"
    unfolding c by (simp add: with_section_keeps [where g = tcp_ack_pps_threshold] parse_defs zero_config_def)
  show "\<not> numa_aware cfg"
    unfolding c by (simp add: with_section_keeps [where g = numa_aware] parse_defs zero_config_def)
  show "whitelist_ips cfg = []"
    unfolding c by (simp add: with_section_keeps [where g = whitelist_ips] parse_defs zero_config_def)
  show "blacklist_ips cfg = []"
    unfolding c by (simp add: with_section_keeps [where g = blacklist_ips] parse_defs zero_config_def)
  show "blocked_countries cfg = []"
    unfolding c by (simp add: with_section_keeps [where g = blocked_countries] parse_defs zero_config_def)
  show "cfg_user_agent_blacklist cfg = None"
    unfolding c by (simp add: with_section_keeps [where g = cfg_user_agent_blacklist] parse_defs zero_config_def)
  show "udp_pps_threshold cfg = (case json_object_get api root ''thresholds'' of None \<Rightarrow> 0
      | Some th \<Rightarrow> word_of_int (get_int api th ''udp_pps'' DEFAULT_UDP_PPS_THRESHOLD))"
    unfolding c by (simp add: with_section_keeps [where g = udp_pps_threshold] parse_defs) (simp add: ws split: option.split)
  show "icmp_pps_threshold cfg = (case json_object_get api root ''thresholds'' of None \<Rightarrow> 0
      | Some th \<Rightarrow> word_of_int (get_int api th ''icmp_pps'' DEFAULT_ICMP_PPS_THRESHOLD))"
    unfolding c by (simp add: with_section_keeps [where g = icmp_pps_threshold] parse_defs) (simp add: ws split: option.split)
  show "http_rps_threshold cfg = (case json_object_get api root ''thresholds'' of None \<Rightarrow> 0
      | Some th \<Rightarrow> word_of_int (get_int api th ''http_rps'' DEFAULT_HTTP_RPS_THRESHOLD))"
    unfolding c by (simp add: with_section_keeps [where g = http_rps_threshold] parse_defs) (simp add: ws split: option.split)
  show "tcp_syn_pps_threshold cfg = (case json_object_get api root ''thresholds'' of None \<Rightarrow> 0
      | Some th \<Rightarrow> word_of_int (get_int api th ''tcp_syn_pps'' DEFAULT_TCP_SYN_PPS_THRESHOLD))"
    unfolding c by (simp add: with_section_keeps [where g = tcp_syn_pps_threshold] parse_defs) (simp add: ws split: option.split)
qed

text \<open>C34: which configurations are accepted. A loaded file is valid exactly when its network object
  names an interface and its number of workers, reduced modulo \<open>2^32\<close>, lies between 1 and 64; a
  missing or mistyped number counts as 4, a file that does not parse is invalid.\<close>

theorem config_validate_iff:
  "config_validate (config_load api True file) = 0 \<longleftrightarrow>
    (\<exists>root network name. file = Some root \<and> json_object_get api root ''network'' = Some network \<and>
      get_str api network ''interface'' None = Some name \<and>
      get_int api root ''workers'' 4 mod 2 ^ 32 \<in> {1..64})"
proof (cases "config_load api True file")
  case None
  then have "file = None" by (cases "file") (simp_all add: config_load_def parse_config_json_def)
  then show ?thesis using None by (simp add: config_validate_def)
next
  case (Some cfg)
  then obtain root where root: "file = Some root" by (cases "file") (simp_all add: config_load_def)
  note f = parse_config_facts [OF Some [unfolded root]]
  let ?n = "get_int api root ''workers'' 4"
  have u: "uint (word_of_int ?n :: u32) = ?n mod 2 ^ 32" by (simp add: uint_word_of_int)
  have "num_workers cfg = 0 \<longleftrightarrow> ?n mod 2 ^ 32 = 0" using u f(1) by (metis uint_0_iff)
  moreover have "MAX_WORKERS < num_workers cfg \<longleftrightarrow> 64 < ?n mod 2 ^ 32"
    using u f(1) by (simp add: MAX_WORKERS_def word_less_def)
  moreover have "0 \<le> ?n mod 2 ^ 32" by simp
  ultimately have "num_workers cfg = 0 \<or> MAX_WORKERS < num_workers cfg \<longleftrightarrow> \<not> ?n mod 2 ^ 32 \<in> {1..64}" by auto
  then show ?thesis
    unfolding Some by (auto simp: config_validate_def root f(2) split: option.splits)
qed

section \<open>Thresholds\<close>

text \<open>The thresholds of a file without a \<open>thresholds\<close> object are all 0, not the defaults (those
  apply only inside the object, key by key). Then every UDP and every ICMP packet that comes a
  second or more after the last update of its source's counters is dropped.\<close>

theorem config_without_thresholds:
  assumes "config_load api ok (Some root) = Some cfg" and "json_object_get api root ''thresholds'' = None"
    and "1 \<le> now - last_update st" and "udp_pps st + 1 \<noteq> 0" and "icmp_pps st + 1 \<noteq> 0"
  shows "udp_pps_threshold cfg = 0 \<and> tcp_syn_pps_threshold cfg = 0 \<and> icmp_pps_threshold cfg = 0 \<and>
    http_rps_threshold cfg = 0 \<and>
    (protocol pkt = PROTO_UDP \<and> udp_protect_analyze cfg now pkt (Some u, g, st) = Inr (v, s') \<longrightarrow> v = VERDICT_DROP) \<and>
    (protocol pkt = PROTO_ICMP \<longrightarrow> (\<exists>s'. icmp_protect_analyze cfg now pkt (Some i, g, st) = Inr (VERDICT_DROP, s')))"
proof -
  note f = parse_config_facts [OF assms(1)]
  have th: "udp_pps_threshold cfg = 0" "tcp_syn_pps_threshold cfg = 0" "icmp_pps_threshold cfg = 0" "http_rps_threshold cfg = 0"
    using f(9-12) assms(2) by simp_all
  have "0 < udp_pps st + 1" "0 < icmp_pps st + 1" using assms(4,5) by (simp_all add: word_gt_0)
  then show ?thesis
    using th assms(3) by (auto simp: udp_protect_analyze_def icmp_protect_analyze_def Let_def bindR_Inr_iff split: if_splits)
qed

text \<open>C35: the threshold for acknowledgements cannot be configured: no key of the file sets it, nor the
  address lists, the blocked countries and the list of user agents. So under every configuration an
  ACK (pure, or with PSH) that comes a second or more after the last update of its source's counters
  is dropped with the alarm of an ACK flood, on every connection the cache tracks, whatever its
  state, and on every new one it has room for. The update time stays, so the next one meets the same
  test.\<close>

theorem config_ack_unset:
  assumes "config_load api ok (Some root) = Some (te_cfg env)"
    and "tw_cache w = Some c" and "lru_ok (tw_heap w) c xs"
    and "tuple_key (packet_tuple pkt) \<in> set (lru_keys (tw_heap w) xs) \<or>
      length xs < unat (lru_max_size c) \<and> te_fresh env \<noteq> 0 \<and> tw_heap w (te_fresh env) = None"
    and "protocol pkt = PROTO_TCP" and "tcp_flags pkt \<in> {TCP_FLAG_ACK, TCP_FLAG_ACK OR TCP_FLAG_PSH}" and "tw_ctx w \<noteq> None"
    and "1 \<le> te_now env - last_update (tw_stats w)" and "tcp_ack_pps (tw_stats w) + 1 \<noteq> 0"
  shows "tcp_ack_pps_threshold (te_cfg env) = 0 \<and> whitelist_ips (te_cfg env) = [] \<and> blacklist_ips (te_cfg env) = [] \<and>
    blocked_countries (te_cfg env) = [] \<and> cfg_user_agent_blacklist (te_cfg env) = None \<and>
    (\<exists>w'. tcp_protect_analyze env pkt w = ret (VERDICT_DROP, w') \<and> tw_glob w' = alarm ATTACK_TCP_ACK_FLOOD (tw_glob w) \<and>
      last_update (tw_stats w') = last_update (tw_stats w))"
  using parse_config_facts(3,5-8) [OF assms(1)] tcp_ack_dropped_at_default [OF assms(2-7) _ assms(8,9)] by blast

section \<open>Reload\<close>

text \<open>A reload that can read its file is undefined behaviour: the structures are exchanged with their
  locks inside, so the unlock meets a lock that is not held (and the release a lock that is). A file
  that does not parse changes nothing.\<close>

theorem config_reload_undefined:
  "(config_load api ok file \<noteq> None \<longrightarrow> config_reload api ok file lc = None) \<and>
   (config_load api ok file = None \<longrightarrow> config_reload api ok file lc = Some (-1, lc, []))"
  by (simp add: config_reload_def split: option.split)

section \<open>A concrete file\<close>

datatype json = JTrue | JInt int | JStr string | JObj "(string \<times> json) list"

fun obj_get :: "json \<Rightarrow> string \<Rightarrow> json option" where
  "obj_get (JObj kvs) key = map_of kvs key"
| "obj_get _ key = None"

fun str_of :: "json \<Rightarrow> string option" where
  "str_of (JStr s) = Some s"
| "str_of _ = None"

fun int_of :: "json \<Rightarrow> int option" where
  "int_of (JInt n) = Some n"
| "int_of _ = None"

definition example_api :: "json json_api" where
  "example_api = \<lparr>json_object_get = obj_get, json_is_true = (\<lambda>j. j = JTrue), json_string_value = str_of,
     json_integer_value = int_of\<rparr>"

definition example_file :: json where
  "example_file = JObj [(''network'', JObj [(''interface'', JStr ''eth0''), (''promiscuous'', JTrue)]), (''workers'', JInt 4294967298)]"

definition example_loaded :: config where
  "example_loaded = the (config_load example_api True (Some example_file))"

lemma example_load: "config_load example_api True (Some example_file) = Some example_loaded"
  by (simp add: example_loaded_def config_load_def parse_config_json_def)

theorem config_validate_iff_witness: "config_validate (config_load example_api True (Some example_file)) = 0"
  using config_validate_iff [of example_api "Some example_file"]
  by (simp add: example_api_def example_file_def get_str_def get_int_def)

theorem config_without_thresholds_witness:
  "\<exists>s'. icmp_protect_analyze example_loaded 1 example_ping (Some icmp_ctx0, zero_global_stats, zero_ip_stats) = Inr (VERDICT_DROP, s')"
  using config_without_thresholds [OF example_load, of 1 zero_ip_stats example_ping udp_ctx0 zero_global_stats VERDICT_DROP
      "(None, zero_global_stats, zero_ip_stats)" icmp_ctx0]
  by (simp add: example_api_def example_file_def zero_ip_stats_def example_ping_def)

theorem config_ack_unset_witness:
  "(\<exists>w'. tcp_protect_analyze ((example_env 1 7)\<lparr>te_cfg := example_loaded\<rparr>) (example_tcp TCP_FLAG_ACK)
      (tcp_world0\<lparr>tw_heap := slow_heap, tw_cache := Some example_cache\<rparr>) = ret (VERDICT_DROP, w')) \<and>
   (\<exists>w'. tcp_protect_analyze ((example_env 1 7)\<lparr>te_cfg := example_loaded\<rparr>) (example_tcp TCP_FLAG_ACK) tcp_world0 = ret (VERDICT_DROP, w'))"
proof -
  let ?w = "tcp_world0\<lparr>tw_heap := slow_heap, tw_cache := Some example_cache\<rparr>"
  have k: "tuple_key (example_tuple 1) \<in> set (lru_keys (tw_heap ?w) [7])"
    by (simp add: lru_keys_def key_at_def slow_heap_def example_conn_def)
  have ok: "lru_ok (tw_heap ?w) example_cache [7]" "lru_ok (tw_heap tcp_world0) empty_cache []"
    by (simp_all add: slow_cache_ok empty_cache_ok)
  show ?thesis
    using config_ack_unset [of example_api True example_file "(example_env 1 7)\<lparr>te_cfg := example_loaded\<rparr>" ?w example_cache "[7]"
        "example_tcp TCP_FLAG_ACK", OF _ _ ok(1)]
      config_ack_unset [of example_api True example_file "(example_env 1 7)\<lparr>te_cfg := example_loaded\<rparr>" tcp_world0 empty_cache "[]"
        "example_tcp TCP_FLAG_ACK", OF _ _ ok(2)] example_load k
    by (auto simp: empty_cache_size)
qed

theorem config_reload_undefined_witness:
  "config_reload example_api True (Some example_file) \<lparr>lc_config = zero_config, lc_lock = Unlocked\<rparr> = None"
  using config_reload_undefined [of example_api True "Some example_file"] example_load by simp

end
