(* ===== verification/Logger.thy ===== *)
theory Logger
  imports Config
begin

text \<open>
  \<open>src/core/logger.c\<close>: levels, the log file with its rotation by size, \<open>syslog\<close> and the standard
  error stream. Messages are strings, already formatted. The mutex is a field of the state: locking
  it while it is held never returns (\<open>None\<close>), as the mutex of the code is not recursive.
\<close>

section \<open>State\<close>

definition MAX_LOG_LINE :: nat where "MAX_LOG_LINE = 4096"
definition MAX_LOG_SIZE :: u64 where "MAX_LOG_SIZE = 104857600"

text \<open>
  The fields of \<open>struct logger\<close>, then what has been written: the lines of the file under its name,
  the files it was renamed to, the \<open>syslog\<close> messages and the lines on standard error.
\<close>

record logger =
  lg_fp :: bool
  lg_file :: "string option"
  lg_level :: int
  lg_use_syslog :: bool
  lg_locked :: bool
  lg_bytes_written :: u64
  out_lines :: "string list"
  out_rotated :: "(string \<times> string list) list"
  out_syslog :: "(int \<times> string) list"
  out_stderr :: "string list"

definition g_logger :: logger where
  "g_logger = \<lparr>lg_fp = False, lg_file = None, lg_level = LOG_LEVEL_INFO, lg_use_syslog = False, lg_locked = False,
     lg_bytes_written = 0, out_lines = [], out_rotated = [], out_syslog = [], out_stderr = []\<rparr>"

text \<open>What the environment answers: the formatted time, the date suffix, \<open>rename\<close>, \<open>fopen\<close>.\<close>

record log_env =
  le_stamp :: string
  le_suffix :: string
  le_rename_ok :: bool
  le_open_ok :: bool

definition level_string :: "int \<Rightarrow> string" where
  "level_string level =
     (if level = LOG_LEVEL_DEBUG then ''DEBUG'' else if level = LOG_LEVEL_INFO then ''INFO''
      else if level = LOG_LEVEL_WARN then ''WARN'' else if level = LOG_LEVEL_ERROR then ''ERROR'' else ''CRITICAL'')"

definition level_to_syslog :: "int \<Rightarrow> int" where
  "level_to_syslog level =
     (if level = LOG_LEVEL_DEBUG then 7 else if level = LOG_LEVEL_INFO then 6
      else if level = LOG_LEVEL_WARN then 4 else if level = LOG_LEVEL_ERROR then 3 else 2)"

definition log_line :: "log_env \<Rightarrow> int \<Rightarrow> string \<Rightarrow> string" where
  "log_line env level message = ''['' @ le_stamp env @ ''] ['' @ level_string level @ ''] '' @ message"

section \<open>Messages and rotation\<close>

text \<open>The line in the file, and what goes to \<open>syslog\<close> and standard error.\<close>

definition log_append :: "log_env \<Rightarrow> int \<Rightarrow> string \<Rightarrow> logger \<Rightarrow> logger" where
  "log_append env level message g =
     g\<lparr>out_lines := out_lines g @ [log_line env level message],
       lg_bytes_written := lg_bytes_written g + of_nat (length message) + 64\<rparr>"

definition log_streams :: "log_env \<Rightarrow> int \<Rightarrow> string \<Rightarrow> logger \<Rightarrow> logger" where
  "log_streams env level message g =
     (let g1 = (if lg_use_syslog g then g\<lparr>out_syslog := out_syslog g @ [(level_to_syslog level, message)]\<rparr> else g)
      in if LOG_LEVEL_ERROR \<le> level then g1\<lparr>out_stderr := out_stderr g1 @ [log_line env level message]\<rparr> else g1)"

lemma log_append_facts [simp]:
  "lg_locked (log_append env level m g) = lg_locked g" "lg_fp (log_append env level m g) = lg_fp g"
  "lg_file (log_append env level m g) = lg_file g" "lg_level (log_append env level m g) = lg_level g"
  "lg_bytes_written (log_append env level m g) = lg_bytes_written g + of_nat (length m) + 64"
  by (simp_all add: log_append_def)

lemma log_streams_facts [simp]:
  "lg_locked (log_streams env level m g) = lg_locked g" "lg_fp (log_streams env level m g) = lg_fp g"
  "lg_file (log_streams env level m g) = lg_file g" "lg_level (log_streams env level m g) = lg_level g"
  "lg_bytes_written (log_streams env level m g) = lg_bytes_written g"
  by (simp_all add: log_streams_def Let_def)

function log_message :: "log_env \<Rightarrow> int \<Rightarrow> string \<Rightarrow> logger \<Rightarrow> logger option"
  and logger_rotate :: "log_env \<Rightarrow> logger \<Rightarrow> (int \<times> logger) option" where
  "log_message env level msg g0 =
     (if level < lg_level g0 then Some g0
      else if lg_locked g0 then None
      else
        (let message = take (MAX_LOG_LINE - 1) msg;
             g1 = g0\<lparr>lg_locked := True\<rparr>;
             g2 = log_append env level message g1
         in case (if lg_fp g1 then
                    if MAX_LOG_SIZE < lg_bytes_written g2 then map_option snd (logger_rotate env g2) else Some g2
                  else Some g1) of
              None \<Rightarrow> None
            | Some g3 \<Rightarrow> Some ((log_streams env level message g3)\<lparr>lg_locked := False\<rparr>)))"
| "logger_rotate env g0 =
     (if \<not> lg_fp g0 \<or> lg_file g0 = None then Some (-1, g0)
      else
        (let g1 = g0\<lparr>lg_fp := False\<rparr>;
             g2 = (if le_rename_ok env
                   then g1\<lparr>out_rotated := out_rotated g1 @ [(take 511 (the (lg_file g1) @ le_suffix env), out_lines g1)], out_lines := []\<rparr>
                   else g1\<lparr>out_stderr := out_stderr g1 @ [''Failed to rotate log'']\<rparr>)
         in if \<not> le_open_ok env then Some (-1, g2\<lparr>out_stderr := out_stderr g2 @ [''Failed to reopen log file'']\<rparr>)
            else
              (let g3 = g2\<lparr>lg_fp := True, lg_bytes_written := 0\<rparr>
               in case log_message env LOG_LEVEL_INFO ''[INFO] Log file rotated'' g3 of
                    None \<Rightarrow> None | Some g4 \<Rightarrow> Some (0, g4))))"
  by pat_completeness auto

text \<open>A call with the lock held calls nothing, and a rotation only ever logs.\<close>

termination
  by (relation "measure (case_sum (\<lambda>(env, level, msg, g). if lg_locked g then 0 else 3)
        (\<lambda>(env, g). if lg_locked g then 1 else 4))") (auto split: if_splits)

declare log_message.simps [simp del] logger_rotate.simps [simp del]

definition log_info :: "log_env \<Rightarrow> string \<Rightarrow> logger \<Rightarrow> logger option" where
  "log_info env msg g = log_message env LOG_LEVEL_INFO (''[INFO] '' @ msg) g"

definition log_attack ::
    "(ip_addr \<Rightarrow> string) \<Rightarrow> log_env \<Rightarrow> attack_type \<Rightarrow> ip_addr \<Rightarrow> string option \<Rightarrow> logger \<Rightarrow> logger option" where
  "log_attack show env type ip details g =
     log_message env LOG_LEVEL_WARN
       (''ATTACK DETECTED: '' @ attack_type_to_string type @ '' from '' @ show ip @ '' - '' @
        (case details of None \<Rightarrow> [] | Some d \<Rightarrow> d)) g"

definition log_packet_drop ::
    "(ip_addr \<Rightarrow> string) \<Rightarrow> log_env \<Rightarrow> ip_addr \<Rightarrow> string \<Rightarrow> logger \<Rightarrow> logger option" where
  "log_packet_drop show env ip reason g =
     log_message env LOG_LEVEL_DEBUG (''Dropped packet from '' @ show ip @ '': '' @ reason) g"

section \<open>Start and end\<close>

definition logger_init ::
    "log_env \<Rightarrow> bool \<Rightarrow> string option \<Rightarrow> int \<Rightarrow> bool \<Rightarrow> logger \<Rightarrow> (int \<times> logger) option" where
  "logger_init env strdup_ok file_name level use_syslog g0 =
     (if lg_locked g0 then None
      else
        (let g1 = g0\<lparr>lg_level := level, lg_use_syslog := use_syslog\<rparr>;
             started = (\<lambda>g. map_option (\<lambda>g. (0, g))
               (log_info env (''Logger initialized (level='' @ level_string level @ '', syslog='' @
                  (if use_syslog then ''yes'' else ''no'') @ '')'') g))
         in case file_name of
              None \<Rightarrow> started g1
            | Some f \<Rightarrow>
                if \<not> strdup_ok then Some (-1, g1\<lparr>lg_file := None\<rparr>)
                else if \<not> le_open_ok env then
                  Some (-1, g1\<lparr>lg_file := None, lg_fp := False, out_stderr := out_stderr g1 @ [''Failed to open log file'']\<rparr>)
                else started (g1\<lparr>lg_file := Some f, lg_fp := True\<rparr>)))"

definition logger_cleanup :: "logger \<Rightarrow> logger option" where
  "logger_cleanup g =
     (if lg_locked g then None
      else Some (g\<lparr>lg_fp := False, lg_file := None, lg_use_syslog := False\<rparr>))"

section \<open>Which calls return\<close>

definition rotation_due :: "string \<Rightarrow> logger \<Rightarrow> bool" where
  "rotation_due msg g \<longleftrightarrow> lg_fp g \<and>
     MAX_LOG_SIZE < lg_bytes_written g + of_nat (length (take (MAX_LOG_LINE - 1) msg)) + 64"

lemma log_filtered: "level < lg_level g \<Longrightarrow> log_message env level msg g = Some g"
  by (simp add: log_message.simps)

lemma log_locked: "lg_level g \<le> level \<Longrightarrow> lg_locked g \<Longrightarrow> log_message env level msg g = None"
  by (simp add: log_message.simps)

text \<open>A rotation under the lock: it returns when there is nothing to rotate, when the new file does not
  open, or when the level filters its own message.\<close>

lemma rotate_locked:
  assumes "lg_locked g"
  shows "logger_rotate env g = None \<longleftrightarrow> lg_fp g \<and> lg_file g \<noteq> None \<and> le_open_ok env \<and> lg_level g \<le> LOG_LEVEL_INFO"
proof (cases "lg_level g \<le> LOG_LEVEL_INFO")
  case True
  then show ?thesis using assms by (simp add: logger_rotate.simps Let_def log_locked)
next
  case False
  then show ?thesis using assms by (simp add: logger_rotate.simps Let_def log_filtered)
qed

lemma rotate_facts:
  assumes "logger_rotate env g = Some (r, g')" and "lg_locked g"
  shows "lg_locked g' \<and> lg_level g' = lg_level g \<and> lg_file g' = lg_file g \<and>
    (lg_fp g' \<longrightarrow> lg_fp g \<and> (lg_file g \<noteq> None \<longrightarrow> lg_bytes_written g' = 0))"
proof -
  have "lg_level g \<le> LOG_LEVEL_INFO \<longrightarrow> \<not> (lg_fp g \<and> lg_file g \<noteq> None \<and> le_open_ok env)"
    using rotate_locked [OF assms(2), of env] assms(1) by auto
  then show ?thesis
    using assms by (cases "lg_level g \<le> LOG_LEVEL_INFO")
      (auto simp: logger_rotate.simps Let_def log_filtered split: if_splits)
qed

lemma case_None: "(case m of None \<Rightarrow> None | Some x \<Rightarrow> Some (f x)) = None \<longleftrightarrow> m = None"
  by (cases m) simp_all

lemma log_returns:
  assumes "\<not> lg_locked g" and "lg_level g \<le> level"
  shows "log_message env level msg g = None \<longleftrightarrow>
    rotation_due msg g \<and> lg_file g \<noteq> None \<and> le_open_ok env \<and> lg_level g \<le> LOG_LEVEL_INFO"
  using assms
  by (simp only: log_message.simps [of env level] Let_def case_None if_False linorder_not_less [symmetric] simp_thms)
    (auto simp: rotation_due_def rotate_locked)

text \<open>C36: the first rotation of a log hangs. A call with the lock free returns unless the file passes
  100 MB with it and can be reopened, and the level lets informational messages through: then
  \<open>logger_rotate\<close> logs its own success while the lock is held, and the call never ends. A call below
  the level always returns, and one that meets the lock never does.\<close>

theorem log_rotation_deadlock:
  "(level < lg_level g \<longrightarrow> log_message env level msg g = Some g) \<and>
   (lg_level g \<le> level \<and> lg_locked g \<longrightarrow> log_message env level msg g = None) \<and>
   (lg_level g \<le> level \<and> \<not> lg_locked g \<longrightarrow>
     (log_message env level msg g = None \<longleftrightarrow>
      lg_fp g \<and> lg_file g \<noteq> None \<and> le_open_ok env \<and> lg_level g \<le> LOG_LEVEL_INFO \<and>
      MAX_LOG_SIZE < lg_bytes_written g + of_nat (length (take (MAX_LOG_LINE - 1) msg)) + 64))"
  using log_filtered [of level g] log_locked [of g level] log_returns [of g level env msg]
  by (auto simp: rotation_due_def)

section \<open>The size of the log\<close>

text \<open>Between calls the lock is free, an open file has a name and at most 100 MB.\<close>

definition logger_ok :: "logger \<Rightarrow> bool" where
  "logger_ok g \<longleftrightarrow> \<not> lg_locked g \<and> (lg_fp g \<longrightarrow> lg_file g \<noteq> None \<and> lg_bytes_written g \<le> MAX_LOG_SIZE)"

lemma log_message_ok:
  assumes "logger_ok g" and "log_message env level msg g = Some g'"
  shows "logger_ok g' \<and> lg_level g' = lg_level g \<and> lg_file g' = lg_file g"
proof (cases "level < lg_level g")
  case True
  then show ?thesis using assms by (simp add: log_filtered)
next
  case False
  let ?m = "take (MAX_LOG_LINE - 1) msg"
  let ?g1 = "g\<lparr>lg_locked := True\<rparr>"
  let ?g2 = "log_append env level ?m ?g1"
  have u: "\<not> lg_locked g" using assms(1) by (simp add: logger_ok_def)
  obtain g3 where g3: "(if lg_fp ?g1 then if MAX_LOG_SIZE < lg_bytes_written ?g2 then map_option snd (logger_rotate env ?g2)
      else Some ?g2 else Some ?g1) = Some g3"
    and g': "g' = (log_streams env level ?m g3)\<lparr>lg_locked := False\<rparr>"
    using assms(2) False u unfolding log_message.simps [of env level] Let_def by (simp split: option.splits)
  have "(lg_fp g3 \<longrightarrow> lg_file g3 \<noteq> None \<and> lg_bytes_written g3 \<le> MAX_LOG_SIZE) \<and> lg_level g3 = lg_level g \<and> lg_file g3 = lg_file g"
  proof (cases "lg_fp g \<and> MAX_LOG_SIZE < lg_bytes_written ?g2")
    case True
    then obtain r where "logger_rotate env ?g2 = Some (r, g3)" using g3 by auto
    from rotate_facts [OF this] assms(1) show ?thesis by (auto simp: logger_ok_def)
  next
    case F: False
    then have "g3 = ?g2 \<or> g3 = ?g1 \<and> \<not> lg_fp g" using g3 by (auto split: if_splits)
    with F assms(1) show ?thesis by (auto simp: logger_ok_def not_less)
  qed
  then show ?thesis by (simp add: g' logger_ok_def) metis
qed

text \<open>Messages, each in its environment.\<close>

fun log_run :: "(log_env \<times> int \<times> string) list \<Rightarrow> logger \<Rightarrow> logger option" where
  "log_run [] g = Some g"
| "log_run ((env, level, msg) # xs) g = Option.bind (log_message env level msg g) (log_run xs)"

lemma log_run_ok:
  "logger_ok g \<Longrightarrow> log_run xs g = Some g' \<Longrightarrow> logger_ok g' \<and> lg_level g' = lg_level g \<and> lg_file g' = lg_file g"
proof (induction xs arbitrary: g)
  case (Cons x xs)
  obtain env level msg where x: "x = (env, level, msg)" by (cases x)
  obtain g1 where "log_message env level msg g = Some g1" "log_run xs g1 = Some g'"
    using Cons.prems(2) x by (auto simp: bind_eq_Some_conv)
  with log_message_ok [OF Cons.prems(1) this(1)] Cons.IH [of g1] show ?case by simp
qed simp

text \<open>C37: the invariant of the logger. After a successful start and any run of messages that returns, the
  lock is free and the level and the file name are those given; while the file is open it has a name
  and at most 100 MB are counted since the last rotation. A logger filtered to warnings or errors
  always returns.\<close>

theorem logger_invariant:
  assumes "logger_init env True file_name level sys g_logger = Some (0, g)" and "log_run xs g = Some g'"
  shows "\<not> lg_locked g' \<and> lg_level g' = level \<and> lg_file g' = file_name \<and>
    (lg_fp g' \<longrightarrow> file_name \<noteq> None \<and> lg_bytes_written g' \<le> MAX_LOG_SIZE) \<and>
    (LOG_LEVEL_INFO < level \<longrightarrow> log_run ys g' \<noteq> None)"
proof -
  let ?g1 = "g_logger\<lparr>lg_level := level, lg_use_syslog := sys\<rparr>"
  obtain g0 msg where g0: "log_info env msg g0 = Some g" "logger_ok g0" "lg_level g0 = level" "lg_file g0 = file_name"
  proof (cases file_name)
    case None
    then show ?thesis using assms(1) that [of _ ?g1]
      by (auto simp: logger_init_def g_logger_def Let_def logger_ok_def)
  next
    case (Some f)
    then show ?thesis using assms(1) that [of _ "?g1\<lparr>lg_file := Some f, lg_fp := True\<rparr>"]
      by (auto simp: logger_init_def g_logger_def Let_def logger_ok_def MAX_LOG_SIZE_def split: if_splits)
  qed
  have "logger_ok g \<and> lg_level g = level \<and> lg_file g = file_name"
    using log_message_ok [OF g0(2) g0(1) [unfolded log_info_def]] g0(3,4) by simp
  then have g': "logger_ok g'" "lg_level g' = level" "lg_file g' = file_name" using log_run_ok assms(2) by auto
  have "log_run ys h \<noteq> None" if "logger_ok h" "LOG_LEVEL_INFO < lg_level h" for h
    using that
  proof (induction ys arbitrary: h)
    case (Cons y ys)
    obtain e l m where y: "y = (e, l, m)" by (cases y)
    have "log_message e l m h \<noteq> None"
      using Cons.prems log_filtered [of l h] log_returns [of h l e m] by (cases "l < lg_level h") (auto simp: logger_ok_def)
    then obtain h1 where h1: "log_message e l m h = Some h1" by auto
    then show ?case using log_message_ok [OF Cons.prems(1) h1] Cons.IH [of h1] Cons.prems(2) y by simp
  qed simp
  with g' show ?thesis by (auto simp: logger_ok_def)
qed

section \<open>A concrete log\<close>

definition example_log_env :: log_env where
  "example_log_env = \<lparr>le_stamp = ''2025-01-01 00:00:00'', le_suffix = ''.20250101_000000'', le_rename_ok = True, le_open_ok = True\<rparr>"

text \<open>A log file with 100 MB counted.\<close>

definition full_log :: logger where
  "full_log = g_logger\<lparr>lg_fp := True, lg_file := Some ''ddos.log'', lg_bytes_written := MAX_LOG_SIZE\<rparr>"

theorem log_rotation_deadlock_witness: "log_message example_log_env LOG_LEVEL_INFO ''x'' full_log = None"
  using log_rotation_deadlock [of LOG_LEVEL_INFO full_log example_log_env "''x''"]
  by (simp add: full_log_def g_logger_def example_log_env_def MAX_LOG_SIZE_def MAX_LOG_LINE_def)

theorem logger_invariant_witness:
  "\<exists>g g'. logger_init example_log_env True None LOG_LEVEL_WARN False g_logger = Some (0, g) \<and>
    log_run [(example_log_env, LOG_LEVEL_ERROR, ''x'')] g = Some g' \<and> \<not> lg_locked g'"
proof -
  have "\<exists>g. logger_init example_log_env True None LOG_LEVEL_WARN False g_logger = Some (0, g) \<and> logger_ok g"
    by (simp add: logger_init_def g_logger_def Let_def log_info_def log_filtered log_levels logger_ok_def)
  then obtain g where g: "logger_init example_log_env True None LOG_LEVEL_WARN False g_logger = Some (0, g)" by blast
  have "log_run [(example_log_env, LOG_LEVEL_ERROR, ''x'')] g \<noteq> None"
    using logger_invariant [OF g, of "[]" g "[(example_log_env, LOG_LEVEL_ERROR, ''x'')]"] by (simp add: log_levels)
  then obtain g' where "log_run [(example_log_env, LOG_LEVEL_ERROR, ''x'')] g = Some g'" by blast
  with g logger_invariant [OF g this] show ?thesis by blast
qed

end
