(* ===== verification/GeoIp.thy ===== *)
theory GeoIp
  imports DDoS_Types
begin

text \<open>
  \<open>src/geoip/geoip.c\<close>: the database handle, the placeholder lookups and the test against the blocked
  countries. A C string buffer is the list of its bytes up to its length; \<open>None\<close> is a \<open>NULL\<close> pointer.
\<close>

record geoip_db =
  gd_path :: string

definition geoip_init :: "bool \<Rightarrow> string option \<Rightarrow> geoip_db option" where
  "geoip_init calloc_ok db_path =
     (case db_path of None \<Rightarrow> None | Some p \<Rightarrow> if \<not> calloc_ok then None else Some \<lparr>gd_path = p\<rparr>)"

definition geoip_cleanup :: "geoip_db option \<Rightarrow> geoip_db option" where
  "geoip_cleanup db = None"

text \<open>\<open>strncpy(dst, s, n)\<close>: at most \<open>n\<close> characters, padded with NULs.\<close>

definition strncpy :: "string \<Rightarrow> nat \<Rightarrow> string" where
  "strncpy s n = take n (s @ replicate n (CHR 0x00))"

text \<open>The answer and the buffer of length \<open>n\<close>.\<close>

definition geoip_lookup_country :: "geoip_db option \<Rightarrow> ip_addr option \<Rightarrow> string option \<Rightarrow> nat \<Rightarrow> int \<times> string option" where
  "geoip_lookup_country db ip buf n =
     (if db = None \<or> ip = None \<or> buf = None \<or> n < 3 then (-1, buf) else (0, Some (strncpy ''XX'' n)))"

definition geoip_lookup_asn :: "geoip_db option \<Rightarrow> ip_addr option \<Rightarrow> u32" where
  "geoip_lookup_asn db ip = 0"

text \<open>The C string in a buffer.\<close>

definition c_string :: "string \<Rightarrow> string" where
  "c_string buf = takeWhile (\<lambda>c. c \<noteq> CHR 0x00) buf"

definition geoip_is_blocked_country :: "geoip_db option \<Rightarrow> ip_addr option \<Rightarrow> string list option \<Rightarrow> bool" where
  "geoip_is_blocked_country db ip countries =
     (case countries of
        None \<Rightarrow> False
      | Some cs \<Rightarrow>
          if db = None \<or> ip = None \<or> cs = [] then False
          else
            (case geoip_lookup_country db ip (Some (replicate 3 (CHR 0x00))) 3 of
               (r, None) \<Rightarrow> False
             | (r, Some code) \<Rightarrow> if r \<noteq> 0 then False else list_ex (\<lambda>c. c_string code = c) cs))"

lemma geoip_blocks_all_or_none:
  "geoip_is_blocked_country (Some db) (Some ip) (Some cs) \<longleftrightarrow> ''XX'' \<in> set cs"
  by (auto simp: geoip_is_blocked_country_def geoip_lookup_country_def strncpy_def c_string_def list_ex_iff numeral_3_eq_3)

end
