(* ===== verification/EbpfLoader.thy ===== *)
theory EbpfLoader
  imports XdpFilter
begin

text \<open>
  \<open>src/filter/ebpf_loader.c\<close>: the handle of an XDP program and the operations on its maps. The maps are
  those of the kernel program (\<open>XdpFilter\<close>), which every operation returns; the commands given to
  \<open>system\<close> are returned in order.
\<close>

record ebpf_program =
  ep_filename :: string
  ep_interface :: string
  ep_prog_fd :: int
  ep_loaded :: bool

definition ebpf_load_program :: "bool \<Rightarrow> string \<Rightarrow> string \<Rightarrow> ebpf_program option" where
  "ebpf_load_program calloc_ok filename iface =
     (if \<not> calloc_ok then None
      else
        (let prog = \<lparr>ep_filename = filename, ep_interface = iface, ep_prog_fd = -1, ep_loaded = False\<rparr>
         in Some (prog\<lparr>ep_loaded := True\<rparr>)))"

definition ebpf_unload_program :: "ebpf_program option \<Rightarrow> string list" where
  "ebpf_unload_program prog =
     (case prog of
        None \<Rightarrow> []
      | Some p \<Rightarrow> if ep_loaded p then [take 255 (''ip link set dev '' @ ep_interface p @ '' xdp off'')] else [])"

definition ebpf_update_map ::
    "ebpf_program option \<Rightarrow> string option \<Rightarrow> 'k option \<Rightarrow> 'v option \<Rightarrow> xdp_maps \<Rightarrow> int \<times> xdp_maps" where
  "ebpf_update_map prog map_name key val m =
     (if prog = None \<or> map_name = None \<or> key = None \<or> val = None then (-1, m) else (0, m))"

definition ebpf_delete_map :: "ebpf_program option \<Rightarrow> string option \<Rightarrow> 'k option \<Rightarrow> xdp_maps \<Rightarrow> int \<times> xdp_maps" where
  "ebpf_delete_map prog map_name key m =
     (if prog = None \<or> map_name = None \<or> key = None then (-1, m) else (0, m))"

text \<open>The two counters are written through pointers that may be \<open>NULL\<close>.\<close>

definition ebpf_get_map_stats ::
    "ebpf_program option \<Rightarrow> string option \<Rightarrow> bool \<Rightarrow> bool \<Rightarrow> u64 \<times> u64 \<Rightarrow> int \<times> u64 \<times> u64" where
  "ebpf_get_map_stats prog map_name want_packets want_bytes old =
     (if prog = None \<or> map_name = None then (-1, old)
      else (0, if want_packets then 0 else fst old, if want_bytes then 0 else snd old))"

definition ebpf_blacklist_ip :: "ebpf_program option \<Rightarrow> ip_addr option \<Rightarrow> xdp_maps \<Rightarrow> int \<times> xdp_maps" where
  "ebpf_blacklist_ip prog ip m =
     (if prog = None \<or> ip = None then (-1, m)
      else ebpf_update_map prog (Some ''blacklist'') (map_option ip_bits ip) (Some (1 :: int)) m)"

definition ebpf_whitelist_ip :: "ebpf_program option \<Rightarrow> ip_addr option \<Rightarrow> xdp_maps \<Rightarrow> int \<times> xdp_maps" where
  "ebpf_whitelist_ip prog ip m =
     (if prog = None \<or> ip = None then (-1, m)
      else ebpf_update_map prog (Some ''whitelist'') (map_option ip_bits ip) (Some (1 :: int)) m)"

text \<open>Blacklisting an address succeeds, and the filter goes on treating its frames as before.\<close>

lemma ebpf_blacklist_no_effect:
  assumes "ebpf_load_program True f i = Some p"
  shows "ebpf_blacklist_ip (Some p) (Some ip) m = (0, m) \<and> ebpf_whitelist_ip (Some p) (Some ip) m = (0, m)"
  by (simp add: ebpf_blacklist_ip_def ebpf_whitelist_ip_def ebpf_update_map_def)

end
