(* ===== verification/Servers.thy ===== *)
theory Servers
  imports DDoS_Types
begin

text \<open>
  \<open>src/api/rest_server.c\<close> and \<open>src/api/websocket.c\<close>: two servers with the same life cycle (init, start,
  stop, clean-up, one thread while running), and the JSON messages the second one builds. The number
  of server threads created and not yet joined is part of each state. What the calls of
  \<open>pthread_create\<close> and \<open>calloc\<close> answer are arguments; a JSON object is the list of its members.
\<close>

section \<open>The life cycle\<close>

datatype server_op = Start bool | Stop

locale server_lifecycle =
  fixes running :: "'s \<Rightarrow> bool"
    and threads :: "'s \<Rightarrow> nat"
    and start :: "bool \<Rightarrow> 's \<Rightarrow> int \<times> 's"
    and stop :: "'s \<Rightarrow> 's"
  assumes start_running: "running s \<Longrightarrow> start ok s = (-1, s)"
    and start_ok: "\<not> running s \<Longrightarrow>
      fst (start True s) = 0 \<and> running (snd (start True s)) \<and> threads (snd (start True s)) = threads s + 1"
    and start_fails: "\<not> running s \<Longrightarrow>
      fst (start False s) = -1 \<and> \<not> running (snd (start False s)) \<and> threads (snd (start False s)) = threads s"
    and stop_idle: "\<not> running s \<Longrightarrow> stop s = s"
    and stop_running: "running s \<Longrightarrow> \<not> running (stop s) \<and> threads (stop s) = threads s - 1"
begin

fun serve :: "'s \<Rightarrow> server_op \<Rightarrow> 's" where
  "serve s (Start ok) = snd (start ok s)"
| "serve s Stop = stop s"

text \<open>A server that starts idle has one thread exactly while it runs.\<close>

lemma one_thread:
  "threads s = of_bool (running s) \<Longrightarrow> threads (foldl serve s ops) = of_bool (running (foldl serve s ops))"
proof (induction ops arbitrary: s)
  case (Cons x ops)
  have "threads (serve s x) = of_bool (running (serve s x))"
  proof (cases x)
    case (Start ok)
    then show ?thesis using Cons.prems start_running [of s ok] start_ok [of s] start_fails [of s]
      by (cases "running s"; cases ok) auto
  next
    case Stop
    then show ?thesis using Cons.prems stop_idle [of s] stop_running [of s] by (cases "running s") auto
  qed
  then show ?case by (simp add: Cons.IH)
qed simp

end

section \<open>The REST server\<close>

record api_server =
  as_bind_addr :: string
  as_port :: u16
  as_auth_token :: "string option"
  as_running :: bool
  as_threads :: nat

definition api_server_init :: "bool \<Rightarrow> string option \<Rightarrow> u16 \<Rightarrow> string option \<Rightarrow> api_server option" where
  "api_server_init calloc_ok bind_addr port auth_token =
     (if \<not> calloc_ok then None
      else Some \<lparr>as_bind_addr = (case bind_addr of None \<Rightarrow> ''0.0.0.0'' | Some a \<Rightarrow> a), as_port = port,
                 as_auth_token = auth_token, as_running = False, as_threads = 0\<rparr>)"

definition api_server_start :: "bool \<Rightarrow> api_server option \<Rightarrow> int \<times> api_server option" where
  "api_server_start create_ok sp =
     (case sp of
        None \<Rightarrow> (-1, None)
      | Some s0 \<Rightarrow>
          if as_running s0 then (-1, sp)
          else
            (let s = s0\<lparr>as_running := True\<rparr>
             in if \<not> create_ok then (-1, Some (s\<lparr>as_running := False\<rparr>))
                else (0, Some (s\<lparr>as_threads := as_threads s + 1\<rparr>))))"

definition api_server_stop :: "api_server option \<Rightarrow> api_server option" where
  "api_server_stop sp =
     (case sp of
        None \<Rightarrow> None
      | Some s \<Rightarrow>
          if \<not> as_running s then sp
          else Some (s\<lparr>as_running := False, as_threads := as_threads s - 1\<rparr>))"

text \<open>What is left when the server has been released: the number of its threads.\<close>

definition api_server_cleanup :: "api_server option \<Rightarrow> nat" where
  "api_server_cleanup sp =
     (case sp of
        None \<Rightarrow> 0
      | Some s \<Rightarrow> (case (if as_running s then api_server_stop sp else sp) of None \<Rightarrow> 0 | Some s1 \<Rightarrow> as_threads s1))"

interpretation api: server_lifecycle as_running as_threads
  "\<lambda>ok s. map_prod id the (api_server_start ok (Some s))" "\<lambda>s. the (api_server_stop (Some s))"
  by unfold_locales (auto simp: api_server_start_def api_server_stop_def Let_def)

section \<open>The WebSocket server\<close>

record websocket_server =
  ws_port :: u16
  ws_running :: bool
  ws_threads :: nat

definition websocket_server_init :: "bool \<Rightarrow> u16 \<Rightarrow> websocket_server option" where
  "websocket_server_init calloc_ok port =
     (if \<not> calloc_ok then None else Some \<lparr>ws_port = port, ws_running = False, ws_threads = 0\<rparr>)"

definition websocket_server_start :: "bool \<Rightarrow> websocket_server option \<Rightarrow> int \<times> websocket_server option" where
  "websocket_server_start create_ok sp =
     (case sp of
        None \<Rightarrow> (-1, None)
      | Some s0 \<Rightarrow>
          if ws_running s0 then (-1, sp)
          else
            (let s = s0\<lparr>ws_running := True\<rparr>
             in if \<not> create_ok then (-1, Some (s\<lparr>ws_running := False\<rparr>))
                else (0, Some (s\<lparr>ws_threads := ws_threads s + 1\<rparr>))))"

definition websocket_server_stop :: "websocket_server option \<Rightarrow> websocket_server option" where
  "websocket_server_stop sp =
     (case sp of
        None \<Rightarrow> None
      | Some s \<Rightarrow>
          if \<not> ws_running s then sp
          else Some (s\<lparr>ws_running := False, ws_threads := ws_threads s - 1\<rparr>))"

definition websocket_server_cleanup :: "websocket_server option \<Rightarrow> nat" where
  "websocket_server_cleanup sp =
     (case sp of
        None \<Rightarrow> 0
      | Some s \<Rightarrow> (case (if ws_running s then websocket_server_stop sp else sp) of None \<Rightarrow> 0 | Some s1 \<Rightarrow> ws_threads s1))"

interpretation ws: server_lifecycle ws_running ws_threads
  "\<lambda>ok s. map_prod id the (websocket_server_start ok (Some s))" "\<lambda>s. the (websocket_server_stop (Some s))"
  by unfold_locales (auto simp: websocket_server_start_def websocket_server_stop_def Let_def)

section \<open>Messages\<close>

text \<open>\<open>json_integer\<close> takes a signed 64-bit number.\<close>

datatype json_member = Integer int | Text string

definition websocket_broadcast :: "websocket_server option \<Rightarrow> 'm option \<Rightarrow> int" where
  "websocket_broadcast server message = (if server = None \<or> message = None then -1 else 0)"

definition stats_message :: "global_stats \<Rightarrow> (string \<times> json_member) list" where
  "stats_message g =
     [(''total_packets'', Integer (sint (total_packets g))), (''total_bytes'', Integer (sint (total_bytes g))),
      (''dropped_packets'', Integer (sint (dropped_packets g))),
      (''current_connections'', Integer (sint (current_connections g)))]"

text \<open>The result and the message handed to the broadcast.\<close>

definition websocket_broadcast_stats ::
    "websocket_server option \<Rightarrow> global_stats option \<Rightarrow> int \<times> (string \<times> json_member) list option" where
  "websocket_broadcast_stats server stats =
     (case stats of
        None \<Rightarrow> (-1, None)
      | Some g \<Rightarrow> if server = None then (-1, None) else (0, Some (stats_message g)))"

definition websocket_broadcast_attack ::
    "(ip_addr \<Rightarrow> string) \<Rightarrow> time_t \<Rightarrow> websocket_server option \<Rightarrow> attack_type \<Rightarrow> ip_addr option \<Rightarrow>
      int \<times> (string \<times> json_member) list option" where
  "websocket_broadcast_attack show now server type ip =
     (case ip of
        None \<Rightarrow> (-1, None)
      | Some a \<Rightarrow>
          if server = None then (-1, None)
          else (0, Some [(''type'', Text ''attack''), (''attack_type'', Text (attack_type_to_string type)),
                         (''source_ip'', Text (show a)), (''timestamp'', Integer now)]))"

text \<open>One turn of the loop of \<open>websocket_server_thread\<close>; \<open>None\<close> when the loop ends.\<close>

definition websocket_thread_turn ::
    "websocket_server \<Rightarrow> global_stats option \<Rightarrow> (string \<times> json_member) list option option" where
  "websocket_thread_turn s stats =
     (if \<not> ws_running s then None else Some (snd (websocket_broadcast_stats (Some s) stats)))"

text \<open>A server has one thread exactly while it runs. From a fresh server, after any sequence of
  starts (some of whose threads cannot be created) and stops, each server has as many threads as it
  is running, and releasing it leaves none.\<close>

theorem servers_one_thread:
  assumes "api_server_init True addr port token = Some a" and "websocket_server_init True port' = Some w"
  shows "as_threads (foldl api.serve a ops) = of_bool (as_running (foldl api.serve a ops)) \<and>
    ws_threads (foldl ws.serve w ops) = of_bool (ws_running (foldl ws.serve w ops)) \<and>
    api_server_cleanup (Some (foldl api.serve a ops)) = 0 \<and>
    websocket_server_cleanup (Some (foldl ws.serve w ops)) = 0"
proof -
  have "as_threads a = of_bool (as_running a)" "ws_threads w = of_bool (ws_running w)"
    using assms by (auto simp: api_server_init_def websocket_server_init_def)
  then show ?thesis
    using api.one_thread [of a ops] ws.one_thread [of w ops]
    by (auto simp: api_server_cleanup_def api_server_stop_def websocket_server_cleanup_def websocket_server_stop_def)
qed

theorem servers_one_thread_witness:
  "\<exists>a w. api_server_init True None 8080 None = Some a \<and> websocket_server_init True 8081 = Some w \<and>
    api_server_cleanup (Some (foldl api.serve a [Start True, Start True, Stop, Start False])) = 0"
proof -
  obtain a w where "api_server_init True None 8080 None = Some a" "websocket_server_init True 8081 = Some w"
    by (simp add: api_server_init_def websocket_server_init_def)
  with servers_one_thread [OF this] show ?thesis by blast
qed

end
