(* ===== verification/MainLoop.thy ===== *)
theory MainLoop
  imports AnalyzerProofs ParserProofs Firewall Logger "HOL-Library.Sublist"
begin

text \<open>
  \<open>src/core/main.c\<close>: the packet handler on the state of all modules, the context, the two threads, the
  signal handler, and the order in which \<open>main\<close> starts and ends everything. Log lines are left out.
\<close>

section \<open>The packet handler\<close>

text \<open>The handler's worker data, the modules (with the global statistics), the firewall, \<open>g_shutdown\<close>.\<close>

record main_world =
  mw_processed :: u64
  mw_modules :: analyzer_world
  mw_fw :: firewall
  mw_shutdown :: bool

text \<open>What a packet meets: the analyzer's environment (with the configuration), and for the firewall
  the answers of \<open>inet_ntop\<close>, \<open>system\<close>, the clock and the allocator.\<close>

record handler_env =
  he_an :: analyzer_env
  he_ntop :: inet_ntop
  he_system :: int
  he_now :: time_t
  he_alloc :: bool

definition he_cfg :: "handler_env \<Rightarrow> config" where
  "he_cfg env = te_cfg (ae_tcp (he_an env))"

definition on_glob :: "(global_stats \<Rightarrow> global_stats) \<Rightarrow> main_world \<Rightarrow> main_world" where
  "on_glob f w = w\<lparr>mw_modules := (mw_modules w)\<lparr>aw_glob := f (aw_glob (mw_modules w))\<rparr>\<rparr>"

definition apply_verdict :: "handler_env \<Rightarrow> packet \<Rightarrow> verdict \<Rightarrow> main_world \<Rightarrow> main_world" where
  "apply_verdict env pkt v w =
     (case v of
        VERDICT_DROP \<Rightarrow>
          (let w = on_glob (\<lambda>g. g\<lparr>dropped_packets := dropped_packets g + 1\<rparr>) w
           in if auto_blacklist (he_cfg env)
              then w\<lparr>mw_fw := snd (firewall_block_ip (he_ntop env) (he_system env) (he_now env) (he_alloc env)
                              (src_ip pkt) (blacklist_duration (he_cfg env)) (mw_fw w))\<rparr>
              else w)
      | VERDICT_RATE_LIMIT \<Rightarrow> on_glob (\<lambda>g. g\<lparr>rate_limited_packets := rate_limited_packets g + 1\<rparr>) w
      | VERDICT_CHALLENGE \<Rightarrow> w
      | VERDICT_ACCEPT \<Rightarrow> w)"

definition packet_handler :: "handler_env \<Rightarrow> packet \<Rightarrow> main_world \<Rightarrow> main_world run" where
  "packet_handler env pkt w =
     (if mw_shutdown w then ret w
      else
        (let w1 = w\<lparr>mw_processed := mw_processed w + 1\<rparr>;
             w2 = on_glob (\<lambda>g. g\<lparr>total_packets := total_packets g + 1,
                                 total_bytes := total_bytes g + ucast (pkt_len pkt)\<rparr>) w1
         in bindM (analyzer_process_packet (he_an env) pkt (mw_modules w2)) (\<lambda>(v, m).
              ret (apply_verdict env pkt v (w2\<lparr>mw_modules := m\<rparr>)))))"

text \<open>One captured frame: what \<open>pcap_callback\<close> hands over (with the allocator's answers) is handled.\<close>

definition capture_step :: "handler_env \<Rightarrow> u8 list \<Rightarrow> time_t \<Rightarrow> main_world \<Rightarrow> main_world run" where
  "capture_step env frame ts w =
     bindM (Some (pcap_callback (\<lambda>p _. Inr (Some p)) True True frame ts None)) (\<lambda>r.
       case r of None \<Rightarrow> ret w | Some p \<Rightarrow> packet_handler env p w)"

fun capture_loop :: "(handler_env \<times> u8 list \<times> time_t) list \<Rightarrow> main_world \<Rightarrow> main_world run" where
  "capture_loop [] w = ret w"
| "capture_loop ((env, frame, ts) # xs) w = bindM (capture_step env frame ts w) (capture_loop xs)"

section \<open>Context, signals and threads\<close>

record ddos_context =
  cx_config :: config
  cx_stats :: global_stats
  cx_conn_table :: "hashtable option"
  cx_lru_cache :: "lru_cache option"
  cx_running :: bool

text \<open>The answers of the allocations, in their order.\<close>

definition init_context ::
    "bool \<Rightarrow> bool \<Rightarrow> bool \<times> bool \<Rightarrow> bool \<times> bool \<times> bool \<Rightarrow> time_t \<Rightarrow> config \<Rightarrow> ddos_context option" where
  "init_context ctx_ok stats_ok table_ok cache_ok now cfg =
     (if \<not> ctx_ok then None
      else if \<not> stats_ok then None
      else case hashtable_create (fst table_ok) (snd table_ok) HASH_TABLE_SIZE of
        None \<Rightarrow> None
      | Some ht \<Rightarrow>
          (case lru_cache_create (fst cache_ok) (fst (snd cache_ok)) (snd (snd cache_ok)) LRU_CACHE_SIZE of
             None \<Rightarrow> None
           | Some c \<Rightarrow> Some \<lparr>cx_config = cfg, cx_stats = zero_global_stats\<lparr>start_time := now\<rparr>, cx_conn_table = Some ht,
                            cx_lru_cache = Some c, cx_running = True\<rparr>))"

definition cleanup_context :: "conn_heap \<Rightarrow> ddos_context option \<Rightarrow> conn_heap run" where
  "cleanup_context h cp =
     (case cp of None \<Rightarrow> ret h
      | Some c \<Rightarrow> bindM (hashtable_destroy h (cx_conn_table c)) (\<lambda>h. lru_cache_destroy h (cx_lru_cache c)))"

definition SIGINT :: int where "SIGINT = 2"
definition SIGTERM :: int where "SIGTERM = 15"

text \<open>\<open>g_shutdown\<close> and the context's running flag.\<close>

definition signal_handler :: "int \<Rightarrow> bool \<times> ddos_context option \<Rightarrow> bool \<times> ddos_context option" where
  "signal_handler sig = (\<lambda>(shutdown, ctx).
     if sig = SIGINT \<or> sig = SIGTERM then (True, map_option (\<lambda>c. c\<lparr>cx_running := False\<rparr>) ctx) else (shutdown, ctx))"

text \<open>What the two calls of \<open>sigaction\<close> answer decides the result.\<close>

definition setup_signals :: "bool \<Rightarrow> bool \<Rightarrow> int" where
  "setup_signals int_ok term_ok = (if \<not> int_ok then -1 else if \<not> term_ok then -1 else 0)"

text \<open>A turn of the statistics thread: the line it logs.\<close>

definition stats_turn :: "log_env \<Rightarrow> global_stats \<Rightarrow> logger \<Rightarrow> logger option" where
  "stats_turn env g =
     log_info env (''Stats: packets='' @ dec_digits (unat (total_packets g)) @ '', bytes='' @ dec_digits (unat (total_bytes g)) @
       '', dropped='' @ dec_digits (unat (dropped_packets g)) @ '', conns='' @ dec_digits (unat (current_connections g)))"

definition thread_goes_on :: "bool \<times> ddos_context \<Rightarrow> bool" where
  "thread_goes_on = (\<lambda>(shutdown, ctx). cx_running ctx \<and> \<not> shutdown)"

text \<open>A turn of the cleanup thread at time \<open>now\<close>.\<close>

definition cleanup_turn :: "time_t \<Rightarrow> conn_heap \<Rightarrow> ddos_context \<Rightarrow> (conn_heap \<times> ddos_context) run" where
  "cleanup_turn now h ctx =
     bindM (lru_cache_cleanup_expired h (cx_lru_cache ctx) now) (\<lambda>(cleaned, h, c). ret (h, ctx\<lparr>cx_lru_cache := c\<rparr>))"

definition drop_privileges :: "string \<Rightarrow> string \<Rightarrow> int" where
  "drop_privileges user grp = 0"

section \<open>The order of main\<close>

datatype main_step =
    Config_load | Config_validate | Logger_init | Setup_signals | Context_init | Firewall_init | Protect_init
  | Analyzer_init | Geoip_init | Xdp_load | Api_init | Api_start | Websocket_init | Websocket_start | Threads_create
  | Drop_privileges | Capture_init | Capture_start | Capture_stop | Threads_join | Capture_cleanup | Websocket_cleanup | Api_cleanup
  | Xdp_unload | Geoip_cleanup | Analyzer_cleanup | Protect_cleanup | Firewall_cleanup | Context_cleanup
  | Config_free | Logger_cleanup

text \<open>What each call of \<open>main\<close> answers; \<open>me_signal\<close>: a signal arrives, at the latest while \<open>main\<close> waits for
  its threads. Stopping a server and releasing it is one step. \<open>me_pcap_loop\<close> is \<open>libpcap\<close>'s loop: what
  \<open>pcap_loop(handle, -1, ...)\<close> returns when \<open>pcap_breakloop\<close> is called on the handle (\<open>True\<close>) or is not,
  \<open>None\<close> where it does not return.\<close>

record main_env =
  me_cfg :: "config option"
  me_logger_ok :: bool
  me_signals_ok :: bool
  me_context_ok :: bool
  me_firewall_ok :: bool
  me_analyzer_ok :: bool
  me_geoip_ok :: bool
  me_xdp_ok :: bool
  me_api_ok :: bool
  me_websocket_ok :: bool
  me_capture_ok :: bool
  me_pcap_loop :: "bool \<Rightarrow> int option"
  me_signal :: bool

datatype outcome = Exit_success | Exit_failure | Hangs

definition step_if :: "bool \<Rightarrow> main_step list \<Rightarrow> main_step list" where
  "step_if b xs = (if b then xs else [])"

text \<open>From the label \<open>cleanup\<close> on.\<close>

definition at_cleanup :: "bool \<Rightarrow> main_step list" where
  "at_cleanup ctx = step_if ctx [Context_cleanup] @ [Config_free, Logger_cleanup]"

definition main_startup :: "main_env \<Rightarrow> config \<Rightarrow> main_step list" where
  "main_startup env cfg =
     step_if (enable_geoip cfg \<and> geoip_db_path cfg \<noteq> None) [Geoip_init] @
     step_if (enable_xdp cfg \<and> xdp_program_path cfg \<noteq> None) [Xdp_load] @
     step_if (enable_api cfg) (Api_init # step_if (me_api_ok env) [Api_start]) @
     step_if (enable_dashboard cfg) (Websocket_init # step_if (me_websocket_ok env) [Websocket_start]) @
     [Threads_create] @
     step_if (drop_user cfg \<noteq> None \<and> drop_group cfg \<noteq> None) [Drop_privileges] @
     [Capture_init]"

definition main_shutdown :: "main_env \<Rightarrow> config \<Rightarrow> main_step list" where
  "main_shutdown env cfg =
     [Capture_cleanup] @
     step_if (enable_dashboard cfg \<and> me_websocket_ok env) [Websocket_cleanup] @
     step_if (enable_api cfg \<and> me_api_ok env) [Api_cleanup] @
     step_if (enable_xdp cfg \<and> xdp_program_path cfg \<noteq> None \<and> me_xdp_ok env) [Xdp_unload] @
     step_if (enable_geoip cfg \<and> geoip_db_path cfg \<noteq> None \<and> me_geoip_ok env) [Geoip_cleanup] @
     [Analyzer_cleanup, Protect_cleanup, Firewall_cleanup]"

text \<open>\<open>packet_capture_stop\<close> is the only caller of \<open>pcap_breakloop\<close>. While \<open>main\<close> is in the loop only the packet
  handler, the two threads and the signal handler run, and none of them calls it: whether the loop is
  broken is whether \<open>main\<close> has called it. The signal handler only sets the two flags (\<open>signal_handler\<close>).\<close>

definition loop_broken :: "main_step list \<Rightarrow> bool" where
  "loop_broken s = (Capture_stop \<in> set s)"

text \<open>The steps \<open>main\<close> takes and how it ends: \<open>packet_capture_start\<close> returns when \<open>pcap_loop\<close> does, its
  answer is not looked at, and joining the threads returns when a signal has cleared their flag.\<close>

definition main :: "main_env \<Rightarrow> main_step list \<times> outcome" where
  "main env =
     (case me_cfg env of
        None \<Rightarrow> ([Config_load], Exit_failure)
      | Some cfg \<Rightarrow>
          if config_validate (Some cfg) \<noteq> 0 then ([Config_load, Config_validate, Config_free], Exit_failure)
          else if \<not> me_logger_ok env then ([Config_load, Config_validate, Logger_init, Config_free], Exit_failure)
          else
            (let s = [Config_load, Config_validate, Logger_init, Setup_signals]
             in if \<not> me_signals_ok env then (s @ at_cleanup False, Exit_failure)
                else if \<not> me_context_ok env then (s @ [Context_init] @ at_cleanup False, Exit_failure)
                else if \<not> me_firewall_ok env then (s @ [Context_init, Firewall_init] @ at_cleanup True, Exit_failure)
                else
                  (let s = s @ [Context_init, Firewall_init, Protect_init, Analyzer_init]
                   in if \<not> me_analyzer_ok env then (s @ at_cleanup True, Exit_failure)
                      else
                        (let s = s @ main_startup env cfg
                         in if \<not> me_capture_ok env then (s @ at_cleanup True, Exit_failure)
                            else
                              (case me_pcap_loop env (loop_broken s) of
                                 None \<Rightarrow> (s @ [Capture_start], Hangs)
                               | Some r \<Rightarrow>
                                   if \<not> me_signal env then (s @ [Capture_start, Threads_join], Hangs)
                                   else (s @ [Capture_start, Threads_join] @ main_shutdown env cfg @ at_cleanup True,
                                         Exit_success))))))"

section \<open>Counters\<close>

text \<open>The four counters the handler keeps; the modules change none of them.\<close>

definition traffic_counts :: "global_stats \<Rightarrow> u64 \<times> u64 \<times> u64 \<times> u64" where
  "traffic_counts g = (total_packets g, total_bytes g, dropped_packets g, rate_limited_packets g)"

lemma counted_counts: "counted_outcome d g v d' g' \<Longrightarrow> traffic_counts g' = traffic_counts g"
  by (auto simp: counted_outcome_def traffic_counts_def split: if_splits)

lemma http_counts: "http_outcome s v s' \<Longrightarrow> traffic_counts (http_glob s') = traffic_counts (http_glob s)"
  by (auto simp: http_outcome_def dest: counted_counts)

lemma dispatch_counts:
  assumes "dispatch env pkt st w = ret (v, st', w')"
  shows "traffic_counts (aw_glob w') = traffic_counts (aw_glob w)"
proof -
  consider "protocol pkt = PROTO_UDP" | "protocol pkt = PROTO_TCP" | "protocol pkt = PROTO_ICMP"
    | "protocol pkt \<notin> {PROTO_UDP, PROTO_TCP, PROTO_ICMP}" by blast
  then show ?thesis
  proof cases
    case 1
    then obtain u g where a: "udp_protect_analyze (te_cfg (ae_tcp env)) (te_now (ae_tcp env)) pkt (aw_udp w, aw_glob w, st) = Inr (v, u, g, st')"
      "w' = w\<lparr>aw_udp := u, aw_glob := g\<rparr>"
      using assms by (auto simp: dispatch_def Let_def bindM_ret)
    from counted_counts [OF udp_analyze_counted [OF a(1)]] a(2) show ?thesis by (simp add: udp_glob_def)
  next
    case 2
    then obtain t where a: "tcp_protect_analyze (ae_tcp env) pkt \<lparr>tw_ctx = aw_tcp w, tw_heap = aw_conns w, tw_cache = aw_cache w,
        tw_glob = aw_glob w, tw_stats = st\<rparr> = ret (v, t)" "aw_glob w' = tw_glob t"
      using assms by (auto simp: dispatch_def Let_def bindM_ret proto_defs)
    from counted_counts [OF tcp_analyze_counted [OF a(1)]] a(2) show ?thesis by simp
  next
    case 3
    then obtain i g where a: "icmp_protect_analyze (te_cfg (ae_tcp env)) (te_now (ae_tcp env)) pkt (aw_icmp w, aw_glob w, st) = Inr (v, i, g, st')"
      "w' = w\<lparr>aw_icmp := i, aw_glob := g\<rparr>"
      using assms by (auto simp: dispatch_def Let_def bindM_ret proto_defs)
    from counted_counts [OF icmp_analyze_counted [OF a(1)]] a(2) show ?thesis by (simp add: icmp_glob_def)
  next
    case 4
    then show ?thesis using assms by (simp add: dispatch_def Let_def)
  qed
qed

lemma http_layer_counts:
  assumes "http_layer env pkt (v0, st0, w) = ret (v, st', w')"
  shows "traffic_counts (aw_glob w') = traffic_counts (aw_glob w)"
proof (cases "v0 = VERDICT_ACCEPT \<and> is_http pkt")
  case True
  then obtain c g where a: "http_protect_analyze (te_cfg (ae_tcp env)) (ae_http_now env) pkt (aw_http w, aw_glob w, st0) = Inr (v, c, g, st')"
    "w' = w\<lparr>aw_http := c, aw_glob := g\<rparr>"
    using assms by (auto simp: http_layer_def bindM_ret)
  from http_counts [OF http_analyze_outcome [OF a(1)]] a(2) show ?thesis by (simp add: http_glob_def)
next
  case False
  then have "http_layer env pkt (v0, st0, w) = ret (v0, st0, w)" by (auto simp: http_layer_def)
  then show ?thesis using assms by simp
qed

lemma after_verdict_glob: "after_verdict env pkt v0 w = ret (v, w') \<Longrightarrow> aw_glob w' = aw_glob w"
  by (auto simp: after_verdict_def bindM_ret split: if_splits)

lemma analyzer_counts:
  assumes "analyzer_process_packet env pkt w = ret (v, w')"
  shows "traffic_counts (aw_glob w') = traffic_counts (aw_glob w)"
proof (cases "aw_an w")
  case None
  then show ?thesis using assms by (simp add: analyzer_process_packet_def)
next
  case (Some a0)
  obtain p h ap where g: "analyzer_get_ip_stats (ae_stats_time env) (ae_fresh env) (aw_stats w) (aw_an w) (src_ip pkt) = ret (p, h, ap)"
    using assms Some by (auto simp: analyzer_process_packet_def bindM_ret)
  let ?w = "w\<lparr>aw_stats := h, aw_an := ap\<rparr>"
  show ?thesis
  proof (cases "p = 0")
    case True
    then show ?thesis using assms Some g by (auto simp: analyzer_process_packet_def Let_def)
  next
    case False
    then obtain st a where st: "sread h p = ret st" "ap = Some a"
      using assms Some g
      by (cases ap) (auto simp: analyzer_process_packet_def Let_def bindM_ret)
    show ?thesis
    proof (cases "ipset_contains_cidr (ae_white_now env) (an_whitelist a) (src_ip pkt) \<or>
        ipset_contains_cidr (ae_black_now env) (an_blacklist a) (src_ip pkt)")
      case True
      then show ?thesis using assms Some g False st
        by (auto simp: analyzer_process_packet_def Let_def split: if_splits)
    next
      case no: False
      have "bindM (dispatch env pkt st ?w) (\<lambda>r. bindM (http_layer env pkt r) (\<lambda>(v, st, w).
          after_verdict env pkt v (w\<lparr>aw_stats := h(p \<mapsto> st)\<rparr>))) = ret (v, w')"
        using assms Some g False st no by (simp add: analyzer_process_packet_def Let_def del: fun_upd_apply)
      then obtain v1 st1 w1 v2 st2 w2 where d: "dispatch env pkt st ?w = ret (v1, st1, w1)"
        "http_layer env pkt (v1, st1, w1) = ret (v2, st2, w2)"
        "after_verdict env pkt v2 (w2\<lparr>aw_stats := h(p \<mapsto> st2)\<rparr>) = ret (v, w')"
        by (auto simp: bindM_ret)
      from dispatch_counts [OF d(1)] http_layer_counts [OF d(2)] after_verdict_glob [OF d(3)] show ?thesis by simp
    qed
  qed
qed

section \<open>A run of the capture loop\<close>

text \<open>The packets that are handed over, with their environments.\<close>

definition handed_over :: "u8 list \<Rightarrow> time_t \<Rightarrow> packet option" where
  "handed_over frame ts =
     (case pcap_callback (\<lambda>p _. Inr (Some p)) True True frame ts None of Inl f \<Rightarrow> None | Inr r \<Rightarrow> r)"

fun handled :: "(handler_env \<times> u8 list \<times> time_t) list \<Rightarrow> (handler_env \<times> packet) list" where
  "handled [] = []"
| "handled ((env, frame, ts) # xs) =
     (case handed_over frame ts of None \<Rightarrow> [] | Some p \<Rightarrow> [(env, p)]) @ handled xs"

fun handler_run :: "(handler_env \<times> packet) list \<Rightarrow> main_world \<Rightarrow> main_world run" where
  "handler_run [] w = ret w"
| "handler_run ((env, p) # ps) w = bindM (packet_handler env p w) (handler_run ps)"

lemma capture_is_handler_run:
  "capture_loop xs w = ret w' \<Longrightarrow> handler_run (handled xs) w = ret w'"
proof (induction xs arbitrary: w)
  case (Cons x xs)
  obtain env frame ts where x: "x = (env, frame, ts)" by (cases x)
  obtain w1 where w1: "capture_step env frame ts w = ret w1" "capture_loop xs w1 = ret w'"
    using Cons.prems x by (auto simp: bindM_ret)
  obtain r where r: "pcap_callback (\<lambda>p _. Inr (Some p)) True True frame ts None = Inr r"
    using w1(1) by (auto simp: capture_step_def bindM_ret)
  show ?case using w1 r Cons.IH [OF w1(2)] x by (cases r) (auto simp: capture_step_def handed_over_def)
qed simp

lemma on_glob_simps [simp]:
  "mw_fw (on_glob f w) = mw_fw w" "mw_shutdown (on_glob f w) = mw_shutdown w"
  "mw_processed (on_glob f w) = mw_processed w" "aw_glob (mw_modules (on_glob f w)) = f (aw_glob (mw_modules w))"
  "aw_an (mw_modules (on_glob f w)) = aw_an (mw_modules w)"
  by (simp_all add: on_glob_def)

abbreviation stats_of :: "main_world \<Rightarrow> global_stats" where
  "stats_of w \<equiv> aw_glob (mw_modules w)"

text \<open>The verdicts of a run: for each packet what the analyzer answers in the state the run has then,
  the packet already counted.\<close>

definition counted_world :: "packet \<Rightarrow> main_world \<Rightarrow> main_world" where
  "counted_world p w = on_glob (\<lambda>g. g\<lparr>total_packets := total_packets g + 1, total_bytes := total_bytes g + ucast (pkt_len p)\<rparr>)
     (w\<lparr>mw_processed := mw_processed w + 1\<rparr>)"

fun run_verdicts :: "(handler_env \<times> packet) list \<Rightarrow> main_world \<Rightarrow> (handler_env \<times> packet \<times> verdict) list" where
  "run_verdicts [] w = []"
| "run_verdicts ((env, p) # ps) w =
     (case (analyzer_process_packet (he_an env) p (mw_modules (counted_world p w)), packet_handler env p w) of
        (Some (Inr (v, m)), Some (Inr w1)) \<Rightarrow> (env, p, v) # run_verdicts ps w1
      | _ \<Rightarrow> [])"

text \<open>How many packets got the verdict \<open>v\<close>, and the commands for the dropped ones under automatic
  blacklisting.\<close>

definition verdict_count :: "verdict \<Rightarrow> (handler_env \<times> packet \<times> verdict) list \<Rightarrow> nat" where
  "verdict_count v vs = length (filter (\<lambda>(env, p, v'). v' = v) vs)"

definition drop_commands :: "firewall_backend \<Rightarrow> (handler_env \<times> packet \<times> verdict) list \<Rightarrow> string list" where
  "drop_commands be vs = map (\<lambda>(env, p, v). block_cmd be (ip_text (he_ntop env) (src_ip p)))
     (filter (\<lambda>(env, p, v). v = VERDICT_DROP \<and> auto_blacklist (he_cfg env)) vs)"

lemma verdict_count_Cons [simp]:
  "verdict_count v [] = 0" "verdict_count v ((env, p, v') # vs) = of_bool (v' = v) + verdict_count v vs"
  by (simp_all add: verdict_count_def)

lemma drop_commands_Cons [simp]:
  "drop_commands be [] = []"
  "drop_commands be ((env, p, v) # vs) =
     (if v = VERDICT_DROP \<and> auto_blacklist (he_cfg env) then [block_cmd be (ip_text (he_ntop env) (src_ip p))] else []) @ drop_commands be vs"
  by (simp_all add: drop_commands_def)

text \<open>One packet: the verdict, what it counts, and the firewall's command when it is dropped.\<close>

lemma block_issues:
  "fw_issued (snd (firewall_block_ip ntop sys now ok ip d fw)) = fw_issued fw @ [block_cmd (fw_backend fw) (ip_text ntop ip)]"
  "fw_backend (snd (firewall_block_ip ntop sys now ok ip d fw)) = fw_backend fw"
  by (simp_all add: firewall_block_ip_def issue_def Let_def)

lemma handler_step:
  assumes "packet_handler env pkt w = ret w'" and "\<not> mw_shutdown w"
  obtains v m where "analyzer_process_packet (he_an env) pkt (mw_modules (counted_world pkt w)) = ret (v, m)"
    "\<not> mw_shutdown w'" "mw_processed w' = mw_processed w + 1"
    "total_packets (stats_of w') = total_packets (stats_of w) + 1"
    "total_bytes (stats_of w') = total_bytes (stats_of w) + ucast (pkt_len pkt)"
    "dropped_packets (stats_of w') = dropped_packets (stats_of w) + of_bool (v = VERDICT_DROP)"
    "rate_limited_packets (stats_of w') = rate_limited_packets (stats_of w) + of_bool (v = VERDICT_RATE_LIMIT)"
    "fw_backend (mw_fw w') = fw_backend (mw_fw w)"
    "fw_issued (mw_fw w') = fw_issued (mw_fw w) @
       (if v = VERDICT_DROP \<and> auto_blacklist (he_cfg env) then [block_cmd (fw_backend (mw_fw w)) (ip_text (he_ntop env) (src_ip pkt))] else [])"
proof -
  let ?w = "counted_world pkt w"
  obtain v m where a: "analyzer_process_packet (he_an env) pkt (mw_modules ?w) = ret (v, m)"
    "w' = apply_verdict env pkt v (?w\<lparr>mw_modules := m\<rparr>)"
    using assms by (auto simp: packet_handler_def counted_world_def Let_def bindM_ret)
  have c: "total_packets (aw_glob m) = total_packets (stats_of w) + 1"
    "total_bytes (aw_glob m) = total_bytes (stats_of w) + ucast (pkt_len pkt)"
    "dropped_packets (aw_glob m) = dropped_packets (stats_of w)"
    "rate_limited_packets (aw_glob m) = rate_limited_packets (stats_of w)"
    using analyzer_counts [OF a(1)] by (simp_all add: traffic_counts_def counted_world_def)
  have k: "mw_shutdown ?w = mw_shutdown w" "mw_processed ?w = mw_processed w + 1" "mw_fw ?w = mw_fw w"
    by (simp_all add: counted_world_def)
  show thesis
    by (cases v; rule that [OF a(1)]; insert a(2) c k assms(2); simp add: apply_verdict_def Let_def block_issues)
qed

lemma handler_run_counts:
  assumes "handler_run ps w = ret w'" and "\<not> mw_shutdown w"
  shows "map (\<lambda>(env, p, v). (env, p)) (run_verdicts ps w) = ps \<and>
    mw_processed w' = mw_processed w + of_nat (length ps) \<and>
    total_packets (stats_of w') = total_packets (stats_of w) + of_nat (length ps) \<and>
    total_bytes (stats_of w') = total_bytes (stats_of w) + sum_list (map (\<lambda>(env, p). ucast (pkt_len p)) ps) \<and>
    dropped_packets (stats_of w') = dropped_packets (stats_of w) + of_nat (verdict_count VERDICT_DROP (run_verdicts ps w)) \<and>
    rate_limited_packets (stats_of w') =
      rate_limited_packets (stats_of w) + of_nat (verdict_count VERDICT_RATE_LIMIT (run_verdicts ps w)) \<and>
    fw_issued (mw_fw w') = fw_issued (mw_fw w) @ drop_commands (fw_backend (mw_fw w)) (run_verdicts ps w)"
  using assms
proof (induction ps arbitrary: w)
  case (Cons x ps)
  obtain env p where x: "x = (env, p)" by (cases x)
  obtain w1 where w1: "packet_handler env p w = ret w1" "handler_run ps w1 = ret w'"
    using Cons.prems(1) x by (auto simp: bindM_ret)
  from w1(1) Cons.prems(2) show ?case
  proof (rule handler_step, goal_cases)
    case (1 v m)
    from Cons.IH [OF w1(2) 1(2)] 1 w1(1) show ?case by (simp add: x add.assoc)
  qed
qed simp

text \<open>C39: what the capture loop counts. Over any run, the worker and the global counters count every
  packet handed over and its bytes. The dropped and the rate-limited packets counted are those for
  which the analyzer answered \<open>VERDICT_DROP\<close> and \<open>VERDICT_RATE_LIMIT\<close> in the state the run had
  then; and the firewall is given one block command for the source of each dropped packet under
  automatic blacklisting, in the order of the packets, and no other command (counters modulo
  \<open>2^64\<close>).\<close>

theorem capture_counts:
  assumes "capture_loop xs w = ret w'" and "\<not> mw_shutdown w"
  shows "map (\<lambda>(env, p, v). (env, p)) (run_verdicts (handled xs) w) = handled xs \<and>
    mw_processed w' = mw_processed w + of_nat (length (handled xs)) \<and>
    total_packets (stats_of w') = total_packets (stats_of w) + of_nat (length (handled xs)) \<and>
    total_bytes (stats_of w') = total_bytes (stats_of w) + sum_list (map (\<lambda>(env, p). ucast (pkt_len p)) (handled xs)) \<and>
    dropped_packets (stats_of w') =
      dropped_packets (stats_of w) + of_nat (verdict_count VERDICT_DROP (run_verdicts (handled xs) w)) \<and>
    rate_limited_packets (stats_of w') =
      rate_limited_packets (stats_of w) + of_nat (verdict_count VERDICT_RATE_LIMIT (run_verdicts (handled xs) w)) \<and>
    fw_issued (mw_fw w') = fw_issued (mw_fw w) @ drop_commands (fw_backend (mw_fw w)) (run_verdicts (handled xs) w)"
  by (rule handler_run_counts [OF capture_is_handler_run [OF assms(1)] assms(2)])

section \<open>What the program does\<close>

text \<open>Everything the protection modules and the analyzer keep, but the statistics blocks.\<close>

definition module_states ::
    "analyzer_world \<Rightarrow> traffic_analyzer option \<times> udp_protect_ctx option \<times> tcp_protect_ctx option \<times> icmp_protect_ctx option \<times>
      http_protect_ctx option \<times> conn_heap \<times> lru_cache option" where
  "module_states m = (aw_an m, aw_udp m, aw_tcp m, aw_icmp m, aw_http m, aw_conns m, aw_cache m)"

lemma handler_run_empty:
  assumes "handler_run ps w = ret w'" and "\<not> mw_shutdown w" and "table_empty (aw_an (mw_modules w))"
  shows "mw_fw w' = mw_fw w \<and> mw_processed w' = mw_processed w + of_nat (length ps) \<and>
    stats_of w' = (stats_of w)\<lparr>total_packets := total_packets (stats_of w) + of_nat (length ps),
      total_bytes := total_bytes (stats_of w) + sum_list (map (\<lambda>(env, p). ucast (pkt_len p)) ps)\<rparr> \<and>
    module_states (mw_modules w') = module_states (mw_modules w)"
  using assms
proof (induction ps arbitrary: w)
  case (Cons x ps)
  obtain env p where x: "x = (env, p)" by (cases x)
  obtain w1 where w1: "packet_handler env p w = ret w1" "handler_run ps w1 = ret w'"
    using Cons.prems(1) x by (auto simp: bindM_ret)
  let ?w = "on_glob (\<lambda>g. g\<lparr>total_packets := total_packets g + 1, total_bytes := total_bytes g + ucast (pkt_len p)\<rparr>)
    (w\<lparr>mw_processed := mw_processed w + 1\<rparr>)"
  have e: "table_empty (aw_an (mw_modules ?w))" using Cons.prems(3) by simp
  define m where "m = (if aw_an (mw_modules ?w) = None \<or> ae_fresh (he_an env) = 0 then mw_modules ?w
    else (mw_modules ?w)\<lparr>aw_stats := (aw_stats (mw_modules ?w))(ae_fresh (he_an env) \<mapsto> new_stats (ae_stats_time (he_an env)) (src_ip p))\<rparr>)"
  have "analyzer_process_packet (he_an env) p (mw_modules ?w) = ret (VERDICT_ACCEPT, m)"
    unfolding m_def by (rule process_empty [OF e])
  then have w1eq: "w1 = ?w\<lparr>mw_modules := m\<rparr>"
    using w1(1) Cons.prems(2) by (simp add: packet_handler_def Let_def apply_verdict_def)
  have mm: "m = (mw_modules ?w)\<lparr>aw_stats := aw_stats m\<rparr>" by (simp add: m_def)
  have g1: "stats_of w1 = (stats_of w)\<lparr>total_packets := total_packets (stats_of w) + 1,
      total_bytes := total_bytes (stats_of w) + ucast (pkt_len p)\<rparr>"
    using w1eq by (subst w1eq, subst mm) (simp add: m_def)
  have s: "\<not> mw_shutdown w1" "table_empty (aw_an (mw_modules w1))" "mw_fw w1 = mw_fw w" "mw_processed w1 = mw_processed w + 1"
    using Cons.prems(2,3) by (simp_all add: w1eq m_def)
  have m1: "module_states (mw_modules w1) = module_states (mw_modules w)"
    by (simp add: w1eq m_def on_glob_def module_states_def)
  from Cons.IH [OF w1(2) s(1,2)] m1 g1 s(3,4) x show ?case by (simp add: ac_simps)
qed simp


text \<open>C38: the program mitigates nothing. Started as \<open>main\<close> starts it, with whatever answers of the
  allocator, the capture loop over any frames (that it survives) counts the packets and their bytes
  and changes nothing else: no packet is dropped or rate limited, no attack is detected, no module
  changes its state, and the firewall gets no command, whatever the configuration and the traffic.\<close>

theorem mitigation_never_happens:
  assumes "capture_loop xs w = ret w'" and "\<not> mw_shutdown w"
    and "aw_an (mw_modules w) = analyzer_init a b c d e now" and "stats_of w = zero_global_stats\<lparr>start_time := t\<rparr>"
  shows "mw_fw w' = mw_fw w \<and> module_states (mw_modules w') = module_states (mw_modules w) \<and>
    stats_of w' = zero_global_stats\<lparr>start_time := t, total_packets := of_nat (length (handled xs)),
      total_bytes := sum_list (map (\<lambda>(env, p). ucast (pkt_len p)) (handled xs))\<rparr>"
  using handler_run_empty [OF capture_is_handler_run [OF assms(1)] assms(2)] analyzer_init_empty [of a b c d e now] assms(3,4)
  by (simp add: zero_global_stats_def)

section \<open>Start and end\<close>

lemma free_buckets_empty: "\<forall>i \<in> set is. bs i = 0 \<Longrightarrow> free_buckets h bs is = ret h"
  by (induction "is") (auto simp: chain_free.simps)

lemma context_create_cleanup:
  "init_context a b c d now cfg = Some ctx \<Longrightarrow> cleanup_context h (Some ctx) = ret h"
  by (auto simp: init_context_def cleanup_context_def hashtable_create_def lru_cache_create_def hashtable_destroy_def
      lru_cache_destroy_def free_buckets_empty list_free.simps split: if_splits)

text \<open>The context is released although the threads that use it were started and not joined.\<close>

fun frees_under_threads :: "bool \<Rightarrow> main_step list \<Rightarrow> bool" where
  "frees_under_threads alive [] = False"
| "frees_under_threads alive (x # xs) =
     (if x = Context_cleanup \<and> alive then True
      else frees_under_threads (if x = Threads_create then True else if x = Threads_join then False else alive) xs)"

lemma frees_append:
  "{Threads_create, Threads_join, Context_cleanup} \<inter> set xs = {} \<Longrightarrow>
    frees_under_threads alive (xs @ ys) = frees_under_threads alive ys"
  by (induction xs arbitrary: alive) auto

text \<open>Everything before the capture has been set up.\<close>

definition comes_to_capture :: "main_env \<Rightarrow> bool" where
  "comes_to_capture env \<longleftrightarrow> config_validate (me_cfg env) = 0 \<and> me_logger_ok env \<and> me_signals_ok env \<and> me_context_ok env \<and>
     me_firewall_ok env \<and> me_analyzer_ok env"

lemma startup_frees:
  "frees_under_threads alive (main_startup env cfg @ ys) = frees_under_threads True ys"
  by (auto simp: main_startup_def step_if_def frees_append)

lemma shutdown_frees: "frees_under_threads alive (main_shutdown env cfg @ ys) = frees_under_threads alive ys"
  by (rule frees_append) (auto simp: main_shutdown_def step_if_def)

text \<open>\<open>pcap_loop\<close> with a count of -1 on a live capture, as documented: it goes on until an error
  (\<open>PCAP_ERROR\<close>, -1) unless \<open>pcap_breakloop\<close> is called.\<close>

definition pcap_documented :: "main_env \<Rightarrow> bool" where
  "pcap_documented env \<longleftrightarrow> me_pcap_loop env False \<in> {None, Some (-1)}"

lemma startup_steps:
  "Capture_stop \<notin> set (main_startup env cfg)" "Firewall_cleanup \<notin> set (main_startup env cfg)"
  "Capture_stop \<notin> set (main_shutdown env cfg)" "Firewall_cleanup \<in> set (main_shutdown env cfg)"
  by (auto simp: main_startup_def main_shutdown_def step_if_def)

text \<open>C40: how \<open>main\<close> ends. Nothing stops the capture, so a signal does not end the program: once all is
  set up and the capture is open, it hangs in \<open>pcap_loop\<close> with or without a signal, unless the capture
  fails. After a failure of the capture it exits, with success, exactly when a signal has come, and
  otherwise hangs at joining the threads. It fails exactly when something cannot be set up; the
  firewall rules are removed exactly when it succeeds; and it releases the context under the running
  threads exactly when the capture cannot be opened.\<close>

theorem main_exit_paths:
  assumes "pcap_documented env"
  shows "(snd (main env) = Exit_failure \<longleftrightarrow> \<not> (comes_to_capture env \<and> me_capture_ok env)) \<and>
    (snd (main env) = Exit_success \<longleftrightarrow>
       comes_to_capture env \<and> me_capture_ok env \<and> me_pcap_loop env False = Some (-1) \<and> me_signal env) \<and>
    (snd (main env) = Hangs \<and> last (fst (main env)) = Capture_start \<longleftrightarrow>
       comes_to_capture env \<and> me_capture_ok env \<and> me_pcap_loop env False = None) \<and>
    (snd (main env) = Hangs \<and> last (fst (main env)) = Threads_join \<longleftrightarrow>
       comes_to_capture env \<and> me_capture_ok env \<and> me_pcap_loop env False = Some (-1) \<and> \<not> me_signal env) \<and>
    Capture_stop \<notin> set (fst (main env)) \<and>
    (Firewall_cleanup \<in> set (fst (main env)) \<longleftrightarrow> snd (main env) = Exit_success) \<and>
    (frees_under_threads False (fst (main env)) \<longleftrightarrow> comes_to_capture env \<and> \<not> me_capture_ok env)"
proof (cases "me_cfg env")
  case None
  then show ?thesis by (simp add: main_def comes_to_capture_def config_validate_def)
next
  case (Some cfg)
  from assms show ?thesis
    by (cases "me_pcap_loop env False")
      (simp_all add: pcap_documented_def main_def comes_to_capture_def Some Let_def at_cleanup_def step_if_def
        loop_broken_def startup_steps startup_frees shutdown_frees)
qed

text \<open>All goes well, a signal comes, and the capture goes on.\<close>

definition example_main_env :: main_env where
  "example_main_env = \<lparr>me_cfg = Some (example_cfg\<lparr>interface := Some ''eth0'', num_workers := 4\<rparr>), me_logger_ok = True, me_signals_ok = True, me_context_ok = True,
     me_firewall_ok = True, me_analyzer_ok = True, me_geoip_ok = True, me_xdp_ok = True, me_api_ok = True,
     me_websocket_ok = True, me_capture_ok = True, me_pcap_loop = (\<lambda>broken. if broken then Some (-2) else None), me_signal = True\<rparr>"

theorem main_exit_paths_witness:
  "snd (main example_main_env) = Hangs \<and> last (fst (main example_main_env)) = Capture_start"
proof -
  have d: "pcap_documented example_main_env" by (simp add: pcap_documented_def example_main_env_def)
  have "comes_to_capture example_main_env \<and> me_capture_ok example_main_env \<and> me_pcap_loop example_main_env False = None"
    by (simp add: example_main_env_def comes_to_capture_def config_validate_def MAX_WORKERS_def)
  with main_exit_paths [OF d] show ?thesis by simp
qed

section \<open>A concrete run\<close>

definition example_main :: main_world where
  "example_main = \<lparr>mw_processed = 0, mw_modules = fresh_world (Some fresh_analyzer) Map.empty, mw_fw = example_fw, mw_shutdown = False\<rparr>"

definition example_handler_env :: handler_env where
  "example_handler_env = \<lparr>he_an = example_analyzer_env, he_ntop = example_ntop, he_system = 0, he_now = 0, he_alloc = True\<rparr>"

text \<open>A captured UDP datagram of two bytes.\<close>

definition example_datagram :: "u8 list" where
  "example_datagram = ip4_frame (replicate 14 0) PROTO_UDP 0xC0000201 0x0A000001 (udp_segment 4000 5000 [1, 2])"

lemma example_handed_over:
  "\<exists>p. handed_over example_datagram 0 = Some p \<and>
    pcap_callback (\<lambda>p _. Inr (Some p)) True True example_datagram 0 None = Inr (Some p)"
proof -
  have len: "length example_datagram = 44"
    by (simp add: example_datagram_def length_ip4_frame length_udp_segment)
  obtain p where "packet_parse zero_packet example_datagram (of_nat (42 + length [1 :: u8, 2])) 0 = Inr (0, p)"
    using packet_parse_udp_roundtrip [of "replicate 14 0" "[1, 2]" "0xC0000201" "0x0A000001" 4000 5000 0]
    unfolding example_datagram_def by auto
  then have "pcap_callback (\<lambda>p _. Inr (Some p)) True True example_datagram 0 None = Inr (Some p)"
    by (simp add: pcap_callback_def Let_def packet_parse_def len)
  then show ?thesis by (simp add: handed_over_def)
qed

lemma example_run:
  "\<exists>w' p. capture_loop [(example_handler_env, example_datagram, 0)] example_main = ret w' \<and>
    handled [(example_handler_env, example_datagram, 0)] = [(example_handler_env, p)]"
proof -
  obtain p where p: "handed_over example_datagram 0 = Some p"
    "pcap_callback (\<lambda>p _. Inr (Some p)) True True example_datagram 0 None = Inr (Some p)"
    using example_handed_over by blast
  have "table_empty (aw_an (fresh_world (Some fresh_analyzer) Map.empty))"
    using analyzer_init_empty [of True True True "(True, True)" "(True, True)" 0] by (simp add: fresh_analyzer_init fresh_world_def)
  then show ?thesis
    using p by (simp add: capture_step_def packet_handler_def example_main_def on_glob_def Let_def process_empty)
qed

lemma example_main_facts:
  "aw_an (mw_modules example_main) = analyzer_init True True True (True, True) (True, True) 0"
  "stats_of example_main = zero_global_stats\<lparr>start_time := 0\<rparr>" "\<not> mw_shutdown example_main" "mw_fw example_main = example_fw"
  by (simp_all add: example_main_def fresh_world_def fresh_analyzer_init zero_global_stats_def)

theorem capture_counts_witness:
  "\<exists>w'. capture_loop [(example_handler_env, example_datagram, 0)] example_main = ret w' \<and> total_packets (stats_of w') = 1"
proof -
  obtain w' p where r: "capture_loop [(example_handler_env, example_datagram, 0)] example_main = ret w'"
    "handled [(example_handler_env, example_datagram, 0)] = [(example_handler_env, p)]" using example_run by blast
  show ?thesis using capture_counts [OF r(1) example_main_facts(3)] r
    by (simp add: example_main_facts zero_global_stats_def)
qed

theorem mitigation_never_happens_witness:
  "\<exists>w'. capture_loop [(example_handler_env, example_datagram, 0)] example_main = ret w' \<and> mw_fw w' = example_fw \<and>
    total_packets (stats_of w') = 1"
proof -
  obtain w' p where r: "capture_loop [(example_handler_env, example_datagram, 0)] example_main = ret w'"
    "handled [(example_handler_env, example_datagram, 0)] = [(example_handler_env, p)]" using example_run by blast
  from mitigation_never_happens [OF r(1) example_main_facts(3,1,2)] r
  show ?thesis by (simp add: example_main_facts zero_global_stats_def)
qed

end
