(* ===== verification/Spec2Isabelle.thy ===== *)
theory Spec2Isabelle
  imports Detection AnalyzerProofs ParserProofs RateLimitProofs Firewall XdpFilter Config Logger GeoIp EbpfLoader Servers
    MainLoop
begin

text \<open>
  A model of the DDoS protection daemon (C, user space, with one XDP program) and the theorems that say
  what it does.

  \<^bold>\<open>The program.\<close> \<open>main\<close> (\<open>src/src/core/main.c\<close>) reads a JSON configuration (\<open>core/config.c\<close>), starts the
  log (\<open>core/logger.c\<close>), builds a context with a connection table and an LRU cache
  (\<open>storage/hashtable.c\<close>, \<open>storage/lru_cache.c\<close>), sets up the firewall (\<open>filter/firewall.c\<close>), the four
  protection modules (\<open>detection/udp_protect.c\<close>, \<open>tcp_protect.c\<close>, \<open>icmp_protect.c\<close>, \<open>http_protect.c\<close>)
  and the analyzer (\<open>detection/analyzer.c\<close>, with two address sets of \<open>storage/ipset.c\<close>), and then lets
  \<open>packet/capture.c\<close> deliver frames. Each frame is parsed (\<open>packet/parser.c\<close>) and given to
  \<open>packet_handler\<close>, which counts it, asks the analyzer for a verdict and, on a drop, blocks the source
  in the firewall. \<open>filter/ratelimit.c\<close>, \<open>geoip/geoip.c\<close>, \<open>filter/ebpf_loader.c\<close>, the API and the WebSocket
  servers are built but take no part in a verdict; \<open>ebpf/xdp_filter.c\<close> filters in the kernel.

  \<^bold>\<open>Theories.\<close>
  \<^item> \<open>DDoS_Prelude\<close>, \<open>DDoS_Types\<close>: integers at their width, faults and divergence as values, buffers and
    byte order; the structures and enumerations of \<open>include/common.h\<close> and the address functions.
  \<^item> \<open>BucketTable\<close>: the interface \<open>hashed_key\<close> of every chained table (equal keys share a bucket),
    interpreted for address sets, connections, statistics and the rate limiter.
  \<^item> \<open>IpSet\<close>, \<open>AddressSet\<close>: \<open>storage/ipset.c\<close>; invariant, membership, CIDR blocks, expiry, save and load;
    the interface \<open>expiring_set\<close> (a set as a map of bounded size from addresses to expiry times, also
    where the allocator fails), interpreted for IPv4.
  \<^item> \<open>PacketParser\<close>, \<open>PacketCapture\<close>, \<open>ParserProofs\<close>: frames; bounds of every read, build-and-parse.
  \<^item> \<open>ConnTable\<close>, \<open>LruCache\<close>: the connection heap, the hash table and the doubly linked cache, with the
    refinement of the cache to a list of keys in order of use.
  \<^item> \<open>Detector\<close>, \<open>UdpProtect\<close>, \<open>TcpProtect\<close>, \<open>IcmpProtect\<close>, \<open>HttpProtect\<close>, \<open>Detection\<close>: the interfaces
    \<open>detector\<close> and \<open>counting_detector\<close>, interpreted by every module; what each accepts; the TCP state
    machine and its refinement, handshakes, slow connections, runs without a fault; the modules'
    counters together.
  \<^item> \<open>Analyzer\<close>, \<open>AnalyzerProofs\<close>: statistics per address, reputation, entropy, classification, and which
    module judges a packet on which state.
  \<^item> \<open>RateLimit\<close>, \<open>RateLimitProofs\<close>: sliding windows against a list of stamped additions; the limiter.
  \<^item> \<open>Firewall\<close>: the commands given to \<open>system\<close> by both backends, and the tracking set, refined to a map.
  \<^item> \<open>XdpFilter\<close>, \<open>EbpfLoader\<close>: the kernel program with its counters, its agreement with the user-space
    parser, and the loader's operations.
  \<^item> \<open>Config\<close>: parsing over an abstract JSON library, validation, reload; what the thresholds become in
    the modules.
  \<^item> \<open>Logger\<close>: messages, rotation and the mutex. \<open>Servers\<close>: the interface \<open>server_lifecycle\<close>, interpreted
    by both servers, and the messages. \<open>GeoIp\<close>: the placeholder lookups.
  \<^item> \<open>MainLoop\<close>: the packet handler over all modules, runs of the capture with the verdict of each packet,
    and the order of \<open>main\<close>, whose call of \<open>pcap_loop\<close> returns only as \<open>libpcap\<close> documents.

  \<^bold>\<open>Conventions.\<close> A C structure is a record with the structure's fields (prefixed where names would
  clash); locks are left out of the records, an operation being the atomic step its lock makes it,
  except in \<open>Config\<close> and \<open>Logger\<close>, where the locking itself goes wrong. Objects that the code shares
  through pointers live on a heap, a partial map from addresses (0 is \<open>NULL\<close>). Answers of the allocator,
  the clock, \<open>libpcap\<close>, \<open>jansson\<close>, \<open>inet_pton\<close>, \<open>system\<close> and the file system are arguments.

  \<^bold>\<open>Errors, bounds and termination.\<close> A \<open>result\<close> is a fault or a value, a \<open>run\<close> can also be \<open>None\<close>, a call
  that never returns (a loop over a cycle, a mutex locked twice). No fuel is used: loops over lists
  and arrays are structural, pointer loops are \<open>partial_function\<close>s, and \<open>log_message\<close> ends by a measure
  on the lock. Theorems about results say that there is one, or for which inputs there is none.

  \<^bold>\<open>What the theorems show.\<close> The storage, the parser and each module do what their interface promises on
  the inputs stated, and where they do not the theorem says exactly when: reads past a capture, double
  releases, lookups that never end, counters that wrap. Put together they say what the daemon does as
  a whole: because a new statistics entry is never stored, the running program counts packets and
  accepts all of them (\<open>mitigation_never_happens\<close>), although each part behind the analyzer would act;
  and because nothing stops the capture, a signal does not end it (\<open>main_exit_paths\<close>).

  \<^bold>\<open>Not modelled.\<close> Interleavings of the threads inside an operation, the text of log lines (but in
  \<open>Logger\<close>), out-of-memory inside \<open>strdup\<close>, floating-point rounding (a \<open>double\<close> is a real number), what the
  issued shell commands do, and everything that is not C: the web page, scripts, tests and documents.
  Inputs that no caller in the program passes are given a value where C leaves them undefined: a prefix
  length above 128 in \<open>ip_in_cidr\<close>, an address text of 45 or more characters without a slash and a
  number beyond 64 bits in \<open>ipset_add_cidr\<close>, a log level outside the enumeration in \<open>Logger\<close>.
\<close>

end
